(* ===== verification/Prelude.thy ===== *)
theory Prelude
  imports Main "HOL-Library.Word"
begin

section \<open>Prelude: types, errors and generic lemmas shared by the components\<close>

text \<open>
  The names every theory of the development uses: the 64-bit version and token type, C++
  exceptions as values, and the small facts about words, maps and maxima that the component
  proofs share.

  A C++ function that may throw returns \<open>cxx_exn + 'a\<close>: \<open>Inl\<close> is the exception
  (with the text its \<open>what()\<close> gives), \<open>Inr\<close> the value. A handler that changes state and
  may throw returns the result together with the state, because what was changed before the
  throw stays changed.
\<close>

type_synonym u64 = "64 word"

datatype cxx_exn =
    Runtime_error string
  | Invalid_argument string
  | Out_of_range string

fun what :: "cxx_exn \<Rightarrow> string" where
  "what (Runtime_error m) = m"
| "what (Invalid_argument m) = m"
| "what (Out_of_range m) = m"

definition isOk :: "'e + 'a \<Rightarrow> bool" where
  "isOk r = (case r of Inl _ \<Rightarrow> False | Inr _ \<Rightarrow> True)"

lemma isOk_simps [simp]: "isOk (Inr x)" "\<not> isOk (Inl e)"
  by (simp_all add: isOk_def)

named_theorems frame_simps \<open>what an operation leaves unchanged\<close>
named_theorems handler_defs \<open>definitions of the handlers, unfolded by the functional lemmas\<close>

text \<open>The C++ \<open>int\<close> of the supported platforms: 32 bits, two's complement.\<close>

definition int_min :: int where "int_min = - (2 ^ 31)"
definition int_max :: int where "int_max = 2 ^ 31 - 1"

definition fits_int :: "int \<Rightarrow> bool" where
  "fits_int i \<longleftrightarrow> int_min \<le> i \<and> i \<le> int_max"

lemmas int_range_defs = int_min_def int_max_def fits_int_def

subsection \<open>Words\<close>

lemma unat_u64_less: "unat (w :: u64) < 18446744073709551616"
  using unsigned_less [where 'a = nat, of w] by simp

lemma word_neq_0_unat: "(w :: u64) \<noteq> 0 \<longleftrightarrow> 0 < unat w"
  by (simp add: unat_gt_0)

lemma unat_inc_u64: "unat (w :: u64) + 1 < 2 ^ 64 \<Longrightarrow> unat (w + 1) = unat w + 1"
  by (simp add: unat_word_ariths)

lemma unat_minus_1_u64: "unat (-1 :: u64) = 2 ^ 64 - 1"
  by (simp add: unsigned_minus_1_eq_mask mask_eq_exp_minus_1)

lemma unat_not_max_u64: "unat (w :: u64) + 1 < 2 ^ 64 \<Longrightarrow> w \<noteq> -1"
  using unat_minus_1_u64 by auto

lemma inc_u64_less: "(w :: u64) \<noteq> -1 \<Longrightarrow> w < w + 1"
  by (metis inc_less_eq_triv_imp linorder_less_linear word_le_less_eq)

lemma unat_max_word: "unat (max a b :: u64) = max (unat a) (unat b)"
  by (simp add: max_def word_le_nat_alt)

lemma word_of_nat_unat [simp]: "(word_of_nat (unat w) :: u64) = w"
  by simp

lemma unat_of_nat_u64: "n < 2 ^ 64 \<Longrightarrow> unat (word_of_nat n :: u64) = n"
  by (simp add: unat_of_nat)

subsection \<open>Maximum of a finite set of version numbers\<close>

text \<open>Version 0 stands for "none": \<open>Max0\<close> is the largest element, 0 for the empty set.\<close>

definition Max0 :: "nat set \<Rightarrow> nat" where
  "Max0 A = Max (insert 0 A)"

lemma Max0_empty [simp]: "Max0 {} = 0"
  by (simp add: Max0_def)

lemma Max0_insert [simp]: "finite A \<Longrightarrow> Max0 (insert x A) = max x (Max0 A)"
  by (simp add: Max0_def insert_commute [of 0 x])

lemma Max0_ge: "finite A \<Longrightarrow> x \<in> A \<Longrightarrow> x \<le> Max0 A"
  by (simp add: Max0_def)

lemma Max0_mono: "finite B \<Longrightarrow> A \<subseteq> B \<Longrightarrow> Max0 A \<le> Max0 B"
  unfolding Max0_def by (rule Max_mono) auto

lemma Max0_in: "finite A \<Longrightarrow> Max0 A \<noteq> 0 \<Longrightarrow> Max0 A \<in> A"
  unfolding Max0_def using Max_in [of "insert 0 A"] by auto

lemma Max0_le: "finite A \<Longrightarrow> (\<And>x. x \<in> A \<Longrightarrow> x \<le> b) \<Longrightarrow> Max0 A \<le> b"
  by (simp add: Max0_def)

lemma max_eq_self_or: "max (a :: 'a :: linorder) b = a \<or> max a b = b"
  by (simp add: max_def)

subsection \<open>Maps\<close>

lemma map_upd_same_dom: "m k = Some v \<Longrightarrow> dom (m(k \<mapsto> w)) = dom m"
  by auto

definition ran_all :: "('v \<Rightarrow> bool) \<Rightarrow> ('k \<rightharpoonup> 'v) \<Rightarrow> bool" where
  "ran_all P m \<longleftrightarrow> (\<forall>k v. m k = Some v \<longrightarrow> P v)"

lemma ran_all_empty [simp]: "ran_all P Map.empty"
  by (simp add: ran_all_def)

lemma ran_all_upd [intro]: "ran_all P m \<Longrightarrow> P v \<Longrightarrow> ran_all P (m(k \<mapsto> v))"
  by (simp add: ran_all_def)

lemma ran_allD: "ran_all P m \<Longrightarrow> m k = Some v \<Longrightarrow> P v"
  by (simp add: ran_all_def)

end
