(* ===== verification/Numeric_Text.thy ===== *)
theory Numeric_Text
  imports Prelude
begin

section \<open>Decimal text: to\_string, stoll, stoi, stoull\<close>

text \<open>
  The conversions of the C++ standard library that the program uses: \<open>std::to_string\<close> on
  integers, and \<open>std::stoi\<close>, \<open>std::stoll\<close>, \<open>std::stoull\<close>, each of which calls the C
  function of the \<open>strto\<close> family: skip white space, take one optional sign, in base 16 an
  optional \<open>0x\<close>, then the longest run of digits. No digit at all is \<open>invalid_argument\<close>, a
  value outside the result type \<open>out_of_range\<close>; the number of characters used goes to
  \<open>idx\<close>. \<open>strtoull\<close> accepts a minus sign and negates in the unsigned type.
\<close>

subsection \<open>Printing\<close>

fun dec_digits :: "nat \<Rightarrow> nat list" where
  "dec_digits n = (if n < 10 then [n] else dec_digits (n div 10) @ [n mod 10])"

declare dec_digits.simps [simp del]

definition digit_char :: "nat \<Rightarrow> char" where
  "digit_char d = char_of (48 + d)"

definition to_string_nat :: "nat \<Rightarrow> string" where
  "to_string_nat n = map digit_char (dec_digits n)"

definition to_string_int :: "int \<Rightarrow> string" where
  "to_string_int i =
     (if i < 0 then CHR ''-'' # to_string_nat (nat (- i)) else to_string_nat (nat i))"

subsection \<open>Scanning\<close>

definition is_space :: "char \<Rightarrow> bool" where
  "is_space c \<longleftrightarrow> (let n = (of_char c :: nat) in n = 32 \<or> (9 \<le> n \<and> n \<le> 13))"

definition digit_value :: "char \<Rightarrow> nat" where
  "digit_value c =
     (let n = (of_char c :: nat) in
      if 48 \<le> n \<and> n \<le> 57 then n - 48
      else if 65 \<le> n \<and> n \<le> 90 then n - 55
      else if 97 \<le> n \<and> n \<le> 122 then n - 87
      else 36)"

definition is_digit :: "nat \<Rightarrow> char \<Rightarrow> bool" where
  "is_digit base c \<longleftrightarrow> digit_value c < base"

definition number_of_digits :: "nat \<Rightarrow> string \<Rightarrow> nat" where
  "number_of_digits base ds = foldl (\<lambda>a c. a * base + digit_value c) 0 ds"

definition sign_length :: "string \<Rightarrow> nat" where
  "sign_length s =
     (case s of c # _ \<Rightarrow> if c = CHR ''-'' \<or> c = CHR ''+'' then 1 else 0 | [] \<Rightarrow> 0)"

definition is_negated :: "string \<Rightarrow> bool" where
  "is_negated s = (case s of c # _ \<Rightarrow> c = CHR ''-'' | [] \<Rightarrow> False)"

definition hex_prefix_length :: "nat \<Rightarrow> string \<Rightarrow> nat" where
  "hex_prefix_length base s =
     (case s of z # x # d # _ \<Rightarrow>
        if base = 16 \<and> z = CHR ''0'' \<and> (x = CHR ''x'' \<or> x = CHR ''X'') \<and> is_digit 16 d
        then 2 else 0
      | _ \<Rightarrow> 0)"

text \<open>Sign, magnitude and number of characters used; \<open>None\<close> when there is no digit.\<close>

definition strto :: "nat \<Rightarrow> string \<Rightarrow> (bool \<times> nat \<times> nat) option" where
  "strto base s =
     (let ws = length (takeWhile is_space s);
          s1 = drop ws s;
          sg = sign_length s1;
          s2 = drop sg s1;
          px = hex_prefix_length base s2;
          ds = takeWhile (is_digit base) (drop px s2)
      in if ds = [] then None
         else Some (is_negated s1, number_of_digits base ds, ws + sg + px + length ds))"

definition signed_value :: "bool \<Rightarrow> nat \<Rightarrow> int" where
  "signed_value neg m = (if neg then - int m else int m)"

definition stoll :: "string \<Rightarrow> cxx_exn + (int \<times> nat)" where
  "stoll s =
     (case strto 10 s of
        None \<Rightarrow> Inl (Invalid_argument ''stoll'')
      | Some (neg, m, n) \<Rightarrow>
          if signed_value neg m < - (2 ^ 63) \<or> signed_value neg m > 2 ^ 63 - 1
          then Inl (Out_of_range ''stoll'') else Inr (signed_value neg m, n))"

definition stoi :: "string \<Rightarrow> cxx_exn + int" where
  "stoi s =
     (case strto 10 s of
        None \<Rightarrow> Inl (Invalid_argument ''stoi'')
      | Some (neg, m, n) \<Rightarrow>
          if \<not> fits_int (signed_value neg m)
          then Inl (Out_of_range ''stoi'') else Inr (signed_value neg m))"

definition stoull :: "nat \<Rightarrow> string \<Rightarrow> cxx_exn + (u64 \<times> nat)" where
  "stoull base s =
     (case strto base s of
        None \<Rightarrow> Inl (Invalid_argument ''stoull'')
      | Some (neg, m, n) \<Rightarrow>
          if 2 ^ 64 \<le> m then Inl (Out_of_range ''stoull'')
          else Inr (if neg then - word_of_nat m else word_of_nat m, n))"

subsection \<open>Printed numbers scan back\<close>

lemma dec_digits_nonempty [simp]: "dec_digits n \<noteq> []"
  by (subst dec_digits.simps) simp

lemma dec_digits_less: "d \<in> set (dec_digits n) \<Longrightarrow> d < 10"
proof (induction n rule: dec_digits.induct)
  case (1 n)
  then show ?case
    by (cases "n < 10") (auto simp: dec_digits.simps [of n])
qed

lemma dec_digits_value: "foldl (\<lambda>a d. a * 10 + d) 0 (dec_digits n) = n"
proof (induction n rule: dec_digits.induct)
  case (1 n)
  then show ?case
    by (cases "n < 10") (simp_all add: dec_digits.simps [of n])
qed

lemma of_char_digit_char: "d < 10 \<Longrightarrow> (of_char (digit_char d) :: nat) = 48 + d"
  by (simp add: digit_char_def)

lemma digit_value_digit_char [simp]: "d < 10 \<Longrightarrow> digit_value (digit_char d) = d"
  by (simp add: digit_value_def of_char_digit_char Let_def)

lemma is_digit_digit_char [simp]: "d < 10 \<Longrightarrow> 10 \<le> b \<Longrightarrow> is_digit b (digit_char d)"
  by (simp add: is_digit_def)

lemma not_space_digit_char [simp]: "d < 10 \<Longrightarrow> \<not> is_space (digit_char d)"
  by (simp add: is_space_def of_char_digit_char Let_def)

lemma digit_char_not_sign [simp]:
  assumes "d < 10"
  shows "digit_char d \<noteq> CHR ''-''" "digit_char d \<noteq> CHR ''+''"
    "digit_char d \<noteq> CHR ''x''" "digit_char d \<noteq> CHR ''X''"
  using of_char_digit_char [OF assms] assms by auto

lemma number_of_digits_dec:
  assumes "\<forall>d \<in> set ds. d < 10"
  shows "foldl (\<lambda>a c. a * 10 + digit_value c) a (map digit_char ds)
    = foldl (\<lambda>a d. a * 10 + d) a ds"
  using assms by (induction ds arbitrary: a) auto

lemma number_of_digits_to_string: "number_of_digits 10 (to_string_nat n) = n"
  using number_of_digits_dec [of "dec_digits n" 0] dec_digits_less
  by (auto simp: number_of_digits_def to_string_nat_def dec_digits_value)

lemma to_string_nat_digits: "c \<in> set (to_string_nat n) \<Longrightarrow> is_digit 10 c"
  using dec_digits_less by (auto simp: to_string_nat_def)

lemma to_string_nat_nonempty [simp]: "to_string_nat n \<noteq> []"
  by (simp add: to_string_nat_def)

lemma takeWhile_to_string_nat:
  "takeWhile (is_digit 10) (to_string_nat n) = to_string_nat n"
  by (rule takeWhile_eq_all_conv [THEN iffD2]) (auto dest: to_string_nat_digits)

lemma to_string_nat_Cons:
  obtains d s where "to_string_nat n = digit_char d # s" and "d < 10"
proof -
  obtain d ds where "dec_digits n = d # ds"
    by (meson dec_digits_nonempty neq_Nil_conv)
  moreover from this have "d < 10" using dec_digits_less [of d n] by simp
  ultimately show thesis using that by (simp add: to_string_nat_def)
qed

lemma hex_prefix_length_dec [simp]: "hex_prefix_length 10 s = 0"
  by (simp add: hex_prefix_length_def split: list.splits)

lemma strto_to_string_nat:
  "strto 10 (to_string_nat n) = Some (False, n, length (to_string_nat n))"
proof -
  obtain d s where s: "to_string_nat n = digit_char d # s" and d: "d < 10"
    by (rule to_string_nat_Cons)
  have "takeWhile is_space (to_string_nat n) = []"
    "sign_length (to_string_nat n) = 0" "\<not> is_negated (to_string_nat n)"
    using s d by (simp_all add: sign_length_def is_negated_def)
  then show ?thesis
    by (simp add: strto_def takeWhile_to_string_nat number_of_digits_to_string)
qed

lemma strto_minus_to_string_nat:
  "strto 10 (CHR ''-'' # to_string_nat n) = Some (True, n, Suc (length (to_string_nat n)))"
  by (simp add: strto_def sign_length_def is_negated_def is_space_def
      takeWhile_to_string_nat number_of_digits_to_string)

lemma strto_to_string_int:
  "strto 10 (to_string_int i) = Some (i < 0, nat \<bar>i\<bar>, length (to_string_int i))"
  by (simp add: to_string_int_def strto_to_string_nat strto_minus_to_string_nat)

lemma signed_value_abs [simp]: "signed_value (i < 0) (nat \<bar>i\<bar>) = i"
  by (simp add: signed_value_def)

lemma stoll_to_string:
  "- (2 ^ 63) \<le> i \<Longrightarrow> i < 2 ^ 63 \<Longrightarrow> stoll (to_string_int i) = Inr (i, length (to_string_int i))"
  by (simp add: stoll_def strto_to_string_int)

lemma stoi_to_string: "fits_int i \<Longrightarrow> stoi (to_string_int i) = Inr i"
  by (simp add: stoi_def strto_to_string_int)

lemma stoull_to_string:
  "n < 2 ^ 64 \<Longrightarrow> stoull 10 (to_string_nat n) = Inr (word_of_nat n, length (to_string_nat n))"
  by (simp add: stoull_def strto_to_string_nat)

lemma to_string_int_nonempty [simp]: "to_string_int i \<noteq> []"
  by (simp add: to_string_int_def)

lemma inj_to_string_nat: "inj to_string_nat"
  by (rule inj_on_inverseI [of _ "number_of_digits 10"]) (rule number_of_digits_to_string)

lemma to_string_int_inject: "to_string_int i = to_string_int j \<Longrightarrow> i = j"
  using strto_to_string_int [of i] strto_to_string_int [of j]
  by (metis Pair_inject option.inject signed_value_abs)

end
