(* ===== verification/Token_Hash.thy ===== *)
theory Token_Hash
  imports Numeric_Text
begin

unbundle bit_operations_syntax

section \<open>Key tokens (src/src/node/token\_hash.h, Topology::hash\_key of client.cpp)\<close>

text \<open>
  The 64-bit FNV-1a hash that decides which node owns a key in CROWN, computed by the servers
  and \<open>kv_client\<close> (\<open>crown::token::fnv1a64\<close>) and, by a second copy of the loop, by the
  interactive client (\<open>Topology::hash_key\<close>); the token parser and the ring-interval test.
  A string is the list of its bytes. Lemmas: the two copies agree, one changed byte always
  changes the token, tokens printed in decimal parse back, and the interval test is the
  unsigned-distance test.
\<close>

definition kOffsetBasis :: u64 where "kOffsetBasis = 14695981039346656037"
definition kPrime :: u64 where "kPrime = 1099511628211"

definition fnv_step :: "u64 \<Rightarrow> char \<Rightarrow> u64" where
  "fnv_step hash c = (hash XOR of_char c) * kPrime"

definition fnv1a64 :: "string \<Rightarrow> u64" where
  "fnv1a64 key = foldl fnv_step kOffsetBasis key"

text \<open>
  \<open>Topology::hash_key\<close> writes the loop a second time, with its own constants.
\<close>

fun hash_key_loop :: "u64 \<Rightarrow> string \<Rightarrow> u64" where
  "hash_key_loop h [] = h"
| "hash_key_loop h (c # cs) =
     (let h = h XOR of_char c; h = h * 1099511628211 in hash_key_loop h cs)"

definition hash_key :: "string \<Rightarrow> u64" where
  "hash_key key = hash_key_loop 14695981039346656037 key"

text \<open>
  \<open>parse_token\<close>: \<open>None\<close> stands for \<open>return false\<close> (also from the catch-all handler),
  \<open>Some t\<close> for \<open>true\<close> with \<open>out = t\<close>.
\<close>

definition token_base :: "string \<Rightarrow> nat" where
  "token_base text =
     (if length text > 2 \<and> text ! 0 = CHR ''0'' \<and> (text ! 1 = CHR ''x'' \<or> text ! 1 = CHR ''X'')
      then 16 else 10)"

definition parse_token :: "string \<Rightarrow> u64 option" where
  "parse_token text =
     (if text = [] then None
      else case stoull (token_base text) text of
             Inl _ \<Rightarrow> None
           | Inr (parsed, idx) \<Rightarrow> if idx \<noteq> length text then None else Some parsed)"

definition token_in_range :: "u64 \<Rightarrow> u64 \<Rightarrow> u64 \<Rightarrow> bool" where
  "token_in_range token start end =
     (if start \<le> end then token \<ge> start \<and> token \<le> end
      else token \<ge> start \<or> token \<le> end)"

subsection \<open>The two copies of the hash\<close>

lemma hash_key_loop_foldl: "hash_key_loop h key = foldl fnv_step h key"
  by (induction key arbitrary: h) (simp_all add: fnv_step_def kPrime_def Let_def)

lemma hash_key_eq: "hash_key key = fnv1a64 key"
  by (simp add: hash_key_def fnv1a64_def hash_key_loop_foldl kOffsetBasis_def)

subsection \<open>Every round of the hash is a bijection\<close>

text \<open>The prime is odd, so it has an inverse modulo $2^{64}$.\<close>

lemma kPrime_inverse: "kPrime * 14886173955864302971 = 1"
  by (simp add: kPrime_def)

lemma mult_kPrime_cancel: "x * kPrime = y * kPrime \<longleftrightarrow> x = y"
proof
  assume "x * kPrime = y * kPrime"
  then have "x * (kPrime * 14886173955864302971) = y * (kPrime * 14886173955864302971)"
    by (simp only: mult.assoc [symmetric])
  then show "x = y" by (simp only: kPrime_inverse mult_1_right)
qed simp

lemma xor_left_cancel: "(h :: u64) XOR a = h XOR b \<longleftrightarrow> a = b"
proof
  assume "h XOR a = h XOR b"
  then have "(h XOR h) XOR a = (h XOR h) XOR b" by (simp only: xor.assoc)
  then show "a = b" by simp
qed simp

lemma xor_right_cancel: "(a :: u64) XOR h = b XOR h \<longleftrightarrow> a = b"
  by (simp only: xor.commute [of _ h] xor_left_cancel)

lemma fnv_step_state_inject: "fnv_step g c = fnv_step h c \<longleftrightarrow> g = h"
  by (simp add: fnv_step_def mult_kPrime_cancel xor_right_cancel)

lemma of_char_u64_inject: "(of_char c :: u64) = of_char d \<longleftrightarrow> c = d"
proof
  assume eq: "(of_char c :: u64) = of_char d"
  have nat_eq: "unat (of_char e :: u64) = (of_char e :: nat)" for e
  proof -
    have "(of_char e :: nat) mod 256 < 256" by (rule mod_less_divisor) simp
    then have "(of_char e :: nat) < 256" by (simp only: of_char_mod_256)
    then have "(of_char e :: nat) < 2 ^ 64" by (rule order.strict_trans2) simp
    moreover have "(of_char e :: u64) = word_of_nat (of_char e :: nat)"
      by (simp add: of_nat_of_char)
    ultimately show ?thesis by (simp add: unat_of_nat_u64)
  qed
  show "c = d" using arg_cong [OF eq, of unat] by (simp add: nat_eq)
qed simp

lemma fnv_step_byte_inject: "fnv_step h c = fnv_step h d \<longleftrightarrow> c = d"
  by (simp add: fnv_step_def mult_kPrime_cancel xor_left_cancel of_char_u64_inject)

lemma foldl_fnv_inject: "foldl fnv_step g s = foldl fnv_step h s \<longleftrightarrow> g = h"
  by (induction s arbitrary: g h) (simp_all add: fnv_step_state_inject)

lemma fnv1a64_one_byte:
  "fnv1a64 (p @ c # s) = fnv1a64 (p @ d # s) \<longleftrightarrow> c = d"
  by (simp add: fnv1a64_def foldl_fnv_inject fnv_step_byte_inject)

subsection \<open>Tokens in text\<close>

lemma token_base_dec: "token_base (to_string_nat n) = 10"
proof (rule ccontr)
  assume "token_base (to_string_nat n) \<noteq> 10"
  then have "length (to_string_nat n) > 2"
    and "to_string_nat n ! 1 = CHR ''x'' \<or> to_string_nat n ! 1 = CHR ''X''"
    by (auto simp: token_base_def split: if_splits)
  moreover from this(1) have "is_digit 10 (to_string_nat n ! 1)"
    by (intro to_string_nat_digits [of _ n] nth_mem) simp
  ultimately show False by (auto simp: is_digit_def digit_value_def)
qed

lemma parse_token_to_string: "n < 2 ^ 64 \<Longrightarrow> parse_token (to_string_nat n) = Some (word_of_nat n)"
  by (simp add: parse_token_def token_base_dec stoull_to_string)

subsection \<open>Ring intervals\<close>

lemma unat_lt_2_64: "unat (w :: u64) < 2 ^ 64"
  using unat_u64_less [of w] by simp

lemma unat_minus_u64:
  "unat (a - b :: u64) = (if unat b \<le> unat a then unat a - unat b else unat a + 2 ^ 64 - unat b)"
  using unat_sub_if_size [of a b] by (simp only: word_size) simp

lemma nat_range_distance:
  fixes t s e m :: nat
  assumes "t < m" "s < m" "e < m"
  shows "(if s \<le> t then t - s else t + m - s) \<le> (if s \<le> e then e - s else e + m - s)
    \<longleftrightarrow> (if s \<le> e then s \<le> t \<and> t \<le> e else s \<le> t \<or> t \<le> e)"
  using assms by (auto split: if_splits)

lemma token_in_range_distance: "token_in_range t s e \<longleftrightarrow> t - s \<le> e - s"
  using nat_range_distance [OF unat_lt_2_64 unat_lt_2_64 unat_lt_2_64, of s t e]
  by (simp only: token_in_range_def word_le_nat_alt unat_minus_u64)

end
