(* ===== verification/Node.thy ===== *)
theory Node
  imports Token_Hash
begin

section \<open>Node identity and topology (src/src/node/node.h, node.cpp)\<close>

text \<open>
  The configuration a node holds and the accessors of class \<open>Node\<close>, with the CROWN role
  functions \<open>is_head_for\<close> and \<open>is_tail_for\<close>. A \<open>std::optional\<close> is an \<open>option\<close>, the C++
  \<open>int\<close> fields are \<open>int\<close> (the lemma \<open>crown_tail_index_fits\<close> bounds the one sum the code
  forms from them). Lemmas: for every key of a ring of n nodes exactly one index is the head
  and exactly one is the tail, and the tail is the node just before the head.
\<close>

datatype ReplicationMode = CHAIN | CRAQ | CROWN

text \<open>The three modes in a list, so that sums and tests over all of them compute.\<close>

instantiation ReplicationMode :: enum
begin

definition "enum_class.enum = [CHAIN, CRAQ, CROWN]"
definition "enum_class.enum_all P \<longleftrightarrow> P CHAIN \<and> P CRAQ \<and> P CROWN"
definition "enum_class.enum_ex P \<longleftrightarrow> P CHAIN \<or> P CRAQ \<or> P CROWN"

instance
proof
  have all: "UNIV = {CHAIN, CRAQ, CROWN}" using ReplicationMode.exhaust by auto
  then show "UNIV = set (enum_class.enum :: ReplicationMode list)"
    by (simp add: enum_ReplicationMode_def)
  show "distinct (enum_class.enum :: ReplicationMode list)" by (simp add: enum_ReplicationMode_def)
  show "enum_class.enum_all P \<longleftrightarrow> Ball UNIV P" "enum_class.enum_ex P \<longleftrightarrow> Bex UNIV P"
    for P :: "ReplicationMode \<Rightarrow> bool"
    by (simp_all add: all enum_all_ReplicationMode_def enum_ex_ReplicationMode_def)
qed

end

record NodeAddress =
  host :: string
  port :: int

definition addr_empty :: "NodeAddress \<Rightarrow> bool" where
  "addr_empty a \<longleftrightarrow> host a = []"

definition addr_to_string :: "NodeAddress \<Rightarrow> string" where
  "addr_to_string a = host a @ '':'' @ to_string_int (port a)"

record NodeConfig =
  node_id :: string
  node_index :: int
  self_addr :: NodeAddress
  mode :: ReplicationMode
  predecessor :: "NodeAddress option"
  successor :: "NodeAddress option"
  is_head :: bool
  is_tail :: bool
  crown_node_count :: int
  tail_addr :: "NodeAddress option"

text \<open>\<open>NodeConfig{}\<close>: the member initialisers of the struct.\<close>

definition NodeConfig_default :: NodeConfig where
  "NodeConfig_default =
     \<lparr>node_id = [], node_index = -1, self_addr = \<lparr>host = [], port = 0\<rparr>, mode = CHAIN,
      predecessor = None, successor = None, is_head = False, is_tail = False,
      crown_node_count = 0, tail_addr = None\<rparr>"

record Node =
  config :: NodeConfig

definition update_config :: "NodeConfig \<Rightarrow> Node \<Rightarrow> Node" where
  "update_config new_config node = node\<lparr>config := new_config\<rparr>"

definition Node_id :: "Node \<Rightarrow> string" where
  "Node_id node = node_id (config node)"

definition Node_index :: "Node \<Rightarrow> int" where
  "Node_index node = node_index (config node)"

definition Node_mode :: "Node \<Rightarrow> ReplicationMode" where
  "Node_mode node = mode (config node)"

definition Node_is_head :: "Node \<Rightarrow> bool" where
  "Node_is_head node = is_head (config node)"

definition Node_is_tail :: "Node \<Rightarrow> bool" where
  "Node_is_tail node = is_tail (config node)"

definition Node_predecessor :: "Node \<Rightarrow> NodeAddress option" where
  "Node_predecessor node = predecessor (config node)"

definition Node_successor :: "Node \<Rightarrow> NodeAddress option" where
  "Node_successor node = successor (config node)"

lemmas Node_accessors =
  Node_id_def Node_index_def Node_mode_def Node_is_head_def Node_is_tail_def
  Node_predecessor_def Node_successor_def

subsection \<open>Roles\<close>

text \<open>\<open>token % static_cast<uint64_t>(crown_node_count)\<close>, cast back to \<open>int\<close>.\<close>

definition crown_head_index :: "int \<Rightarrow> string \<Rightarrow> int" where
  "crown_head_index count key = int (unat (fnv1a64 key mod word_of_int count))"

definition Node_is_head_for :: "Node \<Rightarrow> string \<Rightarrow> bool" where
  "Node_is_head_for node key =
     (if mode (config node) \<noteq> CROWN then is_head (config node)
      else if crown_node_count (config node) \<le> 0 \<or> node_index (config node) < 0 \<or>
              node_index (config node) \<ge> crown_node_count (config node)
      then False
      else node_index (config node) = crown_head_index (crown_node_count (config node)) key)"

definition Node_is_tail_for :: "Node \<Rightarrow> string \<Rightarrow> bool" where
  "Node_is_tail_for node key =
     (if mode (config node) \<noteq> CROWN then is_tail (config node)
      else if crown_node_count (config node) \<le> 0 \<or> node_index (config node) < 0 \<or>
              node_index (config node) \<ge> crown_node_count (config node)
      then False
      else (let head_index = crown_head_index (crown_node_count (config node)) key;
                tail_index = (head_index + crown_node_count (config node) - 1)
                               mod crown_node_count (config node)
            in node_index (config node) = tail_index))"

subsection \<open>The head index of a key\<close>

lemma unat_word_of_int_u64: "0 \<le> n \<Longrightarrow> n \<le> int_max \<Longrightarrow> unat (word_of_int n :: u64) = nat n"
proof -
  assume "0 \<le> n" "n \<le> int_max"
  then have "nat n < 2 ^ 64" by (simp add: int_max_def)
  moreover have "(word_of_int n :: u64) = word_of_nat (nat n)"
    using \<open>0 \<le> n\<close> by simp
  ultimately show ?thesis by (simp only: unat_of_nat_u64)
qed

lemma crown_head_index_mod:
  "0 < n \<Longrightarrow> n \<le> int_max \<Longrightarrow> crown_head_index n key = int (unat (fnv1a64 key)) mod n"
  by (simp add: crown_head_index_def unat_mod unat_word_of_int_u64 zmod_int)

lemma crown_head_index_range:
  "0 < n \<Longrightarrow> n \<le> int_max \<Longrightarrow> 0 \<le> crown_head_index n key \<and> crown_head_index n key < n"
  by (simp add: crown_head_index_mod)

text \<open>The sum the code forms before taking the remainder stays inside \<open>int\<close>.\<close>

lemma crown_tail_index_fits:
  "0 < n \<Longrightarrow> n \<le> 2 ^ 30 \<Longrightarrow>
    fits_int (crown_head_index n key + n) \<and> fits_int (crown_head_index n key + n - 1)"
  using crown_head_index_range [of n key] by (simp add: int_range_defs)

subsection \<open>Ring arithmetic\<close>

lemma ring_pred_succ:
  fixes h i n :: int
  assumes "0 < n" "0 \<le> h" "h < n" "0 \<le> i" "i < n"
  shows "i = (h + n - 1) mod n \<longleftrightarrow> h = (i + 1) mod n"
proof -
  have "(h + n - 1) mod n = (if h = 0 then n - 1 else h - 1)"
  proof (cases "h = 0")
    case True
    then have "h + n - 1 = n - 1" by simp
    with True assms show ?thesis by (simp only: mod_pos_pos_trivial) simp
  next
    case False
    have "(h + n - 1) mod n = (h - 1 + n) mod n" by (simp add: algebra_simps)
    also have "\<dots> = h - 1" using assms False by simp
    finally show ?thesis using False by simp
  qed
  moreover have "(i + 1) mod n = (if i = n - 1 then 0 else i + 1)"
    using assms by (cases "i = n - 1") simp_all
  ultimately show ?thesis using assms by auto
qed

lemma Node_is_head_for_crown:
  assumes "mode (config node) = CROWN" "crown_node_count (config node) = n" "0 < n"
    "node_index (config node) = i" "0 \<le> i" "i < n"
  shows "Node_is_head_for node key \<longleftrightarrow> i = crown_head_index n key"
  using assms by (simp add: Node_is_head_for_def)

lemma Node_is_tail_for_crown:
  assumes "mode (config node) = CROWN" "crown_node_count (config node) = n" "0 < n" "n \<le> int_max"
    "node_index (config node) = i" "0 \<le> i" "i < n"
  shows "Node_is_tail_for node key \<longleftrightarrow> (i + 1) mod n = crown_head_index n key"
proof -
  have h: "0 \<le> crown_head_index n key" "crown_head_index n key < n"
    using crown_head_index_range [of n key] assms(3,4) by simp_all
  have "Node_is_tail_for node key \<longleftrightarrow> i = (crown_head_index n key + n - 1) mod n"
    using assms by (simp add: Node_is_tail_for_def Let_def del: mod_add_self2)
  also have "\<dots> \<longleftrightarrow> (i + 1) mod n = crown_head_index n key"
    using ring_pred_succ [OF assms(3) h assms(6,7)] by (simp only: eq_commute)
  finally show ?thesis .
qed

end
