(* ===== verification/Messages.thy ===== *)
theory Messages
  imports Node
begin

section \<open>Messages and RPC status (src/proto/chain.proto)\<close>

text \<open>
  The protobuf messages the service exchanges, field by field, and the part of
  \<open>grpc::Status\<close> the program reads. The transport itself (gRPC) is not modelled here: a
  stub is the target address its channel was created for, and the outcome of a call is an
  argument of the definitions that make one. A proto3 enum is open: \<open>PB_unknown\<close> is a mode
  number without a name.
\<close>

type_synonym stub = string

record WriteRequest =
  wreq_key :: string
  wreq_value :: string
  wreq_version :: u64
  wreq_client_addr :: string
  wreq_request_id :: u64

record WriteResponse =
  wresp_success :: bool
  wresp_version :: u64

record ReadRequest =
  rreq_key :: string

record ReadResponse =
  rresp_key :: string
  rresp_value :: string
  rresp_version :: u64

record PropagateRequest =
  prop_key :: string
  prop_value :: string
  prop_version :: u64
  prop_origin_id :: string
  prop_client_addr :: string
  prop_request_id :: u64

record AckRequest =
  ack_key :: string
  ack_version :: u64
  ack_client_addr :: string
  ack_request_id :: u64

record VersionQueryRequest =
  vq_key :: string

record VersionQueryResponse =
  vqr_key :: string
  vqr_latest_version :: u64

datatype pb_ReplicationMode = PB_CHAIN | PB_CRAQ | PB_CROWN | PB_unknown int

record pb_NodeAddress =
  pb_host :: string
  pb_port :: int

record KeyRange =
  start_key :: string
  end_key :: string

record pb_NodeConfig =
  pb_node_id :: int
  pb_self_addr :: pb_NodeAddress
  pb_mode :: pb_ReplicationMode
  pb_is_head :: bool
  pb_is_tail :: bool
  pb_predecessor :: "pb_NodeAddress option"
  pb_successor :: "pb_NodeAddress option"
  pb_tail :: "pb_NodeAddress option"
  pb_head_ranges :: "KeyRange list"
  pb_tail_ranges :: "KeyRange list"

datatype StatusCode = OK | FAILED_PRECONDITION | INTERNAL | UNIMPLEMENTED | UNAVAILABLE

record Status =
  code :: StatusCode
  error_message :: string

definition Status_OK :: Status where
  "Status_OK = \<lparr>code = OK, error_message = []\<rparr>"

definition Status_ok :: "Status \<Rightarrow> bool" where
  "Status_ok s \<longleftrightarrow> code s = OK"

lemma Status_ok_OK [simp]: "Status_ok Status_OK"
  by (simp add: Status_ok_def Status_OK_def)

end
