(* ===== verification/Replica_Store.thy ===== *)
theory Replica_Store
  imports Version_Store "HOL-Library.Multiset"
begin

section \<open>The storage contract the strategies rely on\<close>

text \<open>
  What the handlers of CHAIN, CRAQ and CROWN need from
  \<open>ChainStyleReplicationSupport\<close>, as the locale \<open>replica_store\<close>: receiving a write
  raises the newest seen version, delivering it at the tail also raises the committed one,
  other keys stay as they are, and a value is never stored under a version it was not issued
  with. The locale is interpreted on both storage disciplines of the code. Inside it the
  outcome of any sequence of deliveries is computed once: the highest version wins, in
  whatever order the deliveries arrive.
\<close>

subsection \<open>Well-formed key states\<close>

definition wf_key :: "KeyState \<Rightarrow> bool" where
  "wf_key s \<longleftrightarrow>
     committed_version s \<le> latest_seen_version s \<and>
     latest_seen_version s \<le> next_version s \<and>
     (\<forall>v x. pending_versions s v = Some x \<longrightarrow> v \<le> latest_seen_version s)"

definition wf_store :: "store \<Rightarrow> bool" where
  "wf_store m \<longleftrightarrow> (\<forall>key. wf_key (key_state m key))"

lemma wf_key_default [simp]: "wf_key KeyState_default"
  by (simp add: wf_key_def KeyState_default_def)

lemma wf_store_empty [simp]: "wf_store Map.empty"
  by (simp add: wf_store_def)

lemma wf_storeD: "wf_store m \<Longrightarrow> wf_key (key_state m key)"
  by (simp add: wf_store_def)

lemma wf_key_assign:
  "wf_key s \<Longrightarrow> next_version s \<noteq> -1 \<Longrightarrow> wf_key (s\<lparr>next_version := next_version s + 1\<rparr>)"
  using inc_u64_less [of "next_version s"] by (auto simp: wf_key_def)

text \<open>Each operation keeps every key well-formed, its own and the others.\<close>

lemma wf_key_ops:
  assumes "wf_key (key_state m k)"
  shows "next_version (key_state m key) \<noteq> -1 \<Longrightarrow> wf_key (key_state (snd (assign_next_version key m)) k)"
    and "wf_key (key_state (record_local_write key value version m) k)"
    and "wf_key (key_state (record_local_write_if_newer key value version m) k)"
    and "wf_key (key_state (mark_version_committed_if_newer key value version m) k)"
    and "wf_key (key_state (mark_version_clean key version m) k)"
proof -
  show "next_version (key_state m key) \<noteq> -1 \<Longrightarrow> wf_key (key_state (snd (assign_next_version key m)) k)"
    using assms by (cases "k = key") (simp_all add: wf_key_assign key_state_other_key)
  show "wf_key (key_state (record_local_write key value version m) k)"
    using assms by (cases "k = key") (auto simp: key_state_other_key wf_key_def key_state_record max_def)
  show "wf_key (key_state (record_local_write_if_newer key value version m) k)"
    using assms by (cases "k = key") (auto simp: key_state_other_key wf_key_def key_state_record_newer max_def)
  show "wf_key (key_state (mark_version_committed_if_newer key value version m) k)"
    using assms by (cases "k = key") (auto simp: key_state_other_key wf_key_def key_state_committed_newer max_def)
  show "wf_key (key_state (mark_version_clean key version m) k)"
    using assms by (cases "k = key") (auto simp: key_state_other_key wf_key_def key_state_clean max_def)
qed

lemma wf_store_assign:
  "wf_store m \<Longrightarrow> next_version (key_state m key) \<noteq> -1 \<Longrightarrow> wf_store (snd (assign_next_version key m))"
  by (simp add: wf_store_def wf_key_ops)

lemma wf_store_record: "wf_store m \<Longrightarrow> wf_store (record_local_write key value version m)"
  by (simp add: wf_store_def wf_key_ops)

lemma wf_store_record_newer: "wf_store m \<Longrightarrow> wf_store (record_local_write_if_newer key value version m)"
  by (simp add: wf_store_def wf_key_ops)

lemma wf_store_committed_newer: "wf_store m \<Longrightarrow> wf_store (mark_version_committed_if_newer key value version m)"
  by (simp add: wf_store_def wf_key_ops)

lemma wf_store_clean: "wf_store m \<Longrightarrow> wf_store (mark_version_clean key version m)"
  by (simp add: wf_store_def wf_key_ops)

lemmas wf_store_ops = wf_store_assign wf_store_record wf_store_record_newer
  wf_store_committed_newer wf_store_clean

subsection \<open>Values agree with the versions they were issued under\<close>

text \<open>\<open>issued\<close> maps each version of one key to the value the head gave it.\<close>

definition agrees :: "(u64 \<rightharpoonup> string) \<Rightarrow> KeyState \<Rightarrow> bool" where
  "agrees issued s \<longleftrightarrow>
     (latest_seen_version s \<noteq> 0 \<longrightarrow>
        issued (latest_seen_version s) = Some (latest_seen_value s)) \<and>
     (committed_version s \<noteq> 0 \<longrightarrow>
        issued (committed_version s) = Some (committed_value s)) \<and>
     (\<forall>v x. pending_versions s v = Some x \<longrightarrow> issued v = Some x)"

lemma agrees_default [simp]: "agrees issued KeyState_default"
  by (simp add: agrees_def KeyState_default_def)

lemma agrees_mono:
  "agrees issued s \<Longrightarrow> (\<And>v x. issued v = Some x \<Longrightarrow> issued' v = Some x) \<Longrightarrow> agrees issued' s"
  by (simp add: agrees_def)

lemma agrees_readD:
  assumes "agrees issued (key_state m key)"
  shows "found (read_clean key m) \<Longrightarrow>
      issued (val_version (read_clean key m)) = Some (val_text (read_clean key m))"
    and "found (read_latest_seen key m) \<Longrightarrow>
      issued (val_version (read_latest_seen key m)) = Some (val_text (read_latest_seen key m))"
    and "read_value_at_version key v m = Some x \<Longrightarrow> issued v = Some x"
  using assms
  by (auto simp: store_reads agrees_def split: if_splits)

subsection \<open>A version a node holds stays there until a newer one is clean\<close>

lemma mark_version_clean_committed_mono:
  "committed_version (key_state m key) \<le> committed_version (key_state (mark_version_clean key v m) key)"
  by (simp add: key_state_clean)

definition held :: "u64 \<Rightarrow> KeyState \<Rightarrow> bool" where
  "held v ks \<longleftrightarrow> v \<le> committed_version ks \<or> pending_versions ks v \<noteq> None"

lemma held_record: "held v (key_state m k) \<Longrightarrow> held v (key_state (record_local_write key x w m) k)"
proof (cases "k = key")
  case False
  then have "key_state (record_local_write key x w m) k = key_state m k"
    by (simp add: key_state_def frame_simps)
  then show "held v (key_state m k) \<Longrightarrow> held v (key_state (record_local_write key x w m) k)" by simp
qed (auto simp: held_def key_state_record)

lemma held_clean: "held v (key_state m k) \<Longrightarrow> held v (key_state (mark_version_clean key w m) k)"
proof (cases "k = key")
  case True
  moreover assume "held v (key_state m k)"
  ultimately show ?thesis
    using mark_version_clean_committed_mono [of m key w]
    by (auto simp: held_def key_state_clean not_le le_max_iff_disj word_neq_0_conv split: if_splits)
qed (simp add: key_state_other_key)

lemma held_record_newer: "held v (key_state m k) \<Longrightarrow> held v (key_state (record_local_write_if_newer key x w m) k)"
  by (cases "k = key") (auto simp: held_def key_state_record_newer key_state_other_key)

lemma held_committed_newer:
  "held v (key_state m k) \<Longrightarrow> held v (key_state (mark_version_committed_if_newer key x w m) k)"
  by (cases "k = key")
    (auto simp: held_def key_state_committed_newer key_state_other_key le_max_iff_disj not_le)

lemma held_assign: "held v (key_state m k) \<Longrightarrow> held v (key_state (snd (assign_next_version key m)) k)"
  by (cases "k = key") (simp_all add: held_def key_state_other_key)

lemmas held_ops = held_clean held_record held_record_newer held_committed_newer held_assign

subsection \<open>The two disciplines: what the tail does with a delivered write\<close>

text \<open>
  CHAIN and CROWN: \<open>record_local_write_if_newer\<close> then \<open>mark_version_committed_if_newer\<close>;
  CRAQ: \<open>record_local_write\<close> then \<open>mark_version_clean\<close>.
\<close>

definition deliver_newest :: "string \<Rightarrow> string \<Rightarrow> u64 \<Rightarrow> store \<Rightarrow> store" where
  "deliver_newest key value version m =
     mark_version_committed_if_newer key value version
       (record_local_write_if_newer key value version m)"

definition deliver_versioned :: "string \<Rightarrow> string \<Rightarrow> u64 \<Rightarrow> store \<Rightarrow> store" where
  "deliver_versioned key value version m =
     mark_version_clean key version (record_local_write key value version m)"

locale replica_store =
  fixes receive :: "string \<Rightarrow> string \<Rightarrow> u64 \<Rightarrow> store \<Rightarrow> store"
    and deliver :: "string \<Rightarrow> string \<Rightarrow> u64 \<Rightarrow> store \<Rightarrow> store"
  assumes receive_other: "k \<noteq> key \<Longrightarrow> receive key x v m k = m k"
    and deliver_other: "k \<noteq> key \<Longrightarrow> deliver key x v m k = m k"
    and receive_next: "next_version (key_state (receive key x v m) key)
      = max (next_version (key_state m key)) v"
    and deliver_next: "next_version (key_state (deliver key x v m) key)
      = max (next_version (key_state m key)) v"
    and receive_seen: "latest_seen_version (key_state (receive key x v m) key)
      = max (latest_seen_version (key_state m key)) v"
    and deliver_seen: "latest_seen_version (key_state (deliver key x v m) key)
      = max (latest_seen_version (key_state m key)) v"
    and receive_committed: "committed_version (key_state (receive key x v m) key)
      = committed_version (key_state m key)"
    and deliver_committed: "committed_version (key_state (deliver key x v m) key)
      = max (committed_version (key_state m key)) v"
    and receive_agrees: "agrees issued (key_state m key) \<Longrightarrow> issued v = Some x \<Longrightarrow>
      agrees issued (key_state (receive key x v m) key)"
    and deliver_agrees: "agrees issued (key_state m key) \<Longrightarrow> issued v = Some x \<Longrightarrow>
      agrees issued (key_state (deliver key x v m) key)"
    and receive_wf: "wf_store m \<Longrightarrow> wf_store (receive key x v m)"
    and deliver_wf: "wf_store m \<Longrightarrow> wf_store (deliver key x v m)"

context replica_store
begin

lemma receive_key_state_other: "k \<noteq> key \<Longrightarrow> key_state (receive key x v m) k = key_state m k"
  by (simp add: key_state_def receive_other)

lemma deliver_key_state_other: "k \<noteq> key \<Longrightarrow> key_state (deliver key x v m) k = key_state m k"
  by (simp add: key_state_def deliver_other)

lemma deliver_all_other:
  "k \<noteq> key \<Longrightarrow> fold (\<lambda>(v, x). deliver key x v) ws m k = m k"
  by (induction ws arbitrary: m) (auto simp: deliver_other)

lemma deliver_all_committed:
  "committed_version (key_state (fold (\<lambda>(v, x). deliver key x v) ws m) key)
    = fold max (map fst ws) (committed_version (key_state m key))"
  by (induction ws arbitrary: m) (auto simp: deliver_committed max.commute)

lemma deliver_all_agrees:
  assumes "agrees issued (key_state m key)" "\<forall>(v, x) \<in> set ws. issued v = Some x"
  shows "agrees issued (key_state (fold (\<lambda>(v, x). deliver key x v) ws m) key)"
  using assms by (induction ws arbitrary: m) (auto intro: deliver_agrees)

lemma deliver_all_wf: "wf_store m \<Longrightarrow> wf_store (fold (\<lambda>(v, x). deliver key x v) ws m)"
  by (induction ws arbitrary: m) (auto intro: deliver_wf)

text \<open>The highest version delivered is the one read, with the value it was issued with.\<close>

lemma deliver_all_read:
  assumes "\<forall>(v, x) \<in> set ws. issued v = Some x \<and> v \<noteq> 0" and "ws \<noteq> []"
  shows "read_clean key (fold (\<lambda>(v, x). deliver key x v) ws Map.empty)
    = \<lparr>found = True, val_text = the (issued (Max (fst ` set ws))),
       val_version = Max (fst ` set ws)\<rparr>"
proof -
  let ?m = "fold (\<lambda>(v, x). deliver key x v) ws Map.empty"
  have "fold max (map fst ws) 0 = Max (insert 0 (fst ` set ws))"
    using Max.set_eq_fold [of "0 :: u64" "map fst ws"] by simp
  also have "\<dots> = Max (fst ` set ws)"
    using assms(2) by (simp add: max_absorb2)
  finally have c: "committed_version (key_state ?m key) = Max (fst ` set ws)"
    by (simp add: deliver_all_committed KeyState_default_def)
  have "Max (fst ` set ws) \<in> fst ` set ws" using assms(2) by (intro Max_in) auto
  then have nz: "Max (fst ` set ws) \<noteq> 0" using assms(1) by auto
  have "agrees issued (key_state ?m key)"
    using assms(1) by (intro deliver_all_agrees) auto
  with c nz show ?thesis by (simp add: read_clean_cases agrees_def)
qed

lemma deliver_order_irrelevant:
  assumes "\<forall>(v, x) \<in> set ws. issued v = Some x \<and> v \<noteq> 0" and "set ws = set ws'"
  shows "read_clean key (fold (\<lambda>(v, x). deliver key x v) ws Map.empty)
    = read_clean key (fold (\<lambda>(v, x). deliver key x v) ws' Map.empty)"
proof (cases "ws = []")
  case False
  then have "ws' \<noteq> []" using assms(2) by auto
  from deliver_all_read [OF assms(1) False] deliver_all_read [OF assms(1) [unfolded assms(2)] this]
  show ?thesis by (simp add: assms(2))
qed (use assms(2) in simp)

end

interpretation newest: replica_store record_local_write_if_newer deliver_newest
proof unfold_locales
  fix issued :: "u64 \<rightharpoonup> string" and key x :: string and v :: u64 and m :: store
  assume "agrees issued (key_state m key)" "issued v = Some x"
  then show "agrees issued (key_state (record_local_write_if_newer key x v m) key)"
    and "agrees issued (key_state (deliver_newest key x v m) key)"
    by (auto simp: agrees_def deliver_newest_def key_state_record_newer
        key_state_committed_newer max_def)
qed (auto simp: deliver_newest_def frame_simps key_state_record_newer key_state_committed_newer
    intro: wf_store_ops)

interpretation versioned: replica_store record_local_write deliver_versioned
proof unfold_locales
  fix issued :: "u64 \<rightharpoonup> string" and key x :: string and v :: u64 and m :: store
  assume *: "agrees issued (key_state m key)" "issued v = Some x"
  then show r: "agrees issued (key_state (record_local_write key x v m) key)"
    by (auto simp: agrees_def key_state_record max_def)
  from * show "agrees issued (key_state (deliver_versioned key x v m) key)"
    by (auto simp: agrees_def deliver_versioned_def key_state_record key_state_clean
        max_def)
qed (auto simp: deliver_versioned_def frame_simps key_state_record key_state_clean
    intro: wf_store_ops)

end
