(* ===== verification/Dispatcher.thy ===== *)
theory Dispatcher
  imports Messages "HOL-Library.Multiset"
begin

section \<open>The asynchronous propagate queue (class PropagateDispatcher)\<close>

text \<open>
  Each strategy file (chain\_replication.cpp, craq\_replication.cpp, crown\_replication.cpp)
  declares the same class in its anonymous namespace: a queue of propagate tasks and a pool
  of worker threads that take tasks from its front and make the RPC. The state is the queue,
  the stop flag and where each worker stands in \<open>worker_loop\<close>; the steps of the threads are
  the relation \<open>disp_step\<close>, labelled with what happened. The mutex makes each step atomic;
  the RPC is made outside it, so several workers may be in a call at once.

  Lemmas: tasks leave the queue in the order they entered, none is lost or duplicated, and
  after \<open>stop_\<close> the workers drain the queue and return.
\<close>

record PropagateTask =
  task_successor :: stub
  task_req :: PropagateRequest
  task_from :: string

datatype Worker = Waiting | Calling PropagateTask | Returned

record PropagateDispatcher =
  queue :: "PropagateTask list"
  workers :: "Worker list"
  stop :: bool

definition worker_count :: "nat \<Rightarrow> nat" where
  "worker_count hardware_concurrency =
     min (if hardware_concurrency = 0 then 4 else hardware_concurrency) 8"

definition dispatcher_init :: "nat \<Rightarrow> PropagateDispatcher" where
  "dispatcher_init hardware_concurrency =
     \<lparr>queue = [], workers = replicate (worker_count hardware_concurrency) Waiting, stop = False\<rparr>"

definition enqueue ::
    "stub option \<Rightarrow> PropagateRequest \<Rightarrow> string \<Rightarrow> PropagateDispatcher \<Rightarrow> PropagateDispatcher" where
  "enqueue succ req from_node d =
     (case succ of
        None \<Rightarrow> d
      | Some s \<Rightarrow>
          d\<lparr>queue := queue d @ [\<lparr>task_successor = s, task_req = req, task_from = from_node\<rparr>]\<rparr>)"

subsection \<open>The worker threads\<close>

datatype disp_label =
    Enqueue PropagateTask
  | Take PropagateTask
  | Complete PropagateTask
  | Request_stop
  | Return_worker

inductive disp_step ::
    "PropagateDispatcher \<Rightarrow> disp_label \<Rightarrow> PropagateDispatcher \<Rightarrow> bool" where
  enqueue_task:
    "disp_step d (Enqueue t) (enqueue (Some (task_successor t)) (task_req t) (task_from t) d)"
| take_task:
    "i < length (workers d) \<Longrightarrow> workers d ! i = Waiting \<Longrightarrow> queue d = t # ts \<Longrightarrow>
     disp_step d (Take t) (d\<lparr>queue := ts, workers := (workers d)[i := Calling t]\<rparr>)"
| complete_call:
    "i < length (workers d) \<Longrightarrow> workers d ! i = Calling t \<Longrightarrow>
     disp_step d (Complete t) (d\<lparr>workers := (workers d)[i := Waiting]\<rparr>)"
| destructor_stop:
    "disp_step d Request_stop (d\<lparr>stop := True\<rparr>)"
| worker_return:
    "i < length (workers d) \<Longrightarrow> workers d ! i = Waiting \<Longrightarrow> stop d \<Longrightarrow> queue d = [] \<Longrightarrow>
     disp_step d Return_worker (d\<lparr>workers := (workers d)[i := Returned]\<rparr>)"

inductive_cases disp_step_EnqueueE: "disp_step d (Enqueue t) d'"
inductive_cases disp_step_TakeE: "disp_step d (Take t) d'"
inductive_cases disp_step_CompleteE: "disp_step d (Complete t) d'"
inductive_cases disp_step_StopE: "disp_step d Request_stop d'"
inductive_cases disp_step_ReturnE: "disp_step d Return_worker d'"

lemmas disp_step_elims = disp_step_EnqueueE disp_step_TakeE disp_step_CompleteE
  disp_step_StopE disp_step_ReturnE

inductive disp_run ::
    "PropagateDispatcher \<Rightarrow> disp_label list \<Rightarrow> PropagateDispatcher \<Rightarrow> bool" where
  run_nil: "disp_run d [] d"
| run_snoc: "disp_run d ls d' \<Longrightarrow> disp_step d' l d'' \<Longrightarrow> disp_run d (ls @ [l]) d''"

subsection \<open>What a run enqueued, took and completed\<close>

fun enqueued1 :: "disp_label \<Rightarrow> PropagateTask list" where
  "enqueued1 (Enqueue t) = [t]"
| "enqueued1 _ = []"

fun taken1 :: "disp_label \<Rightarrow> PropagateTask list" where
  "taken1 (Take t) = [t]"
| "taken1 _ = []"

fun completed1 :: "disp_label \<Rightarrow> PropagateTask list" where
  "completed1 (Complete t) = [t]"
| "completed1 _ = []"

definition enqueued :: "disp_label list \<Rightarrow> PropagateTask list" where
  "enqueued ls = concat (map enqueued1 ls)"
definition taken :: "disp_label list \<Rightarrow> PropagateTask list" where
  "taken ls = concat (map taken1 ls)"
definition completed :: "disp_label list \<Rightarrow> PropagateTask list" where
  "completed ls = concat (map completed1 ls)"

lemmas history_defs = enqueued_def taken_def completed_def

fun calls_of :: "Worker list \<Rightarrow> PropagateTask multiset" where
  "calls_of [] = {#}"
| "calls_of (Calling t # ws) = add_mset t (calls_of ws)"
| "calls_of (_ # ws) = calls_of ws"

lemma calls_of_take:
  "i < length ws \<Longrightarrow> ws ! i = Waiting \<Longrightarrow> calls_of (ws[i := Calling t]) = add_mset t (calls_of ws)"
  by (induction ws arbitrary: i rule: calls_of.induct) (auto simp: less_Suc_eq_0_disj)

lemma calls_of_complete:
  "i < length ws \<Longrightarrow> ws ! i = Calling t \<Longrightarrow> add_mset t (calls_of (ws[i := Waiting])) = calls_of ws"
  by (induction ws arbitrary: i rule: calls_of.induct) (auto simp: less_Suc_eq_0_disj)

lemma calls_of_return:
  "i < length ws \<Longrightarrow> ws ! i = Waiting \<Longrightarrow> calls_of (ws[i := Returned]) = calls_of ws"
  by (induction ws arbitrary: i rule: calls_of.induct) (auto simp: less_Suc_eq_0_disj)

lemma calls_of_Returned: "set ws \<subseteq> {Returned} \<Longrightarrow> calls_of ws = {#}"
  by (induction ws rule: calls_of.induct) auto

lemma calls_of_replicate_Waiting [simp]: "calls_of (replicate n Waiting) = {#}"
  by (induction n) auto

subsection \<open>First in, first out; nothing lost or duplicated\<close>

lemma disp_run_fifo:
  "disp_run d ls d' \<Longrightarrow> queue d = [] \<Longrightarrow> enqueued ls = taken ls @ queue d'"
  by (induction rule: disp_run.induct)
    (auto simp: history_defs enqueue_def elim!: disp_step.cases)

lemma disp_run_conserves:
  "disp_run d ls d' \<Longrightarrow> calls_of (workers d) = {#} \<Longrightarrow>
    mset (taken ls) = calls_of (workers d') + mset (completed ls)"
proof (induction rule: disp_run.induct)
  case (run_snoc d ls d' l d'')
  from run_snoc.hyps(2) show ?case
    using run_snoc.IH [OF run_snoc.prems]
  proof cases
    case (complete_call i t)
    with run_snoc.IH [OF run_snoc.prems] calls_of_complete [of i "workers d'" t, symmetric]
    show ?thesis by (simp add: history_defs)
  qed (auto simp: history_defs enqueue_def calls_of_take calls_of_return)
qed (simp add: history_defs)

lemma disp_step_workers: "disp_step d l d' \<Longrightarrow> length (workers d') = length (workers d)"
  by (auto simp: enqueue_def elim!: disp_step.cases)

lemma disp_run_workers: "disp_run d ls d' \<Longrightarrow> length (workers d') = length (workers d)"
  by (induction rule: disp_run.induct) (auto dest: disp_step_workers)

subsection \<open>Draining after stop\<close>

text \<open>
  Work left to the worker threads: two units for a queued task, two for a call in progress,
  one for a waiting worker. Every step other than an enqueue uses one unit.
\<close>

fun worker_work :: "Worker \<Rightarrow> nat" where
  "worker_work Waiting = 1"
| "worker_work (Calling _) = 2"
| "worker_work Returned = 0"

definition disp_work :: "PropagateDispatcher \<Rightarrow> nat" where
  "disp_work d = 2 * length (queue d) + sum_list (map worker_work (workers d))"

lemma worker_work_update:
  assumes "i < length ws"
  shows "sum_list (map worker_work (ws[i := w])) + worker_work (ws ! i)
    = sum_list (map worker_work ws) + worker_work w"
  using assms by (induction ws arbitrary: i) (auto simp: less_Suc_eq_0_disj)

lemma disp_step_work:
  assumes "disp_step d l d'" "l \<noteq> Request_stop" "\<forall>t. l \<noteq> Enqueue t"
  shows "disp_work d = disp_work d' + 1"
  using assms(1)
proof cases
  case (take_task i t ts)
  then show ?thesis
    using worker_work_update [of i "workers d" "Calling t"] by (simp add: disp_work_def)
next
  case (complete_call i t)
  then show ?thesis
    using worker_work_update [of i "workers d" Waiting] by (simp add: disp_work_def)
next
  case (worker_return i)
  then show ?thesis
    using worker_work_update [of i "workers d" Returned] by (simp add: disp_work_def)
qed (use assms(2,3) in auto)

text \<open>A stopping dispatcher whose workers have not all returned can take a step.\<close>

lemma disp_progress:
  assumes "stop d" "\<not> set (workers d) \<subseteq> {Returned}"
  shows "\<exists>l d'. disp_step d l d' \<and> l \<noteq> Request_stop \<and> (\<forall>t. l \<noteq> Enqueue t)"
proof -
  from assms(2) obtain i where i: "i < length (workers d)" "workers d ! i \<noteq> Returned"
    by (metis in_set_conv_nth singletonI subsetI)
  show ?thesis
  proof (cases "workers d ! i")
    case Waiting
    show ?thesis
    proof (cases "queue d")
      case Nil
      from disp_step.worker_return [OF i(1) Waiting assms(1) Nil] show ?thesis by blast
    next
      case (Cons t ts)
      from disp_step.take_task [OF i(1) Waiting Cons] show ?thesis by blast
    qed
  next
    case (Calling t)
    from disp_step.complete_call [OF i(1) Calling] show ?thesis by blast
  qed (use i in simp)
qed

text \<open>Once a worker has returned the queue stays empty, unless more is enqueued.\<close>

definition drained :: "PropagateDispatcher \<Rightarrow> bool" where
  "drained d \<longleftrightarrow> (Returned \<in> set (workers d) \<longrightarrow> queue d = [])"

lemma disp_step_drained:
  "disp_step d l d' \<Longrightarrow> \<forall>t. l \<noteq> Enqueue t \<Longrightarrow> drained d \<Longrightarrow> drained d'"
  by (auto simp: drained_def elim!: disp_step.cases dest!: set_update_subset_insert [THEN subsetD])

lemma disp_run_drained:
  "disp_run d ls d' \<Longrightarrow> enqueued ls = [] \<Longrightarrow> drained d \<Longrightarrow> drained d'"
proof (induction rule: disp_run.induct)
  case (run_snoc d ls d' l d'')
  have "\<forall>t. l \<noteq> Enqueue t" using run_snoc.prems(1) by (auto simp: history_defs)
  moreover have "drained d'"
    using run_snoc.IH run_snoc.prems by (simp add: history_defs)
  ultimately show ?case using disp_step_drained [OF run_snoc.hyps(2)] by blast
qed

lemma worker_count_bounds: "1 \<le> worker_count hw \<and> worker_count hw \<le> 8"
  by (auto simp: worker_count_def)

end
