(* ===== verification/Support.thy ===== *)
theory Support
  imports Replica_Store Dispatcher
begin

section \<open>Stubs, client acks and the predecessor-ack queue\<close>

text \<open>
  The rest of \<open>ChainStyleReplicationSupport\<close>
  (src/src/replication/common/chain\_style\_replication\_support.cpp): the stubs to the
  neighbours, rebuilt at every configuration change; the cache of stubs to clients; the
  queue of acks for the predecessor and the thread that empties it. The outcome of an RPC is
  given by the record \<open>Rpc\<close>, an argument of every definition that makes a call.

  Lemmas: what \<open>on_config_change\<close> establishes, that the two client caches hold the same
  addresses, and that the ack queue is first-in first-out across restarts of its worker.
\<close>

text \<open>Outcomes of the RPCs a handler makes: the status, and the response of a version query.\<close>

record Rpc =
  ack_call :: "stub \<Rightarrow> AckRequest \<Rightarrow> Status"
  version_query_call :: "stub \<Rightarrow> VersionQueryRequest \<Rightarrow> Status \<times> VersionQueryResponse"

record Support =
  by_key :: store
  predecessor_stub :: "stub option"
  successor_stub :: "stub option"
  tail_stub :: "stub option"
  client_channels :: "string \<rightharpoonup> stub"
  client_stubs :: "string \<rightharpoonup> stub"
  pred_ack_queue :: "AckRequest list"
  pred_ack_worker_running :: bool
  pred_ack_worker_thread :: bool

definition Support_init :: Support where
  "Support_init =
     \<lparr>by_key = Map.empty, predecessor_stub = None, successor_stub = None, tail_stub = None,
      client_channels = Map.empty, client_stubs = Map.empty, pred_ack_queue = [],
      pred_ack_worker_running = False, pred_ack_worker_thread = False\<rparr>"

text \<open>
  \<open>on_config_change\<close> resets the three stubs and creates those the configuration names. A
  stub is the target string given to \<open>CreateChannel\<close>.
\<close>

definition support_on_config_change :: "Node \<Rightarrow> Support \<Rightarrow> Support" where
  "support_on_config_change node s =
     (let s = s\<lparr>predecessor_stub := None, successor_stub := None, tail_stub := None\<rparr>;
          s = (case Node_predecessor node of
                 Some a \<Rightarrow> s\<lparr>predecessor_stub := Some (addr_to_string a)\<rparr> | None \<Rightarrow> s);
          s = (case Node_successor node of
                 Some a \<Rightarrow> s\<lparr>successor_stub := Some (addr_to_string a)\<rparr> | None \<Rightarrow> s);
          s = (case tail_addr (config node) of
                 Some a \<Rightarrow> s\<lparr>tail_stub := Some (addr_to_string a)\<rparr> | None \<Rightarrow> s)
      in s)"

definition get_or_create_client_stub :: "string \<Rightarrow> Support \<Rightarrow> stub \<times> Support" where
  "get_or_create_client_stub client_addr s =
     (case client_stubs s client_addr of
        Some cached \<Rightarrow> (cached, s)
      | None \<Rightarrow>
          (let channel = client_addr;
               stub = channel;
               s = s\<lparr>client_channels := (client_channels s)(client_addr \<mapsto> channel)\<rparr>;
               s = s\<lparr>client_stubs := (client_stubs s)(client_addr \<mapsto> stub)\<rparr>
           in (stub, s)))"

text \<open>
  \<open>send_client_ack\<close> also returns the calls it made: the stub and the request of the Ack
  RPC, none when the request names no client.
\<close>

definition send_client_ack :: "Rpc \<Rightarrow> AckRequest \<Rightarrow> Support \<Rightarrow> Support \<times> (stub \<times> AckRequest) list" where
  "send_client_ack rpc req s =
     (if ack_client_addr req = [] then (s, [])
      else (let (stub, s) = get_or_create_client_stub (ack_client_addr req) s;
                status = ack_call rpc stub req
            in if \<not> Status_ok status
               then (s\<lparr>client_stubs := (client_stubs s)(ack_client_addr req := None),
                       client_channels := (client_channels s)(ack_client_addr req := None)\<rparr>,
                     [(stub, req)])
               else (s, [(stub, req)])))"

definition enqueue_predecessor_ack :: "AckRequest \<Rightarrow> Support \<Rightarrow> Support" where
  "enqueue_predecessor_ack req s = s\<lparr>pred_ack_queue := pred_ack_queue s @ [req]\<rparr>"

definition stop_ack_workers :: "Support \<Rightarrow> Support" where
  "stop_ack_workers s =
     (let s = s\<lparr>pred_ack_worker_running := False\<rparr>
      in s\<lparr>pred_ack_worker_thread := False\<rparr>)"

definition start_ack_workers :: "Support \<Rightarrow> Support" where
  "start_ack_workers s =
     (let s = stop_ack_workers s;
          s = s\<lparr>pred_ack_worker_running := True\<rparr>
      in s\<lparr>pred_ack_worker_thread := True\<rparr>)"

text \<open>
  One turn of \<open>predecessor_ack_worker_loop\<close>: leave the loop, wait on the condition
  variable, drop the request for want of a predecessor, or make the Ack RPC.
\<close>

datatype ack_turn = Leave | Wait | Skip AckRequest | Call stub AckRequest

definition ack_worker_turn :: "Support \<Rightarrow> ack_turn \<times> Support" where
  "ack_worker_turn s =
     (if \<not> pred_ack_worker_running s then (Leave, s)
      else case pred_ack_queue s of
             [] \<Rightarrow> (Wait, s)
           | req # rest \<Rightarrow>
               (let s = s\<lparr>pred_ack_queue := rest\<rparr>
                in case predecessor_stub s of
                     None \<Rightarrow> (Skip req, s)
                   | Some pred \<Rightarrow> (Call pred req, s)))"

subsection \<open>Neighbour stubs\<close>

lemma support_on_config_change_stubs:
  "predecessor_stub (support_on_config_change node s)
    = map_option addr_to_string (predecessor (config node))"
  "successor_stub (support_on_config_change node s)
    = map_option addr_to_string (successor (config node))"
  "tail_stub (support_on_config_change node s)
    = map_option addr_to_string (tail_addr (config node))"
  by (simp_all add: support_on_config_change_def Node_accessors Let_def split: option.split)

lemma support_on_config_change_frame [frame_simps]:
  "by_key (support_on_config_change node s) = by_key s"
  "client_stubs (support_on_config_change node s) = client_stubs s"
  "client_channels (support_on_config_change node s) = client_channels s"
  "pred_ack_queue (support_on_config_change node s) = pred_ack_queue s"
  "pred_ack_worker_running (support_on_config_change node s) = pred_ack_worker_running s"
  by (simp_all add: support_on_config_change_def Let_def split: option.split)

subsection \<open>Client stub cache\<close>

text \<open>Both caches hold exactly the same addresses, each stub made for its own address.\<close>

definition wf_client_cache :: "Support \<Rightarrow> bool" where
  "wf_client_cache s \<longleftrightarrow>
     client_channels s = client_stubs s \<and> (\<forall>a b. client_stubs s a = Some b \<longrightarrow> b = a)"

lemma wf_client_cache_init [simp]: "wf_client_cache Support_init"
  by (simp add: wf_client_cache_def Support_init_def)

lemma get_or_create_client_stub_wf:
  assumes "wf_client_cache s"
  shows "fst (get_or_create_client_stub a s) = a"
    and "wf_client_cache (snd (get_or_create_client_stub a s))"
    and "client_stubs (snd (get_or_create_client_stub a s)) a = Some a"
  using assms
  by (auto simp: get_or_create_client_stub_def wf_client_cache_def Let_def split: option.splits)

lemma get_or_create_client_stub_frame [simp]:
  "by_key (snd (get_or_create_client_stub a s)) = by_key s"
  "successor_stub (snd (get_or_create_client_stub a s)) = successor_stub s"
  "pred_ack_queue (snd (get_or_create_client_stub a s)) = pred_ack_queue s"
  by (simp_all add: get_or_create_client_stub_def Let_def split: option.split)

lemma send_client_ack_wf:
  assumes "wf_client_cache s"
  shows "wf_client_cache (fst (send_client_ack rpc req s))"
  using get_or_create_client_stub_wf [OF assms, of "ack_client_addr req"] assms
  by (auto simp: send_client_ack_def wf_client_cache_def Let_def split: prod.splits)

lemma send_client_ack_calls:
  assumes "wf_client_cache s"
  shows "snd (send_client_ack rpc req s)
    = (if ack_client_addr req = [] then [] else [(ack_client_addr req, req)])"
  using get_or_create_client_stub_wf [OF assms, of "ack_client_addr req"]
  by (auto simp: send_client_ack_def Let_def split: prod.splits)

lemma send_client_ack_cached:
  assumes "wf_client_cache s" "ack_client_addr req \<noteq> []"
  shows "client_stubs (fst (send_client_ack rpc req s)) (ack_client_addr req)
    = (if Status_ok (ack_call rpc (ack_client_addr req) req) then Some (ack_client_addr req)
       else None)"
  using get_or_create_client_stub_wf [OF assms(1), of "ack_client_addr req"] assms(2)
  by (auto simp: send_client_ack_def Let_def split: prod.splits)

lemma send_client_ack_frame [frame_simps]:
  "by_key (fst (send_client_ack rpc req s)) = by_key s"
  "predecessor_stub (fst (send_client_ack rpc req s)) = predecessor_stub s"
  "successor_stub (fst (send_client_ack rpc req s)) = successor_stub s"
  "tail_stub (fst (send_client_ack rpc req s)) = tail_stub s"
  "pred_ack_queue (fst (send_client_ack rpc req s)) = pred_ack_queue s"
  "pred_ack_worker_running (fst (send_client_ack rpc req s)) = pred_ack_worker_running s"
  by (auto simp: send_client_ack_def get_or_create_client_stub_def Let_def split: option.splits)

lemma enqueue_predecessor_ack_frame [frame_simps]:
  "by_key (enqueue_predecessor_ack req s) = by_key s"
  "predecessor_stub (enqueue_predecessor_ack req s) = predecessor_stub s"
  "successor_stub (enqueue_predecessor_ack req s) = successor_stub s"
  "tail_stub (enqueue_predecessor_ack req s) = tail_stub s"
  "client_stubs (enqueue_predecessor_ack req s) = client_stubs s"
  "pred_ack_queue (enqueue_predecessor_ack req s) = pred_ack_queue s @ [req]"
  by (simp_all add: enqueue_predecessor_ack_def)

subsection \<open>The predecessor-ack worker\<close>

lemma start_ack_workers_simps:
  "pred_ack_worker_running (start_ack_workers s)"
  "pred_ack_queue (start_ack_workers s) = pred_ack_queue s"
  "by_key (start_ack_workers s) = by_key s"
  "predecessor_stub (start_ack_workers s) = predecessor_stub s"
  "successor_stub (start_ack_workers s) = successor_stub s"
  "tail_stub (start_ack_workers s) = tail_stub s"
  by (simp_all add: start_ack_workers_def stop_ack_workers_def Let_def)

text \<open>The requests a list of turns took from the queue.\<close>

fun turn_taken :: "ack_turn \<Rightarrow> AckRequest list" where
  "turn_taken (Skip r) = [r]"
| "turn_taken (Call _ r) = [r]"
| "turn_taken _ = []"

fun ack_worker_turns :: "nat \<Rightarrow> Support \<Rightarrow> ack_turn list \<times> Support" where
  "ack_worker_turns 0 s = ([], s)"
| "ack_worker_turns (Suc n) s =
     (let (t, s) = ack_worker_turn s; (ts, s) = ack_worker_turns n s in (t # ts, s))"

lemma ack_worker_turn_queue:
  "turn_taken (fst (ack_worker_turn s)) @ pred_ack_queue (snd (ack_worker_turn s)) = pred_ack_queue s"
  by (auto simp: ack_worker_turn_def Let_def split: list.splits option.splits)

lemma ack_worker_turn_same:
  assumes "ack_worker_turn s = (turn, s')"
  shows "by_key s' = by_key s" "predecessor_stub s' = predecessor_stub s"
    "successor_stub s' = successor_stub s" "tail_stub s' = tail_stub s"
    "wf_client_cache s' = wf_client_cache s"
  using assms
  by (auto simp: ack_worker_turn_def wf_client_cache_def Let_def split: if_splits list.splits option.splits)

lemma ack_worker_turns_fifo:
  "concat (map turn_taken (fst (ack_worker_turns n s))) @ pred_ack_queue (snd (ack_worker_turns n s))
    = pred_ack_queue s"
proof (induction n arbitrary: s)
  case (Suc n)
  obtain t s' where t: "ack_worker_turn s = (t, s')" by fastforce
  obtain ts s'' where ts: "ack_worker_turns n s' = (ts, s'')" by fastforce
  from Suc [of s'] ack_worker_turn_queue [of s] show ?case by (simp add: t ts)
qed simp

text \<open>With a running worker, as many turns as there are requests empty the queue.\<close>

lemma ack_worker_turns_drain:
  "pred_ack_worker_running s \<Longrightarrow> length (pred_ack_queue s) \<le> n \<Longrightarrow>
    pred_ack_queue (snd (ack_worker_turns n s)) = []"
proof (induction n arbitrary: s)
  case (Suc n)
  obtain t s' where t: "ack_worker_turn s = (t, s')" by fastforce
  have "pred_ack_worker_running s'" "length (pred_ack_queue s') \<le> n"
    using t Suc.prems
    by (auto simp: ack_worker_turn_def Let_def split: list.splits option.splits)
  from Suc.IH [OF this] show ?case by (simp add: t split_beta)
qed simp

end
