(* ===== verification/Strategy.thy ===== *)
theory Strategy
  imports Support
begin

section \<open>The strategy interface (src/src/replication/replication\_strategy.h)\<close>

text \<open>
  What a concrete strategy works on: its \<open>support_\<close> member, the propagate dispatcher of its
  source file (a function-local static, so one per process) and, as a record of the calls
  made so far, the Ack RPCs to clients. A handler takes this state and returns its result
  with the new state; \<open>handle_read\<close> and \<open>handle_version_query\<close> change nothing.

  The locale \<open>strategy\<close> is the contract of \<open>ReplicationStrategy\<close> that all three strategies
  keep: a rejected write changes nothing, an accepted one gets the next version of its key,
  well-formed stores stay well-formed, other keys are not touched and no committed version
  ever goes back. What follows for any sequence of requests is proved once inside it.
\<close>

record Replica =
  support :: Support
  dispatcher :: PropagateDispatcher
  client_acks :: "(stub \<times> AckRequest) list"

definition upd_store :: "(store \<Rightarrow> store) \<Rightarrow> Replica \<Rightarrow> Replica" where
  "upd_store f r = r\<lparr>support := (support r)\<lparr>by_key := f (by_key (support r))\<rparr>\<rparr>"

abbreviation store_of :: "Replica \<Rightarrow> store" where
  "store_of r \<equiv> by_key (support r)"

abbreviation kstate :: "Replica \<Rightarrow> string \<Rightarrow> KeyState" where
  "kstate r key \<equiv> key_state (by_key (support r)) key"

text \<open>\<open>support_.assign_next_version(key)\<close> on the strategy's state.\<close>

definition take_version :: "string \<Rightarrow> Replica \<Rightarrow> u64 \<times> Replica" where
  "take_version key r =
     (let (version, m) = assign_next_version key (store_of r) in (version, upd_store (\<lambda>_. m) r))"

definition notify_client :: "Rpc \<Rightarrow> AckRequest \<Rightarrow> Replica \<Rightarrow> Replica" where
  "notify_client rpc ack r =
     (let (s, calls) = send_client_ack rpc ack (support r)
      in r\<lparr>support := s, client_acks := client_acks r @ calls\<rparr>)"

definition forward_async :: "stub option \<Rightarrow> PropagateRequest \<Rightarrow> string \<Rightarrow> Replica \<Rightarrow> Replica" where
  "forward_async succ req from_node r =
     r\<lparr>dispatcher := enqueue succ req from_node (dispatcher r)\<rparr>"

definition queue_ack :: "AckRequest \<Rightarrow> Replica \<Rightarrow> Replica" where
  "queue_ack ack r = r\<lparr>support := enqueue_predecessor_ack ack (support r)\<rparr>"

text \<open>The base class: only CRAQ overrides \<open>handle_version_query\<close>.\<close>

definition base_handle_version_query ::
    "Rpc \<Rightarrow> VersionQueryRequest \<Rightarrow> Node \<Rightarrow> Replica \<Rightarrow> cxx_exn + VersionQueryResponse" where
  "base_handle_version_query rpc req node r =
     Inl (Runtime_error ''handle_version_query not implemented for this strategy'')"

text \<open>Every strategy builds the ack of a write from these four fields.\<close>

definition make_ack :: "string \<Rightarrow> u64 \<Rightarrow> string \<Rightarrow> u64 \<Rightarrow> AckRequest" where
  "make_ack key version client_addr request_id =
     \<lparr>ack_key = key, ack_version = version, ack_client_addr = client_addr,
      ack_request_id = request_id\<rparr>"

definition make_propagate :: "WriteRequest \<Rightarrow> u64 \<Rightarrow> string \<Rightarrow> PropagateRequest" where
  "make_propagate req version origin_id =
     \<lparr>prop_key = wreq_key req, prop_value = wreq_value req, prop_version = version,
      prop_origin_id = origin_id, prop_client_addr = wreq_client_addr req,
      prop_request_id = wreq_request_id req\<rparr>"

definition accepted_response :: "u64 \<Rightarrow> WriteResponse" where
  "accepted_response version = \<lparr>wresp_success = True, wresp_version = version\<rparr>"

lemma accepted_response_simps [simp]:
  "wresp_success (accepted_response v)" "wresp_version (accepted_response v) = v"
  by (simp_all add: accepted_response_def)

subsection \<open>What each helper changes\<close>

lemma upd_store_frame [simp]:
  "store_of (upd_store f r) = f (store_of r)"
  "dispatcher (upd_store f r) = dispatcher r"
  "client_acks (upd_store f r) = client_acks r"
  "successor_stub (support (upd_store f r)) = successor_stub (support r)"
  "predecessor_stub (support (upd_store f r)) = predecessor_stub (support r)"
  "tail_stub (support (upd_store f r)) = tail_stub (support r)"
  "pred_ack_queue (support (upd_store f r)) = pred_ack_queue (support r)"
  "client_stubs (support (upd_store f r)) = client_stubs (support r)"
  "wf_client_cache (support (upd_store f r)) = wf_client_cache (support r)"
  by (simp_all add: upd_store_def wf_client_cache_def)

lemma take_version_simps [simp]:
  "fst (take_version key r) = next_version (kstate r key) + 1"
  "snd (take_version key r) = upd_store (\<lambda>m. snd (assign_next_version key m)) r"
  by (simp_all add: take_version_def assign_next_version_def Let_def upd_store_def)

lemma notify_client_frame [simp]:
  "store_of (notify_client rpc ack r) = store_of r"
  "dispatcher (notify_client rpc ack r) = dispatcher r"
  "successor_stub (support (notify_client rpc ack r)) = successor_stub (support r)"
  "predecessor_stub (support (notify_client rpc ack r)) = predecessor_stub (support r)"
  "tail_stub (support (notify_client rpc ack r)) = tail_stub (support r)"
  "pred_ack_queue (support (notify_client rpc ack r)) = pred_ack_queue (support r)"
  by (simp_all add: notify_client_def split_beta frame_simps)

lemma notify_client_acks:
  "wf_client_cache (support r) \<Longrightarrow>
    client_acks (notify_client rpc ack r)
      = client_acks r @ (if ack_client_addr ack = [] then [] else [(ack_client_addr ack, ack)])"
  by (simp add: notify_client_def split_beta send_client_ack_calls)

lemma notify_client_cache [simp]:
  "wf_client_cache (support r) \<Longrightarrow> wf_client_cache (support (notify_client rpc ack r))"
  by (simp add: notify_client_def split_beta send_client_ack_wf)

lemma forward_async_frame [simp]:
  "support (forward_async succ req from_node r) = support r"
  "client_acks (forward_async succ req from_node r) = client_acks r"
  "queue (dispatcher (forward_async succ req from_node r))
    = queue (dispatcher r) @
      (case succ of None \<Rightarrow> []
       | Some s \<Rightarrow> [\<lparr>task_successor = s, task_req = req, task_from = from_node\<rparr>])"
  by (simp_all add: forward_async_def enqueue_def split: option.split)

lemma queue_ack_frame [simp]:
  "store_of (queue_ack ack r) = store_of r"
  "dispatcher (queue_ack ack r) = dispatcher r"
  "client_acks (queue_ack ack r) = client_acks r"
  "successor_stub (support (queue_ack ack r)) = successor_stub (support r)"
  "predecessor_stub (support (queue_ack ack r)) = predecessor_stub (support r)"
  "tail_stub (support (queue_ack ack r)) = tail_stub (support r)"
  "pred_ack_queue (support (queue_ack ack r)) = pred_ack_queue (support r) @ [ack]"
  "wf_client_cache (support (queue_ack ack r)) = wf_client_cache (support r)"
  by (simp_all add: queue_ack_def frame_simps wf_client_cache_def enqueue_predecessor_ack_def)

lemmas strategy_helper_defs =
  take_version_def notify_client_def forward_async_def queue_ack_def make_ack_def
  make_propagate_def

subsection \<open>The contract of a strategy\<close>

locale strategy =
  fixes handle_write :: "Rpc \<Rightarrow> WriteRequest \<Rightarrow> Node \<Rightarrow> Replica \<Rightarrow> (cxx_exn + WriteResponse) \<times> Replica"
    and handle_propagate :: "Rpc \<Rightarrow> PropagateRequest \<Rightarrow> Node \<Rightarrow> Replica \<Rightarrow> (cxx_exn + unit) \<times> Replica"
    and handle_ack :: "AckRequest \<Rightarrow> Node \<Rightarrow> Replica \<Rightarrow> (cxx_exn + unit) \<times> Replica"
  assumes write_rejected: "fst (handle_write rpc req node r) = Inl e \<Longrightarrow> snd (handle_write rpc req node r) = r"
    and write_accepted: "fst (handle_write rpc req node r) = Inr resp \<Longrightarrow>
      wresp_success resp \<and> wresp_version resp = next_version (kstate r (wreq_key req)) + 1"
    and write_next: "fst (handle_write rpc req node r) = Inr resp \<Longrightarrow>
      next_version (kstate (snd (handle_write rpc req node r)) (wreq_key req)) = wresp_version resp"
    and write_wf: "wf_store (store_of r) \<Longrightarrow> next_version (kstate r (wreq_key req)) \<noteq> -1 \<Longrightarrow>
      wf_store (store_of (snd (handle_write rpc req node r)))"
    and propagate_wf: "wf_store (store_of r) \<Longrightarrow> wf_store (store_of (snd (handle_propagate rpc preq node r)))"
    and ack_wf: "wf_store (store_of r) \<Longrightarrow> wf_store (store_of (snd (handle_ack ack node r)))"
    and write_other: "key \<noteq> wreq_key req \<Longrightarrow>
      store_of (snd (handle_write rpc req node r)) key = store_of r key"
    and propagate_other: "key \<noteq> prop_key preq \<Longrightarrow>
      store_of (snd (handle_propagate rpc preq node r)) key = store_of r key"
    and ack_other: "key \<noteq> ack_key ack \<Longrightarrow> store_of (snd (handle_ack ack node r)) key = store_of r key"
    and write_committed: "committed_version (kstate r key)
      \<le> committed_version (kstate (snd (handle_write rpc req node r)) key)"
    and propagate_committed: "committed_version (kstate r key)
      \<le> committed_version (kstate (snd (handle_propagate rpc preq node r)) key)"
    and ack_committed: "committed_version (kstate r key)
      \<le> committed_version (kstate (snd (handle_ack ack node r)) key)"

text \<open>A request as it arrives at one node, and the run of a list of them.\<close>

datatype node_request =
    Write_req WriteRequest
  | Propagate_req PropagateRequest
  | Ack_req AckRequest

fun request_key :: "node_request \<Rightarrow> string" where
  "request_key (Write_req w) = wreq_key w"
| "request_key (Propagate_req p) = prop_key p"
| "request_key (Ack_req a) = ack_key a"

text \<open>The handlers are given with the RPC outcomes and the node already applied.\<close>

fun serve ::
    "(WriteRequest \<Rightarrow> Replica \<Rightarrow> (cxx_exn + WriteResponse) \<times> Replica) \<Rightarrow>
     (PropagateRequest \<Rightarrow> Replica \<Rightarrow> (cxx_exn + unit) \<times> Replica) \<Rightarrow>
     (AckRequest \<Rightarrow> Replica \<Rightarrow> (cxx_exn + unit) \<times> Replica) \<Rightarrow>
     node_request \<Rightarrow> Replica \<Rightarrow> Replica" where
  "serve wr pr ak (Write_req w) r = snd (wr w r)"
| "serve wr pr ak (Propagate_req p) r = snd (pr p r)"
| "serve wr pr ak (Ack_req a) r = snd (ak a r)"

text \<open>The responses to a list of writes, in order.\<close>

fun serve_writes ::
    "(WriteRequest \<Rightarrow> Replica \<Rightarrow> (cxx_exn + WriteResponse) \<times> Replica) \<Rightarrow>
     WriteRequest list \<Rightarrow> Replica \<Rightarrow> (cxx_exn + WriteResponse) list" where
  "serve_writes wr [] r = []"
| "serve_writes wr (w # ws) r = (let (res, r') = wr w r in res # serve_writes wr ws r')"

definition response_version :: "cxx_exn + WriteResponse \<Rightarrow> nat option" where
  "response_version res =
     (case res of Inl _ \<Rightarrow> None | Inr resp \<Rightarrow> Some (unat (wresp_version resp)))"

lemma response_version_simps [simp]:
  "response_version (Inl e) = None"
  "response_version (Inr resp) = Some (unat (wresp_version resp))"
  by (simp_all add: response_version_def)

context strategy
begin

abbreviation serve_here :: "Rpc \<Rightarrow> Node \<Rightarrow> node_request \<Rightarrow> Replica \<Rightarrow> Replica" where
  "serve_here rpc node \<equiv> serve (\<lambda>w. handle_write rpc w node) (\<lambda>p. handle_propagate rpc p node)
     (\<lambda>a. handle_ack a node)"

lemma serve_committed:
  "committed_version (kstate r key) \<le> committed_version (kstate (serve_here rpc node q r) key)"
  by (cases q) (auto simp: write_committed propagate_committed ack_committed)

lemma serve_all_committed:
  "committed_version (kstate r key)
    \<le> committed_version (kstate (fold (serve_here rpc node) qs r) key)"
  by (induction qs arbitrary: r) (auto intro: order.trans [OF serve_committed])

lemma serve_all_other:
  "\<forall>q \<in> set qs. request_key q \<noteq> key \<Longrightarrow>
    store_of (fold (serve_here rpc node) qs r) key = store_of r key"
proof (induction qs arbitrary: r)
  case (Cons q qs)
  have "store_of (serve_here rpc node q r) key = store_of r key"
    using Cons.prems by (cases q) (auto simp: write_other propagate_other ack_other)
  with Cons show ?case by simp
qed simp

lemma serve_writes_versions:
  assumes "\<forall>w \<in> set ws. wreq_key w = key"
    and "\<And>w r. wreq_key w = key \<Longrightarrow> isOk (fst (handle_write rpc w node r))"
    and "unat (next_version (kstate r key)) + length ws < 2 ^ 64"
  shows "map response_version (serve_writes (\<lambda>w. handle_write rpc w node) ws r)
    = map (\<lambda>i. Some (unat (next_version (kstate r key)) + i)) [1..<length ws + 1]"
  using assms(1,3)
proof (induction ws arbitrary: r)
  case (Cons w ws)
  let ?n = "next_version (kstate r key)"
  obtain res r' where h: "handle_write rpc w node r = (res, r')" by fastforce
  have key: "wreq_key w = key" using Cons.prems(1) by simp
  obtain resp where res: "res = Inr resp"
    using assms(2) [OF key, of r] h by (cases res) auto
  have v: "wresp_version resp = ?n + 1"
    using write_accepted [of rpc w node r resp] h res key by simp
  have next': "next_version (kstate r' key) = ?n + 1"
    using write_next [of rpc w node r resp] h res key v by simp
  have un: "unat (?n + 1) = unat ?n + 1"
    using Cons.prems(2) by (intro unat_inc_u64) simp
  have "map response_version (serve_writes (\<lambda>w. handle_write rpc w node) ws r')
    = map (\<lambda>i. Some (unat ?n + 1 + i)) [1..<length ws + 1]"
    using Cons.IH [of r'] Cons.prems next' un by simp
  moreover have "[1..<length (w # ws) + 1] = 1 # map Suc [1..<length ws + 1]"
    by (simp add: upt_conv_Cons map_Suc_upt del: upt_Suc)
  ultimately show ?case by (simp add: h res v un comp_def del: upt_Suc)
qed simp

end

end
