(* ===== verification/Chain_Replication.thy ===== *)
theory Chain_Replication
  imports Strategy
begin

section \<open>CHAIN (src/src/replication/chain/chain\_replication.cpp)\<close>

text \<open>
  The five handlers of \<open>ChainReplication\<close>. Only the head takes writes and only the tail
  serves reads; a propagated write is recorded, then committed and acknowledged to the client
  at the tail, or forwarded to the successor. Log output is left out.
\<close>

definition chain_node_label :: "Node \<Rightarrow> string" where
  "chain_node_label node =
     (if Node_id node \<noteq> [] then Node_id node else addr_to_string (self_addr (config node)))"

definition chain_handle_write ::
    "Rpc \<Rightarrow> WriteRequest \<Rightarrow> Node \<Rightarrow> Replica \<Rightarrow> (cxx_exn + WriteResponse) \<times> Replica" where
  "chain_handle_write rpc req node r =
     (if \<not> Node_is_head node
      then (Inl (Runtime_error ''CHAIN write rejected: node is not head''), r)
      else
       let (version, r) = take_version (wreq_key req) r;
           r = upd_store (record_local_write_if_newer (wreq_key req) (wreq_value req) version) r;
           resp = accepted_response version
       in if Node_is_tail node
          then let r = upd_store (mark_version_committed_if_newer
                                    (wreq_key req) (wreq_value req) version) r;
                   ack = make_ack (wreq_key req) version (wreq_client_addr req) (wreq_request_id req)
               in (Inr resp, notify_client rpc ack r)
          else let fwd = make_propagate req version (Node_id node);
                   succ = successor_stub (support r)
               in (Inr resp, forward_async succ fwd (chain_node_label node) r))"

definition chain_handle_read ::
    "ReadRequest \<Rightarrow> Node \<Rightarrow> Replica \<Rightarrow> cxx_exn + ReadResponse" where
  "chain_handle_read req node r =
     (if \<not> Node_is_tail node
      then Inl (Runtime_error ''CHAIN read rejected: node is not tail'')
      else
       let committed = read_committed (rreq_key req) (store_of r)
       in if \<not> found committed
          then Inl (Runtime_error ''CHAIN read failed: key not found or not committed'')
          else Inr \<lparr>rresp_key = rreq_key req, rresp_value = val_text committed,
                    rresp_version = val_version committed\<rparr>)"

definition chain_handle_propagate ::
    "Rpc \<Rightarrow> PropagateRequest \<Rightarrow> Node \<Rightarrow> Replica \<Rightarrow> (cxx_exn + unit) \<times> Replica" where
  "chain_handle_propagate rpc req node r =
     (let r = upd_store (record_local_write_if_newer
                           (prop_key req) (prop_value req) (prop_version req)) r
      in if Node_is_tail node
         then let r = upd_store (mark_version_committed_if_newer
                                   (prop_key req) (prop_value req) (prop_version req)) r;
                  ack = make_ack (prop_key req) (prop_version req)
                          (prop_client_addr req) (prop_request_id req)
              in (Inr (), notify_client rpc ack r)
         else let succ = successor_stub (support r)
              in (Inr (), forward_async succ req (chain_node_label node) r))"

definition chain_handle_ack ::
    "AckRequest \<Rightarrow> Node \<Rightarrow> Replica \<Rightarrow> (cxx_exn + unit) \<times> Replica" where
  "chain_handle_ack req node r =
     (Inl (Runtime_error ''CHAIN Ack RPC is disabled: only CRAQ uses inter-node ACK propagation''), r)"

definition chain_on_config_change :: "Node \<Rightarrow> Replica \<Rightarrow> Replica" where
  "chain_on_config_change node r = r\<lparr>support := support_on_config_change node (support r)\<rparr>"

lemmas chain_handler_defs = chain_handle_write_def chain_handle_propagate_def chain_handle_ack_def

subsection \<open>Effect of the handlers\<close>

lemma chain_write_reject:
  "\<not> Node_is_head node \<Longrightarrow> chain_handle_write rpc req node r
    = (Inl (Runtime_error ''CHAIN write rejected: node is not head''), r)"
  by (simp add: chain_handle_write_def)

lemma chain_write_result:
  "Node_is_head node \<Longrightarrow> fst (chain_handle_write rpc req node r)
    = Inr (accepted_response (next_version (kstate r (wreq_key req)) + 1))"
  by (simp add: chain_handle_write_def split_beta Let_def)

lemma chain_write_store:
  "Node_is_head node \<Longrightarrow> store_of (snd (chain_handle_write rpc req node r))
    = (let key = wreq_key req; v = next_version (kstate r key) + 1
       in (if Node_is_tail node then deliver_newest else record_local_write_if_newer)
            key (wreq_value req) v (snd (assign_next_version key (store_of r))))"
  by (simp add: chain_handle_write_def deliver_newest_def split_beta Let_def)

lemma chain_propagate_store:
  "store_of (snd (chain_handle_propagate rpc req node r))
    = (if Node_is_tail node then deliver_newest else record_local_write_if_newer)
        (prop_key req) (prop_value req) (prop_version req) (store_of r)"
  by (simp add: chain_handle_propagate_def deliver_newest_def Let_def)

lemma chain_write_queue:
  "Node_is_head node \<Longrightarrow> queue (dispatcher (snd (chain_handle_write rpc req node r)))
    = queue (dispatcher r) @
      (if Node_is_tail node then []
       else case successor_stub (support r) of None \<Rightarrow> []
         | Some s \<Rightarrow> [\<lparr>task_successor = s,
              task_req = make_propagate req (next_version (kstate r (wreq_key req)) + 1) (Node_id node),
              task_from = chain_node_label node\<rparr>])"
  by (simp add: chain_handle_write_def split_beta Let_def split: option.split)

lemma chain_propagate_queue:
  "queue (dispatcher (snd (chain_handle_propagate rpc req node r)))
    = queue (dispatcher r) @
      (if Node_is_tail node then []
       else case successor_stub (support r) of None \<Rightarrow> []
         | Some s \<Rightarrow> [\<lparr>task_successor = s, task_req = req, task_from = chain_node_label node\<rparr>])"
  by (simp add: chain_handle_propagate_def Let_def split: option.split)

lemma chain_write_acks:
  "Node_is_head node \<Longrightarrow> wf_client_cache (support r) \<Longrightarrow>
    client_acks (snd (chain_handle_write rpc req node r))
      = client_acks r @
        (if Node_is_tail node \<and> wreq_client_addr req \<noteq> []
         then [(wreq_client_addr req, make_ack (wreq_key req)
                 (next_version (kstate r (wreq_key req)) + 1) (wreq_client_addr req)
                 (wreq_request_id req))]
         else [])"
  by (simp add: chain_handle_write_def split_beta Let_def notify_client_acks make_ack_def)

lemma chain_propagate_acks:
  "wf_client_cache (support r) \<Longrightarrow>
    client_acks (snd (chain_handle_propagate rpc req node r))
      = client_acks r @
        (if Node_is_tail node \<and> prop_client_addr req \<noteq> []
         then [(prop_client_addr req, make_ack (prop_key req) (prop_version req)
                 (prop_client_addr req) (prop_request_id req))]
         else [])"
  by (simp add: chain_handle_propagate_def Let_def notify_client_acks make_ack_def)

lemma chain_stubs [frame_simps]:
  "successor_stub (support (snd (chain_handle_write rpc req node r))) = successor_stub (support r)"
  "successor_stub (support (snd (chain_handle_propagate rpc preq node r))) = successor_stub (support r)"
  "predecessor_stub (support (snd (chain_handle_write rpc req node r))) = predecessor_stub (support r)"
  "predecessor_stub (support (snd (chain_handle_propagate rpc preq node r))) = predecessor_stub (support r)"
  "tail_stub (support (snd (chain_handle_write rpc req node r))) = tail_stub (support r)"
  "tail_stub (support (snd (chain_handle_propagate rpc preq node r))) = tail_stub (support r)"
  by (simp_all add: chain_handler_defs split_beta Let_def)

lemma chain_caches [frame_simps]:
  "wf_client_cache (support r) \<Longrightarrow> wf_client_cache (support (snd (chain_handle_write rpc req node r)))"
  "wf_client_cache (support r) \<Longrightarrow> wf_client_cache (support (snd (chain_handle_propagate rpc preq node r)))"
  "pred_ack_queue (support (snd (chain_handle_write rpc req node r))) = pred_ack_queue (support r)"
  "pred_ack_queue (support (snd (chain_handle_propagate rpc preq node r))) = pred_ack_queue (support r)"
  by (simp_all add: chain_handler_defs split_beta Let_def)

subsection \<open>CHAIN keeps the contract\<close>

interpretation chain: strategy chain_handle_write chain_handle_propagate chain_handle_ack
proof unfold_locales
  fix rpc :: Rpc and req :: WriteRequest and node :: Node and r :: Replica and key :: string
    and e :: cxx_exn and resp :: WriteResponse
  show "snd (chain_handle_write rpc req node r) = r"
    if "fst (chain_handle_write rpc req node r) = Inl e"
    using that by (cases "Node_is_head node") (simp_all add: chain_write_reject chain_write_result)
  show "wresp_success resp \<and> wresp_version resp = next_version (kstate r (wreq_key req)) + 1"
    if "fst (chain_handle_write rpc req node r) = Inr resp"
    using that by (cases "Node_is_head node") (auto simp: chain_write_reject chain_write_result)
  show "next_version (kstate (snd (chain_handle_write rpc req node r)) (wreq_key req)) = wresp_version resp"
    if "fst (chain_handle_write rpc req node r) = Inr resp"
    using that by (cases "Node_is_head node")
      (auto simp: chain_write_reject chain_write_result chain_write_store Let_def
        newest.receive_next newest.deliver_next)
  show "wf_store (store_of (snd (chain_handle_write rpc req node r)))"
    if "wf_store (store_of r)" "next_version (kstate r (wreq_key req)) \<noteq> -1"
    using that by (cases "Node_is_head node")
      (auto simp: chain_write_reject chain_write_store Let_def
        intro!: newest.receive_wf newest.deliver_wf wf_store_assign)
  show "store_of (snd (chain_handle_write rpc req node r)) key = store_of r key"
    if "key \<noteq> wreq_key req"
    using that by (cases "Node_is_head node")
      (auto simp: chain_write_reject chain_write_store Let_def frame_simps newest.deliver_other)
  show "committed_version (kstate r key)
      \<le> committed_version (kstate (snd (chain_handle_write rpc req node r)) key)"
  proof (cases "Node_is_head node \<and> key = wreq_key req")
    case True
    then show ?thesis
      by (auto simp: chain_write_store Let_def newest.receive_committed newest.deliver_committed)
  next
    case False
    then show ?thesis
      by (cases "Node_is_head node")
        (auto simp: chain_write_reject chain_write_store Let_def key_state_def frame_simps
          newest.deliver_other)
  qed
next
  fix rpc :: Rpc and preq :: PropagateRequest and node :: Node and r :: Replica and key :: string
  show "wf_store (store_of (snd (chain_handle_propagate rpc preq node r)))"
    if "wf_store (store_of r)"
    using that by (auto simp: chain_propagate_store intro: newest.receive_wf newest.deliver_wf)
  show "store_of (snd (chain_handle_propagate rpc preq node r)) key = store_of r key"
    if "key \<noteq> prop_key preq"
    using that by (auto simp: chain_propagate_store newest.receive_other newest.deliver_other)
  show "committed_version (kstate r key)
      \<le> committed_version (kstate (snd (chain_handle_propagate rpc preq node r)) key)"
    by (cases "key = prop_key preq")
      (auto simp: chain_propagate_store newest.receive_committed newest.deliver_committed
        newest.receive_key_state_other newest.deliver_key_state_other)
qed (simp_all add: chain_handle_ack_def)

end
