(* ===== verification/Craq_Replication.thy ===== *)
theory Craq_Replication
  imports Strategy
begin

section \<open>CRAQ (src/src/replication/craq/craq\_replication.cpp)\<close>

text \<open>
  The handlers of \<open>CRAQReplication\<close>. A write is kept as a pending version at every node it
  passes; the tail marks it clean, acknowledges the client and queues an ack that travels
  back to the head, cleaning the version at each node. Any node serves reads: the tail and a
  node without newer pending versions from the clean value, another node after asking for the
  version committed at the tail (\<open>handle_version_query\<close>, answered by the tail itself, by the
  tail stub or hop by hop through the successor). The remote answer is
  \<open>version_query_call\<close> of the argument \<open>rpc\<close>.
\<close>

definition craq_node_label :: "Node \<Rightarrow> string" where
  "craq_node_label node =
     (if Node_id node \<noteq> [] then Node_id node else addr_to_string (self_addr (config node)))"

definition build_read_response :: "string \<Rightarrow> string \<Rightarrow> u64 \<Rightarrow> ReadResponse" where
  "build_read_response key value version =
     \<lparr>rresp_key = key, rresp_value = value, rresp_version = version\<rparr>"

definition craq_handle_write ::
    "Rpc \<Rightarrow> WriteRequest \<Rightarrow> Node \<Rightarrow> Replica \<Rightarrow> (cxx_exn + WriteResponse) \<times> Replica" where
  "craq_handle_write rpc req node r =
     (if \<not> Node_is_head node
      then (Inl (Runtime_error ''CRAQ write rejected: node is not head''), r)
      else
       let (version, r) = take_version (wreq_key req) r;
           r = upd_store (record_local_write (wreq_key req) (wreq_value req) version) r;
           resp = accepted_response version
       in if Node_is_tail node
          then let r = upd_store (mark_version_clean (wreq_key req) version) r;
                   ack = make_ack (wreq_key req) version (wreq_client_addr req) (wreq_request_id req)
               in (Inr resp, notify_client rpc ack r)
          else let fwd = make_propagate req version (Node_id node);
                   succ = successor_stub (support r)
               in (Inr resp, forward_async succ fwd (craq_node_label node) r))"

definition craq_handle_version_query ::
    "Rpc \<Rightarrow> VersionQueryRequest \<Rightarrow> Node \<Rightarrow> Replica \<Rightarrow> cxx_exn + VersionQueryResponse" where
  "craq_handle_version_query rpc req node r =
     (if Node_is_tail node
      then let clean = read_clean (vq_key req) (store_of r)
           in Inr \<lparr>vqr_key = vq_key req,
                   vqr_latest_version = (if found clean then val_version clean else 0)\<rparr>
      else case tail_stub (support r) of
             Some tail \<Rightarrow>
               (let (status, downstream) = version_query_call rpc tail req
                in if \<not> Status_ok status
                   then Inl (Runtime_error (''CRAQ version query failed: '' @ error_message status))
                   else Inr downstream)
           | None \<Rightarrow>
               (case successor_stub (support r) of
                  None \<Rightarrow>
                    Inl (Runtime_error ''CRAQ version query failed: missing successor or tail stub'')
                | Some succ \<Rightarrow>
                    (let (status, downstream) = version_query_call rpc succ req
                     in if \<not> Status_ok status
                        then Inl (Runtime_error (''CRAQ version query failed: '' @ error_message status))
                        else Inr downstream)))"

definition craq_handle_read ::
    "Rpc \<Rightarrow> ReadRequest \<Rightarrow> Node \<Rightarrow> Replica \<Rightarrow> cxx_exn + ReadResponse" where
  "craq_handle_read rpc req node r =
     (let local_clean = read_clean (rreq_key req) (store_of r)
      in if Node_is_tail node
         then if \<not> found local_clean
              then Inl (Runtime_error ''CRAQ read failed: key not found or not committed'')
              else Inr (build_read_response (rreq_key req) (val_text local_clean) (val_version local_clean))
         else
          let local_latest = read_latest_seen (rreq_key req) (store_of r);
              has_dirty = (found local_latest \<and>
                (\<not> found local_clean \<or> val_version local_latest > val_version local_clean))
          in if \<not> has_dirty
             then if \<not> found local_clean
                  then Inl (Runtime_error ''CRAQ read failed: key not found'')
                  else Inr (build_read_response (rreq_key req) (val_text local_clean)
                              (val_version local_clean))
             else case craq_handle_version_query rpc \<lparr>vq_key = rreq_key req\<rparr> node r of
                    Inl e \<Rightarrow> Inl e
                  | Inr tail_state \<Rightarrow>
                      (let latest_committed = vqr_latest_version tail_state
                       in if latest_committed = 0
                          then Inl (Runtime_error ''CRAQ read failed: key not committed at tail'')
                          else if found local_clean \<and> val_version local_clean = latest_committed
                          then Inr (build_read_response (rreq_key req) (val_text local_clean)
                                      (val_version local_clean))
                          else case read_value_at_version (rreq_key req) latest_committed (store_of r) of
                                 None \<Rightarrow>
                                   Inl (Runtime_error ''CRAQ read failed: local node cannot materialize tail-committed version'')
                               | Some value \<Rightarrow>
                                   Inr (build_read_response (rreq_key req) value latest_committed)))"

text \<open>
  The same read with its locks in view: \<open>read_clean\<close>, \<open>read_latest_seen\<close>, the version query and
  \<open>read_value_at_version\<close> lock the store one after the other, and other requests are served in
  between. A step is one of them with the code up to the next; the phase is what the thread
  remembers of the earlier ones.
\<close>

datatype craq_read =
    Read_begun
  | Clean_known LatestReplicaValue
  | Must_query LatestReplicaValue
  | Must_materialize u64
  | Read_done "cxx_exn + ReadResponse"

definition clean_response :: "string \<Rightarrow> LatestReplicaValue \<Rightarrow> ReadResponse" where
  "clean_response key local_clean = build_read_response key (val_text local_clean) (val_version local_clean)"

fun craq_read_step :: "Rpc \<Rightarrow> string \<Rightarrow> Node \<Rightarrow> Replica \<Rightarrow> craq_read \<Rightarrow> craq_read" where
  "craq_read_step rpc key node r Read_begun = Clean_known (read_clean key (store_of r))"
| "craq_read_step rpc key node r (Clean_known local_clean) =
     (if Node_is_tail node
      then Read_done (if \<not> found local_clean
             then Inl (Runtime_error ''CRAQ read failed: key not found or not committed'')
             else Inr (clean_response key local_clean))
      else
       let local_latest = read_latest_seen key (store_of r);
           has_dirty = (found local_latest \<and>
             (\<not> found local_clean \<or> val_version local_latest > val_version local_clean))
       in if has_dirty then Must_query local_clean
          else Read_done (if \<not> found local_clean
                 then Inl (Runtime_error ''CRAQ read failed: key not found'')
                 else Inr (clean_response key local_clean)))"
| "craq_read_step rpc key node r (Must_query local_clean) =
     (case craq_handle_version_query rpc \<lparr>vq_key = key\<rparr> node r of
        Inl e \<Rightarrow> Read_done (Inl e)
      | Inr tail_state \<Rightarrow>
          (let latest_committed = vqr_latest_version tail_state
           in if latest_committed = 0
              then Read_done (Inl (Runtime_error ''CRAQ read failed: key not committed at tail''))
              else if found local_clean \<and> val_version local_clean = latest_committed
              then Read_done (Inr (clean_response key local_clean))
              else Must_materialize latest_committed))"
| "craq_read_step rpc key node r (Must_materialize latest_committed) =
     Read_done (case read_value_at_version key latest_committed (store_of r) of
        None \<Rightarrow> Inl (Runtime_error ''CRAQ read failed: local node cannot materialize tail-committed version'')
      | Some value \<Rightarrow> Inr (build_read_response key value latest_committed))"
| "craq_read_step rpc key node r (Read_done res) = Read_done res"

definition craq_handle_propagate ::
    "Rpc \<Rightarrow> PropagateRequest \<Rightarrow> Node \<Rightarrow> Replica \<Rightarrow> (cxx_exn + unit) \<times> Replica" where
  "craq_handle_propagate rpc req node r =
     (let r = upd_store (record_local_write (prop_key req) (prop_value req) (prop_version req)) r
      in if Node_is_tail node
         then let r = upd_store (mark_version_clean (prop_key req) (prop_version req)) r;
                  client_ack = make_ack (prop_key req) (prop_version req)
                                 (prop_client_addr req) (prop_request_id req);
                  r = notify_client rpc client_ack r
              in if \<not> Node_is_head node
                 then let ack = make_ack (prop_key req) (prop_version req)
                                  (prop_client_addr req) (prop_request_id req)
                      in (Inr (), queue_ack ack r)
                 else (Inr (), r)
         else let succ = successor_stub (support r)
              in (Inr (), forward_async succ req (craq_node_label node) r))"

definition craq_handle_ack ::
    "AckRequest \<Rightarrow> Node \<Rightarrow> Replica \<Rightarrow> (cxx_exn + unit) \<times> Replica" where
  "craq_handle_ack req node r =
     (let r = upd_store (mark_version_clean (ack_key req) (ack_version req)) r
      in if Node_is_head node then (Inr (), r) else (Inr (), queue_ack req r))"

definition craq_on_config_change :: "Node \<Rightarrow> Replica \<Rightarrow> Replica" where
  "craq_on_config_change node r =
     (let r = r\<lparr>support := support_on_config_change node (support r)\<rparr>
      in r\<lparr>support := start_ack_workers (support r)\<rparr>)"

lemmas craq_handler_defs = craq_handle_write_def craq_handle_propagate_def craq_handle_ack_def

text \<open>With nothing in between, the four steps are the handler.\<close>

lemma craq_read_steps:
  "(craq_read_step rpc key node r ^^ 4) Read_begun = Read_done (craq_handle_read rpc \<lparr>rreq_key = key\<rparr> node r)"
proof -
  have "(craq_read_step rpc key node r ^^ 4) Read_begun
    = craq_read_step rpc key node r (craq_read_step rpc key node r
        (craq_read_step rpc key node r (Clean_known (read_clean key (store_of r)))))"
    by (simp add: numeral_eq_Suc)
  also have "\<dots> = Read_done (craq_handle_read rpc \<lparr>rreq_key = key\<rparr> node r)"
    by (simp add: craq_handle_read_def clean_response_def Let_def split: option.splits sum.splits)
  finally show ?thesis .
qed

subsection \<open>Effect of the handlers\<close>

lemma craq_write_reject:
  "\<not> Node_is_head node \<Longrightarrow> craq_handle_write rpc req node r
    = (Inl (Runtime_error ''CRAQ write rejected: node is not head''), r)"
  by (simp add: craq_handle_write_def)

lemma craq_write_result:
  "Node_is_head node \<Longrightarrow> fst (craq_handle_write rpc req node r)
    = Inr (accepted_response (next_version (kstate r (wreq_key req)) + 1))"
  by (simp add: craq_handle_write_def split_beta Let_def)

lemma craq_write_store:
  "Node_is_head node \<Longrightarrow> store_of (snd (craq_handle_write rpc req node r))
    = (let key = wreq_key req; v = next_version (kstate r key) + 1
       in (if Node_is_tail node then deliver_versioned else record_local_write)
            key (wreq_value req) v (snd (assign_next_version key (store_of r))))"
  by (simp add: craq_handle_write_def deliver_versioned_def split_beta Let_def)

lemma craq_propagate_store:
  "store_of (snd (craq_handle_propagate rpc req node r))
    = (if Node_is_tail node then deliver_versioned else record_local_write)
        (prop_key req) (prop_value req) (prop_version req) (store_of r)"
  by (simp add: craq_handle_propagate_def deliver_versioned_def Let_def)

lemma craq_ack_store:
  "store_of (snd (craq_handle_ack ack node r))
    = mark_version_clean (ack_key ack) (ack_version ack) (store_of r)"
  by (simp add: craq_handle_ack_def Let_def)

lemma craq_write_queue:
  "Node_is_head node \<Longrightarrow> queue (dispatcher (snd (craq_handle_write rpc req node r)))
    = queue (dispatcher r) @
      (if Node_is_tail node then []
       else case successor_stub (support r) of None \<Rightarrow> []
         | Some s \<Rightarrow> [\<lparr>task_successor = s,
              task_req = make_propagate req (next_version (kstate r (wreq_key req)) + 1) (Node_id node),
              task_from = craq_node_label node\<rparr>])"
  by (simp add: craq_handle_write_def split_beta Let_def split: option.split)

lemma craq_propagate_queue:
  "queue (dispatcher (snd (craq_handle_propagate rpc req node r)))
    = queue (dispatcher r) @
      (if Node_is_tail node then []
       else case successor_stub (support r) of None \<Rightarrow> []
         | Some s \<Rightarrow> [\<lparr>task_successor = s, task_req = req, task_from = craq_node_label node\<rparr>])"
  by (simp add: craq_handle_propagate_def Let_def split: option.split)

lemma craq_ack_queues:
  "pred_ack_queue (support (snd (craq_handle_write rpc req node r))) = pred_ack_queue (support r)"
  "pred_ack_queue (support (snd (craq_handle_propagate rpc preq node r)))
    = pred_ack_queue (support r) @
      (if Node_is_tail node \<and> \<not> Node_is_head node
       then [make_ack (prop_key preq) (prop_version preq) (prop_client_addr preq) (prop_request_id preq)]
       else [])"
  "pred_ack_queue (support (snd (craq_handle_ack ack node r)))
    = pred_ack_queue (support r) @ (if Node_is_head node then [] else [ack])"
  by (simp_all add: craq_handler_defs split_beta Let_def)

lemma craq_stubs [frame_simps]:
  "successor_stub (support (snd (craq_handle_write rpc req node r))) = successor_stub (support r)"
  "successor_stub (support (snd (craq_handle_propagate rpc preq node r))) = successor_stub (support r)"
  "successor_stub (support (snd (craq_handle_ack ack node r))) = successor_stub (support r)"
  "predecessor_stub (support (snd (craq_handle_write rpc req node r))) = predecessor_stub (support r)"
  "predecessor_stub (support (snd (craq_handle_propagate rpc preq node r))) = predecessor_stub (support r)"
  "predecessor_stub (support (snd (craq_handle_ack ack node r))) = predecessor_stub (support r)"
  "tail_stub (support (snd (craq_handle_write rpc req node r))) = tail_stub (support r)"
  "tail_stub (support (snd (craq_handle_propagate rpc preq node r))) = tail_stub (support r)"
  "tail_stub (support (snd (craq_handle_ack ack node r))) = tail_stub (support r)"
  "dispatcher (snd (craq_handle_ack ack node r)) = dispatcher r"
  "client_acks (snd (craq_handle_ack ack node r)) = client_acks r"
  by (simp_all add: craq_handler_defs split_beta Let_def)

lemma craq_caches [frame_simps]:
  "wf_client_cache (support r) \<Longrightarrow> wf_client_cache (support (snd (craq_handle_write rpc req node r)))"
  "wf_client_cache (support r) \<Longrightarrow> wf_client_cache (support (snd (craq_handle_propagate rpc preq node r)))"
  "wf_client_cache (support r) \<Longrightarrow> wf_client_cache (support (snd (craq_handle_ack ack node r)))"
  by (simp_all add: craq_handler_defs split_beta Let_def)

lemma craq_write_acks:
  "Node_is_head node \<Longrightarrow> wf_client_cache (support r) \<Longrightarrow>
    client_acks (snd (craq_handle_write rpc req node r))
      = client_acks r @
        (if Node_is_tail node \<and> wreq_client_addr req \<noteq> []
         then [(wreq_client_addr req, make_ack (wreq_key req)
                 (next_version (kstate r (wreq_key req)) + 1) (wreq_client_addr req)
                 (wreq_request_id req))]
         else [])"
  by (simp add: craq_handle_write_def split_beta Let_def notify_client_acks make_ack_def)

lemma craq_propagate_acks:
  "wf_client_cache (support r) \<Longrightarrow>
    client_acks (snd (craq_handle_propagate rpc req node r))
      = client_acks r @
        (if Node_is_tail node \<and> prop_client_addr req \<noteq> []
         then [(prop_client_addr req, make_ack (prop_key req) (prop_version req)
                 (prop_client_addr req) (prop_request_id req))]
         else [])"
  by (simp add: craq_handle_propagate_def Let_def notify_client_acks make_ack_def)

subsection \<open>CRAQ keeps the contract\<close>

interpretation craq: strategy craq_handle_write craq_handle_propagate craq_handle_ack
proof unfold_locales
  fix rpc :: Rpc and req :: WriteRequest and node :: Node and r :: Replica and key :: string
    and e :: cxx_exn and resp :: WriteResponse
  show "snd (craq_handle_write rpc req node r) = r"
    if "fst (craq_handle_write rpc req node r) = Inl e"
    using that by (cases "Node_is_head node") (simp_all add: craq_write_reject craq_write_result)
  show "wresp_success resp \<and> wresp_version resp = next_version (kstate r (wreq_key req)) + 1"
    if "fst (craq_handle_write rpc req node r) = Inr resp"
    using that by (cases "Node_is_head node") (auto simp: craq_write_reject craq_write_result)
  show "next_version (kstate (snd (craq_handle_write rpc req node r)) (wreq_key req)) = wresp_version resp"
    if "fst (craq_handle_write rpc req node r) = Inr resp"
    using that by (cases "Node_is_head node")
      (auto simp: craq_write_reject craq_write_result craq_write_store Let_def
        versioned.receive_next versioned.deliver_next)
  show "wf_store (store_of (snd (craq_handle_write rpc req node r)))"
    if "wf_store (store_of r)" "next_version (kstate r (wreq_key req)) \<noteq> -1"
    using that by (cases "Node_is_head node")
      (auto simp: craq_write_reject craq_write_store Let_def
        intro!: versioned.receive_wf versioned.deliver_wf wf_store_assign)
  show "store_of (snd (craq_handle_write rpc req node r)) key = store_of r key"
    if "key \<noteq> wreq_key req"
    using that by (cases "Node_is_head node")
      (auto simp: craq_write_reject craq_write_store Let_def frame_simps versioned.deliver_other)
  show "committed_version (kstate r key)
      \<le> committed_version (kstate (snd (craq_handle_write rpc req node r)) key)"
  proof (cases "Node_is_head node \<and> key = wreq_key req")
    case True
    then show ?thesis
      by (auto simp: craq_write_store Let_def versioned.receive_committed versioned.deliver_committed)
  next
    case False
    then show ?thesis
      by (cases "Node_is_head node")
        (auto simp: craq_write_reject craq_write_store Let_def key_state_def frame_simps
          versioned.deliver_other)
  qed
next
  fix rpc :: Rpc and preq :: PropagateRequest and node :: Node and r :: Replica and key :: string
  show "wf_store (store_of (snd (craq_handle_propagate rpc preq node r)))"
    if "wf_store (store_of r)"
    using that by (auto simp: craq_propagate_store intro: versioned.receive_wf versioned.deliver_wf)
  show "store_of (snd (craq_handle_propagate rpc preq node r)) key = store_of r key"
    if "key \<noteq> prop_key preq"
    using that by (auto simp: craq_propagate_store versioned.receive_other versioned.deliver_other)
  show "committed_version (kstate r key)
      \<le> committed_version (kstate (snd (craq_handle_propagate rpc preq node r)) key)"
    by (cases "key = prop_key preq")
      (auto simp: craq_propagate_store versioned.receive_committed versioned.deliver_committed
        versioned.receive_key_state_other versioned.deliver_key_state_other)
next
  fix ack :: AckRequest and node :: Node and r :: Replica and key :: string
  show "wf_store (store_of (snd (craq_handle_ack ack node r)))" if "wf_store (store_of r)"
    using that by (simp add: craq_ack_store wf_store_clean)
  show "store_of (snd (craq_handle_ack ack node r)) key = store_of r key" if "key \<noteq> ack_key ack"
    using that by (simp add: craq_ack_store frame_simps)
  show "committed_version (kstate r key)
      \<le> committed_version (kstate (snd (craq_handle_ack ack node r)) key)"
    by (cases "key = ack_key ack")
      (auto simp: craq_ack_store mark_version_clean_committed_mono key_state_other_key)
qed

end
