(* ===== verification/Crown_Replication.thy ===== *)
theory Crown_Replication
  imports Strategy
begin

section \<open>CROWN (src/src/replication/crown/crown\_replication.cpp)\<close>

text \<open>
  The handlers of \<open>CROWNReplication\<close>. Every node accepts writes and serves reads; the tail of
  a write is found from the index of the node that accepted it, which travels in
  \<open>origin_id\<close> as decimal text: \<open>tail_index = (origin + n - 1) mod n\<close>. A propagated write is
  recorded before its \<open>origin_id\<close> is looked at, so a request with a bad one leaves the record
  behind and throws.
\<close>

definition crown_node_label :: "Node \<Rightarrow> string" where
  "crown_node_label node =
     (if Node_id node \<noteq> [] then Node_id node else addr_to_string (self_addr (config node)))"

definition parse_origin_index_or_throw :: "string \<Rightarrow> int \<Rightarrow> cxx_exn + int" where
  "parse_origin_index_or_throw origin_id ring_size =
     (if origin_id = []
      then Inl (Runtime_error ''CROWN propagate rejected: missing origin_id'')
      else case stoll origin_id of
             Inl _ \<Rightarrow> Inl (Runtime_error ''CROWN propagate rejected: origin_id must be numeric'')
           | Inr (parsed, consumed) \<Rightarrow>
               if consumed \<noteq> length origin_id
               then Inl (Runtime_error ''CROWN propagate rejected: origin_id must be numeric'')
               else if parsed < 0 \<or> parsed > int_max
               then Inl (Runtime_error ''CROWN propagate rejected: origin_id out of range'')
               else if parsed \<ge> ring_size
               then Inl (Runtime_error ''CROWN propagate rejected: origin_id outside ring size'')
               else Inr parsed)"

text \<open>
  The sum \<open>origin_index + ring_size\<close> is one of \<open>int\<close>s in the code: it stays in range, and the unbounded
  sum is the same, on rings of up to \<open>2 ^ 30\<close> nodes.
\<close>

definition is_request_tail_node :: "Node \<Rightarrow> PropagateRequest \<Rightarrow> cxx_exn + bool" where
  "is_request_tail_node node req =
     (let ring_size = crown_node_count (config node)
      in if ring_size \<le> 1 then Inr True
         else case parse_origin_index_or_throw (prop_origin_id req) ring_size of
                Inl e \<Rightarrow> Inl e
              | Inr origin_index \<Rightarrow>
                  (let tail_index = (origin_index + ring_size - 1) mod ring_size
                   in Inr (Node_index node = tail_index)))"

definition crown_handle_write ::
    "Rpc \<Rightarrow> WriteRequest \<Rightarrow> Node \<Rightarrow> Replica \<Rightarrow> (cxx_exn + WriteResponse) \<times> Replica" where
  "crown_handle_write rpc req node r =
     (let (version, r) = take_version (wreq_key req) r;
          r = upd_store (record_local_write_if_newer (wreq_key req) (wreq_value req) version) r;
          resp = accepted_response version;
          ring_size = crown_node_count (config node)
      in if ring_size \<le> 1
         then let r = upd_store (mark_version_committed_if_newer
                                   (wreq_key req) (wreq_value req) version) r;
                  ack = make_ack (wreq_key req) version (wreq_client_addr req) (wreq_request_id req)
              in (Inr resp, notify_client rpc ack r)
         else let fwd = make_propagate req version (to_string_int (Node_index node));
                  succ = successor_stub (support r)
              in (Inr resp, forward_async succ fwd (crown_node_label node) r))"

definition crown_handle_read ::
    "ReadRequest \<Rightarrow> Node \<Rightarrow> Replica \<Rightarrow> cxx_exn + ReadResponse" where
  "crown_handle_read req node r =
     (let committed = read_committed (rreq_key req) (store_of r)
      in if \<not> found committed
         then Inl (Runtime_error ''CROWN read failed: key not found or not committed'')
         else Inr \<lparr>rresp_key = rreq_key req, rresp_value = val_text committed,
                   rresp_version = val_version committed\<rparr>)"

definition crown_handle_propagate ::
    "Rpc \<Rightarrow> PropagateRequest \<Rightarrow> Node \<Rightarrow> Replica \<Rightarrow> (cxx_exn + unit) \<times> Replica" where
  "crown_handle_propagate rpc req node r =
     (if prop_version req = 0
      then (Inl (Runtime_error ''CROWN propagate rejected: version must be non-zero''), r)
      else
       let r = upd_store (record_local_write_if_newer
                            (prop_key req) (prop_value req) (prop_version req)) r
       in case is_request_tail_node node req of
            Inl e \<Rightarrow> (Inl e, r)
          | Inr at_tail \<Rightarrow>
              if at_tail
              then let r = upd_store (mark_version_committed_if_newer
                                        (prop_key req) (prop_value req) (prop_version req)) r;
                       ack = make_ack (prop_key req) (prop_version req)
                               (prop_client_addr req) (prop_request_id req)
                   in (Inr (), notify_client rpc ack r)
              else let succ = successor_stub (support r)
                   in (Inr (), forward_async succ req (crown_node_label node) r))"

definition crown_handle_ack ::
    "AckRequest \<Rightarrow> Node \<Rightarrow> Replica \<Rightarrow> (cxx_exn + unit) \<times> Replica" where
  "crown_handle_ack req node r =
     (Inl (Runtime_error ''CROWN Ack RPC is disabled: only CRAQ uses inter-node ACK propagation''), r)"

definition crown_on_config_change :: "Node \<Rightarrow> Replica \<Rightarrow> Replica" where
  "crown_on_config_change node r = r\<lparr>support := support_on_config_change node (support r)\<rparr>"

lemmas crown_handler_defs = crown_handle_write_def crown_handle_propagate_def crown_handle_ack_def

subsection \<open>The origin index in text\<close>

lemma parse_origin_round_trip:
  "0 \<le> i \<Longrightarrow> i \<le> int_max \<Longrightarrow> i < n \<Longrightarrow> parse_origin_index_or_throw (to_string_int i) n = Inr i"
  using stoll_to_string [of i] by (simp add: parse_origin_index_or_throw_def int_max_def)

lemma parse_origin_Inr:
  "parse_origin_index_or_throw s n = Inr i \<Longrightarrow> 0 \<le> i \<and> i < n \<and> i \<le> int_max"
  by (auto simp: parse_origin_index_or_throw_def split: if_splits sum.splits prod.splits)

lemma is_request_tail_origin:
  assumes "crown_node_count (config node) = n" "1 < n" "n \<le> int_max"
    "prop_origin_id req = to_string_int i" "0 \<le> i" "i < n"
  shows "is_request_tail_node node req = Inr (Node_index node = (i + n - 1) mod n)"
  using assms parse_origin_round_trip [of i n]
  by (simp add: is_request_tail_node_def Let_def)

subsection \<open>Effect of the handlers\<close>

lemma crown_write_result:
  "fst (crown_handle_write rpc req node r)
    = Inr (accepted_response (next_version (kstate r (wreq_key req)) + 1))"
  by (simp add: crown_handle_write_def split_beta Let_def)

lemma crown_write_store:
  "store_of (snd (crown_handle_write rpc req node r))
    = (let key = wreq_key req; v = next_version (kstate r key) + 1
       in (if crown_node_count (config node) \<le> 1 then deliver_newest else record_local_write_if_newer)
            key (wreq_value req) v (snd (assign_next_version key (store_of r))))"
  by (simp add: crown_handle_write_def deliver_newest_def split_beta Let_def)

lemma crown_propagate_store:
  "store_of (snd (crown_handle_propagate rpc req node r))
    = (if prop_version req = 0 then store_of r
       else (if is_request_tail_node node req = Inr True then deliver_newest
             else record_local_write_if_newer)
              (prop_key req) (prop_value req) (prop_version req) (store_of r))"
  by (auto simp: crown_handle_propagate_def deliver_newest_def Let_def split: sum.splits)

lemma crown_write_queue:
  "queue (dispatcher (snd (crown_handle_write rpc req node r)))
    = queue (dispatcher r) @
      (if crown_node_count (config node) \<le> 1 then []
       else case successor_stub (support r) of None \<Rightarrow> []
         | Some s \<Rightarrow> [\<lparr>task_successor = s,
              task_req = make_propagate req (next_version (kstate r (wreq_key req)) + 1)
                           (to_string_int (Node_index node)),
              task_from = crown_node_label node\<rparr>])"
  by (simp add: crown_handle_write_def split_beta Let_def split: option.split)

lemma crown_propagate_queue:
  "queue (dispatcher (snd (crown_handle_propagate rpc req node r)))
    = queue (dispatcher r) @
      (if prop_version req = 0 \<or> is_request_tail_node node req \<noteq> Inr False then []
       else case successor_stub (support r) of None \<Rightarrow> []
         | Some s \<Rightarrow> [\<lparr>task_successor = s, task_req = req, task_from = crown_node_label node\<rparr>])"
  by (auto simp: crown_handle_propagate_def Let_def split: option.split sum.split)

lemma crown_write_acks:
  "wf_client_cache (support r) \<Longrightarrow>
    client_acks (snd (crown_handle_write rpc req node r))
      = client_acks r @
        (if crown_node_count (config node) \<le> 1 \<and> wreq_client_addr req \<noteq> []
         then [(wreq_client_addr req, make_ack (wreq_key req)
                 (next_version (kstate r (wreq_key req)) + 1) (wreq_client_addr req)
                 (wreq_request_id req))]
         else [])"
  by (simp add: crown_handle_write_def split_beta Let_def notify_client_acks make_ack_def)

lemma crown_propagate_acks:
  "wf_client_cache (support r) \<Longrightarrow>
    client_acks (snd (crown_handle_propagate rpc req node r))
      = client_acks r @
        (if prop_version req \<noteq> 0 \<and> is_request_tail_node node req = Inr True \<and>
            prop_client_addr req \<noteq> []
         then [(prop_client_addr req, make_ack (prop_key req) (prop_version req)
                 (prop_client_addr req) (prop_request_id req))]
         else [])"
  by (auto simp: crown_handle_propagate_def Let_def notify_client_acks make_ack_def split: sum.split)

lemma crown_stubs [frame_simps]:
  "successor_stub (support (snd (crown_handle_write rpc req node r))) = successor_stub (support r)"
  "successor_stub (support (snd (crown_handle_propagate rpc preq node r))) = successor_stub (support r)"
  "predecessor_stub (support (snd (crown_handle_write rpc req node r))) = predecessor_stub (support r)"
  "predecessor_stub (support (snd (crown_handle_propagate rpc preq node r))) = predecessor_stub (support r)"
  "tail_stub (support (snd (crown_handle_write rpc req node r))) = tail_stub (support r)"
  "tail_stub (support (snd (crown_handle_propagate rpc preq node r))) = tail_stub (support r)"
  by (simp_all add: crown_handler_defs split_beta Let_def split: sum.split)

lemma crown_caches [frame_simps]:
  "wf_client_cache (support r) \<Longrightarrow> wf_client_cache (support (snd (crown_handle_write rpc req node r)))"
  "wf_client_cache (support r) \<Longrightarrow> wf_client_cache (support (snd (crown_handle_propagate rpc preq node r)))"
  "pred_ack_queue (support (snd (crown_handle_write rpc req node r))) = pred_ack_queue (support r)"
  "pred_ack_queue (support (snd (crown_handle_propagate rpc preq node r))) = pred_ack_queue (support r)"
  by (simp_all add: crown_handler_defs split_beta Let_def split: sum.split)

lemma crown_propagate_result:
  "fst (crown_handle_propagate rpc req node r)
    = (if prop_version req = 0
       then Inl (Runtime_error ''CROWN propagate rejected: version must be non-zero'')
       else map_sum id (\<lambda>_. ()) (is_request_tail_node node req))"
  by (simp add: crown_handle_propagate_def Let_def split: sum.split)

subsection \<open>CROWN keeps the contract\<close>

interpretation crown: strategy crown_handle_write crown_handle_propagate crown_handle_ack
proof unfold_locales
  fix rpc :: Rpc and req :: WriteRequest and node :: Node and r :: Replica and key :: string
    and e :: cxx_exn and resp :: WriteResponse
  show "snd (crown_handle_write rpc req node r) = r"
    if "fst (crown_handle_write rpc req node r) = Inl e"
    using that by (simp add: crown_write_result)
  show "wresp_success resp \<and> wresp_version resp = next_version (kstate r (wreq_key req)) + 1"
    if "fst (crown_handle_write rpc req node r) = Inr resp"
    using that by (auto simp: crown_write_result)
  show "next_version (kstate (snd (crown_handle_write rpc req node r)) (wreq_key req)) = wresp_version resp"
    if "fst (crown_handle_write rpc req node r) = Inr resp"
    using that
    by (auto simp: crown_write_result crown_write_store Let_def newest.receive_next newest.deliver_next)
  show "wf_store (store_of (snd (crown_handle_write rpc req node r)))"
    if "wf_store (store_of r)" "next_version (kstate r (wreq_key req)) \<noteq> -1"
    using that
    by (auto simp: crown_write_store Let_def intro!: newest.receive_wf newest.deliver_wf wf_store_assign)
  show "store_of (snd (crown_handle_write rpc req node r)) key = store_of r key"
    if "key \<noteq> wreq_key req"
    using that by (auto simp: crown_write_store Let_def frame_simps newest.deliver_other)
  show "committed_version (kstate r key)
      \<le> committed_version (kstate (snd (crown_handle_write rpc req node r)) key)"
    by (cases "key = wreq_key req")
      (auto simp: crown_write_store Let_def newest.receive_committed newest.deliver_committed
        newest.receive_key_state_other newest.deliver_key_state_other key_state_other_key)
next
  fix rpc :: Rpc and preq :: PropagateRequest and node :: Node and r :: Replica and key :: string
  show "wf_store (store_of (snd (crown_handle_propagate rpc preq node r)))"
    if "wf_store (store_of r)"
    using that by (auto simp: crown_propagate_store intro: newest.receive_wf newest.deliver_wf)
  show "store_of (snd (crown_handle_propagate rpc preq node r)) key = store_of r key"
    if "key \<noteq> prop_key preq"
    using that by (auto simp: crown_propagate_store newest.receive_other newest.deliver_other)
  show "committed_version (kstate r key)
      \<le> committed_version (kstate (snd (crown_handle_propagate rpc preq node r)) key)"
    by (cases "key = prop_key preq")
      (auto simp: crown_propagate_store newest.receive_committed newest.deliver_committed
        newest.receive_key_state_other newest.deliver_key_state_other)
qed (simp_all add: crown_handle_ack_def)

end
