(* ===== verification/Server.thy ===== *)
theory Server
  imports Chain_Replication Craq_Replication Crown_Replication
begin

section \<open>The node server (src/src/server/server.cpp)\<close>

text \<open>
  \<open>ChainNodeServiceImpl\<close>: the node, the current strategy (absent until the first
  \<open>Configure\<close>) and the handlers of the six RPCs, which delegate to the strategy and turn
  exceptions into a status. A strategy object is its class, named by its mode, with its
  \<open>support_\<close> member; the propagate dispatchers are the function-local statics of the three
  strategy files, so they survive a change of strategy. The command line of \<open>main\<close> is
  modelled by its parser.
\<close>

record Server =
  the_node :: Node
  the_strategy :: "(ReplicationMode \<times> Support) option"
  dispatchers :: "ReplicationMode \<Rightarrow> PropagateDispatcher"
  ack_log :: "(stub \<times> AckRequest) list"

definition Server_init :: "nat \<Rightarrow> Server" where
  "Server_init hardware_concurrency =
     \<lparr>the_node = \<lparr>config = NodeConfig_default\<rparr>, the_strategy = None,
      dispatchers = (\<lambda>_. dispatcher_init hardware_concurrency), ack_log = []\<rparr>"

definition make_strategy :: "ReplicationMode \<Rightarrow> ReplicationMode \<times> Support" where
  "make_strategy m = (m, Support_init)"

definition server_mode_name :: "ReplicationMode \<Rightarrow> string" where
  "server_mode_name m =
     (case m of CHAIN \<Rightarrow> ''CHAIN'' | CRAQ \<Rightarrow> ''CRAQ'' | CROWN \<Rightarrow> ''CROWN'')"

subsection \<open>Configuration\<close>

definition addr_from_proto :: "pb_NodeAddress \<Rightarrow> NodeAddress" where
  "addr_from_proto p = \<lparr>host = pb_host p, port = pb_port p\<rparr>"

definition proto_to_config :: "pb_NodeConfig \<Rightarrow> cxx_exn + NodeConfig" where
  "proto_to_config p =
     (let cfg = NodeConfig_default\<lparr>
            node_id := to_string_int (pb_node_id p),
            node_index := pb_node_id p,
            self_addr := addr_from_proto (pb_self_addr p),
            is_head := pb_is_head p,
            is_tail := pb_is_tail p,
            crown_node_count := int (length (pb_head_ranges p)),
            predecessor := map_option addr_from_proto (pb_predecessor p),
            successor := map_option addr_from_proto (pb_successor p),
            tail_addr := map_option addr_from_proto (pb_tail p)\<rparr>
      in case pb_mode p of
           PB_CHAIN \<Rightarrow> Inr (cfg\<lparr>mode := CHAIN\<rparr>)
         | PB_CRAQ \<Rightarrow> Inr (cfg\<lparr>mode := CRAQ\<rparr>)
         | PB_CROWN \<Rightarrow> Inr (cfg\<lparr>mode := CROWN\<rparr>)
         | PB_unknown _ \<Rightarrow> Inl (Invalid_argument ''Unknown ReplicationMode in proto''))"

definition replica_of :: "Server \<Rightarrow> ReplicationMode \<times> Support \<Rightarrow> Replica" where
  "replica_of sv st =
     \<lparr>support = snd st, dispatcher = dispatchers sv (fst st), client_acks = ack_log sv\<rparr>"

definition put_replica :: "ReplicationMode \<Rightarrow> Replica \<Rightarrow> Server \<Rightarrow> Server" where
  "put_replica m r sv =
     sv\<lparr>the_strategy := Some (m, support r), dispatchers := (dispatchers sv)(m := dispatcher r),
        ack_log := client_acks r\<rparr>"

definition strategy_on_config_change :: "ReplicationMode \<Rightarrow> Node \<Rightarrow> Replica \<Rightarrow> Replica" where
  "strategy_on_config_change m =
     (case m of CHAIN \<Rightarrow> chain_on_config_change | CRAQ \<Rightarrow> craq_on_config_change
      | CROWN \<Rightarrow> crown_on_config_change)"

text \<open>\<open>Configure\<close> has no handler for exceptions: the one of \<open>proto_to_config\<close> leaves it.\<close>

definition rpc_Configure :: "pb_NodeConfig \<Rightarrow> Server \<Rightarrow> (cxx_exn + Status) \<times> Server" where
  "rpc_Configure req sv =
     (case proto_to_config req of
        Inl e \<Rightarrow> (Inl e, sv)
      | Inr cfg \<Rightarrow>
          (let st = (case the_strategy sv of
                       None \<Rightarrow> make_strategy (mode cfg)
                     | Some st \<Rightarrow> if mode cfg \<noteq> Node_mode (the_node sv)
                                  then make_strategy (mode cfg) else st);
               node = update_config cfg (the_node sv);
               sv = sv\<lparr>the_node := node\<rparr>;
               r = strategy_on_config_change (fst st) node (replica_of sv st)
           in (Inr Status_OK, put_replica (fst st) r sv)))"

subsection \<open>Requests\<close>

definition strategy_handle_write ::
    "ReplicationMode \<Rightarrow> Rpc \<Rightarrow> WriteRequest \<Rightarrow> Node \<Rightarrow> Replica \<Rightarrow> (cxx_exn + WriteResponse) \<times> Replica" where
  "strategy_handle_write m =
     (case m of CHAIN \<Rightarrow> chain_handle_write | CRAQ \<Rightarrow> craq_handle_write | CROWN \<Rightarrow> crown_handle_write)"

definition strategy_handle_read ::
    "ReplicationMode \<Rightarrow> Rpc \<Rightarrow> ReadRequest \<Rightarrow> Node \<Rightarrow> Replica \<Rightarrow> cxx_exn + ReadResponse" where
  "strategy_handle_read m rpc =
     (case m of CHAIN \<Rightarrow> chain_handle_read | CRAQ \<Rightarrow> craq_handle_read rpc
      | CROWN \<Rightarrow> crown_handle_read)"

definition strategy_handle_propagate ::
    "ReplicationMode \<Rightarrow> Rpc \<Rightarrow> PropagateRequest \<Rightarrow> Node \<Rightarrow> Replica \<Rightarrow> (cxx_exn + unit) \<times> Replica" where
  "strategy_handle_propagate m =
     (case m of CHAIN \<Rightarrow> chain_handle_propagate | CRAQ \<Rightarrow> craq_handle_propagate
      | CROWN \<Rightarrow> crown_handle_propagate)"

definition strategy_handle_ack ::
    "ReplicationMode \<Rightarrow> AckRequest \<Rightarrow> Node \<Rightarrow> Replica \<Rightarrow> (cxx_exn + unit) \<times> Replica" where
  "strategy_handle_ack m =
     (case m of CHAIN \<Rightarrow> chain_handle_ack | CRAQ \<Rightarrow> craq_handle_ack | CROWN \<Rightarrow> crown_handle_ack)"

definition strategy_handle_version_query ::
    "ReplicationMode \<Rightarrow> Rpc \<Rightarrow> VersionQueryRequest \<Rightarrow> Node \<Rightarrow> Replica \<Rightarrow> cxx_exn + VersionQueryResponse" where
  "strategy_handle_version_query m =
     (case m of CHAIN \<Rightarrow> base_handle_version_query | CRAQ \<Rightarrow> craq_handle_version_query
      | CROWN \<Rightarrow> base_handle_version_query)"

definition not_configured :: Status where
  "not_configured = \<lparr>code = FAILED_PRECONDITION, error_message = ''Node not configured yet''\<rparr>"

definition status_of :: "StatusCode \<Rightarrow> cxx_exn + 'a \<Rightarrow> Status \<times> 'a option" where
  "status_of c res =
     (case res of Inl ex \<Rightarrow> (\<lparr>code = c, error_message = what ex\<rparr>, None)
      | Inr x \<Rightarrow> (Status_OK, Some x))"

text \<open>Each RPC: the status, the response it filled in (none on an error) and the new server.\<close>

definition rpc_Write :: "Rpc \<Rightarrow> WriteRequest \<Rightarrow> Server \<Rightarrow> (Status \<times> WriteResponse option) \<times> Server" where
  "rpc_Write rpc req sv =
     (case the_strategy sv of
        None \<Rightarrow> ((not_configured, None), sv)
      | Some st \<Rightarrow>
          (let (res, r) = strategy_handle_write (fst st) rpc req (the_node sv) (replica_of sv st)
           in (status_of INTERNAL res, put_replica (fst st) r sv)))"

definition rpc_Read :: "Rpc \<Rightarrow> ReadRequest \<Rightarrow> Server \<Rightarrow> Status \<times> ReadResponse option" where
  "rpc_Read rpc req sv =
     (case the_strategy sv of
        None \<Rightarrow> (not_configured, None)
      | Some st \<Rightarrow>
          status_of INTERNAL (strategy_handle_read (fst st) rpc req (the_node sv) (replica_of sv st)))"

definition rpc_Propagate :: "Rpc \<Rightarrow> PropagateRequest \<Rightarrow> Server \<Rightarrow> (Status \<times> unit option) \<times> Server" where
  "rpc_Propagate rpc req sv =
     (case the_strategy sv of
        None \<Rightarrow> ((not_configured, None), sv)
      | Some st \<Rightarrow>
          (let (res, r) = strategy_handle_propagate (fst st) rpc req (the_node sv) (replica_of sv st)
           in (status_of INTERNAL res, put_replica (fst st) r sv)))"

definition rpc_Ack :: "AckRequest \<Rightarrow> Server \<Rightarrow> (Status \<times> unit option) \<times> Server" where
  "rpc_Ack req sv =
     (case the_strategy sv of
        None \<Rightarrow> ((not_configured, None), sv)
      | Some st \<Rightarrow>
          (let (res, r) = strategy_handle_ack (fst st) req (the_node sv) (replica_of sv st)
           in (status_of INTERNAL res, put_replica (fst st) r sv)))"

definition rpc_VersionQuery ::
    "Rpc \<Rightarrow> VersionQueryRequest \<Rightarrow> Server \<Rightarrow> Status \<times> VersionQueryResponse option" where
  "rpc_VersionQuery rpc req sv =
     (case the_strategy sv of
        None \<Rightarrow> (not_configured, None)
      | Some st \<Rightarrow>
          status_of UNIMPLEMENTED
            (strategy_handle_version_query (fst st) rpc req (the_node sv) (replica_of sv st)))"

lemmas rpc_defs = rpc_Write_def rpc_Read_def rpc_Propagate_def rpc_Ack_def rpc_VersionQuery_def
lemmas strategy_dispatch_defs = strategy_handle_write_def strategy_handle_read_def
  strategy_handle_propagate_def strategy_handle_ack_def strategy_handle_version_query_def
  strategy_on_config_change_def

subsection \<open>Command line\<close>

definition lower_char :: "char \<Rightarrow> char" where
  "lower_char c =
     (let n = (of_char c :: nat) in if 65 \<le> n \<and> n \<le> 90 then char_of (n + 32) else c)"

definition parse_bool_flag :: "string \<Rightarrow> bool option" where
  "parse_bool_flag raw =
     (let normalized = map lower_char raw
      in if normalized \<in> {''1'', ''true'', ''yes'', ''y'', ''on''} then Some True
         else if normalized \<in> {''0'', ''false'', ''no'', ''n'', ''off''} then Some False
         else None)"

datatype server_start =
    Exit_code int
  | Serve string string bool

fun server_args :: "string \<Rightarrow> string \<Rightarrow> bool \<Rightarrow> string list \<Rightarrow> server_start" where
  "server_args h p log [] = Serve h p log"
| "server_args h p log (arg # rest) =
     (if arg = ''--help'' \<or> arg = ''-h'' then Exit_code 0
      else if arg = ''--host'' \<or> arg = ''--port'' \<or> arg = ''--server-log''
      then case rest of
             [] \<Rightarrow> Exit_code 1
           | v # rest' \<Rightarrow>
               if arg = ''--host'' then server_args v p log rest'
               else if arg = ''--port'' then server_args h v log rest'
               else (case parse_bool_flag v of
                       None \<Rightarrow> Exit_code 1
                     | Some b \<Rightarrow> server_args h p b rest')
      else Exit_code 1)"

definition server_main_args :: "string list \<Rightarrow> server_start" where
  "server_main_args args = server_args ''0.0.0.0'' ''50051'' False args"

text \<open>
  The process: it ends at once, or it serves for good on the address it is bound to, with a
  service that is not configured yet. \<open>binds\<close> tells whether the gRPC server comes up on an address.
\<close>

datatype server_process =
    Server_exits int
  | Serves string bool Server

definition server_main :: "(string \<Rightarrow> bool) \<Rightarrow> nat \<Rightarrow> string list \<Rightarrow> server_process" where
  "server_main binds hardware_concurrency args =
     (case server_main_args args of
        Exit_code e \<Rightarrow> Server_exits e
      | Serve h p server_log_enabled \<Rightarrow>
          (let addr = h @ '':'' @ p
           in if \<not> binds addr then Server_exits 1
              else Serves addr server_log_enabled (Server_init hardware_concurrency)))"

lemma server_args_append:
  "server_args h p log xs = Serve h' p' log' \<Longrightarrow> server_args h p log (xs @ ys) = server_args h' p' log' ys"
  by (induction h p log xs rule: server_args.induct)
    (auto split: if_splits list.splits option.splits)

subsection \<open>The strategy always matches the configured mode\<close>

text \<open>
  The invariant of the service: the strategy, once there is one, is of the node's mode, its
  store is well-formed and its client cache consistent.
\<close>

definition server_inv :: "Server \<Rightarrow> bool" where
  "server_inv sv \<longleftrightarrow>
     (case the_strategy sv of
        None \<Rightarrow> True
      | Some (m, s) \<Rightarrow> m = Node_mode (the_node sv) \<and> wf_store (by_key s) \<and> wf_client_cache s)"

lemma server_inv_init [simp]: "server_inv (Server_init hw)"
  by (simp add: server_inv_def Server_init_def)

lemma replica_of_simps [simp]:
  "support (replica_of sv st) = snd st" "dispatcher (replica_of sv st) = dispatchers sv (fst st)"
  "client_acks (replica_of sv st) = ack_log sv"
  by (simp_all add: replica_of_def)

lemma put_replica_simps [simp]:
  "the_node (put_replica m r sv) = the_node sv"
  "the_strategy (put_replica m r sv) = Some (m, support r)"
  "dispatchers (put_replica m r sv) = (dispatchers sv)(m := dispatcher r)"
  "ack_log (put_replica m r sv) = client_acks r"
  by (simp_all add: put_replica_def)

lemma strategy_write_wf:
  assumes "wf_store (store_of r)" "wf_client_cache (support r)"
    "next_version (kstate r (wreq_key req)) \<noteq> -1"
  shows "wf_store (store_of (snd (strategy_handle_write m rpc req node r)))
    \<and> wf_client_cache (support (snd (strategy_handle_write m rpc req node r)))"
  using assms
  by (cases m) (auto simp: strategy_handle_write_def frame_simps
      intro: chain.write_wf craq.write_wf crown.write_wf)

lemma strategy_propagate_wf:
  assumes "wf_store (store_of r)" "wf_client_cache (support r)"
  shows "wf_store (store_of (snd (strategy_handle_propagate m rpc req node r)))
    \<and> wf_client_cache (support (snd (strategy_handle_propagate m rpc req node r)))"
  using assms
  by (cases m) (auto simp: strategy_handle_propagate_def frame_simps
      intro: chain.propagate_wf craq.propagate_wf crown.propagate_wf)

lemma strategy_ack_wf:
  assumes "wf_store (store_of r)" "wf_client_cache (support r)"
  shows "wf_store (store_of (snd (strategy_handle_ack m req node r)))
    \<and> wf_client_cache (support (snd (strategy_handle_ack m req node r)))"
  using assms
  by (cases m) (auto simp: strategy_handle_ack_def chain_handle_ack_def crown_handle_ack_def
      frame_simps intro: craq.ack_wf)

lemma strategy_on_config_change_frame:
  "store_of (strategy_on_config_change m node r) = store_of r"
  "wf_client_cache (support (strategy_on_config_change m node r)) = wf_client_cache (support r)"
  "dispatcher (strategy_on_config_change m node r) = dispatcher r"
  "client_acks (strategy_on_config_change m node r) = client_acks r"
  "pred_ack_queue (support (strategy_on_config_change m node r)) = pred_ack_queue (support r)"
  by (cases m; simp add: strategy_on_config_change_def chain_on_config_change_def
      craq_on_config_change_def crown_on_config_change_def frame_simps start_ack_workers_simps
      wf_client_cache_def start_ack_workers_def stop_ack_workers_def)+

lemma server_inv_Write:
  assumes "server_inv sv"
    and "\<And>m s. the_strategy sv = Some (m, s) \<Longrightarrow> next_version (key_state (by_key s) (wreq_key req)) \<noteq> -1"
  shows "server_inv (snd (rpc_Write rpc req sv))"
proof (cases "the_strategy sv")
  case None
  then show ?thesis using assms(1) by (simp add: rpc_Write_def)
next
  case (Some st)
  obtain m s where st: "st = (m, s)" by (cases st)
  show ?thesis
    using assms(1) assms(2) [of m s] Some st
      strategy_write_wf [of "replica_of sv st" req m rpc "the_node sv"]
    by (simp add: rpc_Write_def server_inv_def split_beta)
qed

lemma server_inv_Propagate:
  assumes "server_inv sv"
  shows "server_inv (snd (rpc_Propagate rpc req sv))"
proof (cases "the_strategy sv")
  case None
  then show ?thesis using assms by (simp add: rpc_Propagate_def)
next
  case (Some st)
  then show ?thesis
    using assms strategy_propagate_wf [of "replica_of sv st" "fst st" rpc req "the_node sv"]
    by (simp add: rpc_Propagate_def server_inv_def split_beta)
qed

lemma server_inv_Ack:
  assumes "server_inv sv"
  shows "server_inv (snd (rpc_Ack req sv))"
proof (cases "the_strategy sv")
  case None
  then show ?thesis using assms by (simp add: rpc_Ack_def)
next
  case (Some st)
  then show ?thesis
    using assms strategy_ack_wf [of "replica_of sv st" "fst st" req "the_node sv"]
    by (simp add: rpc_Ack_def server_inv_def split_beta)
qed

lemma proto_to_config_mode:
  "proto_to_config p = Inr cfg \<Longrightarrow> pb_mode p = (case mode cfg of CHAIN \<Rightarrow> PB_CHAIN | CRAQ \<Rightarrow> PB_CRAQ | CROWN \<Rightarrow> PB_CROWN)"
  by (auto simp: proto_to_config_def Let_def split: pb_ReplicationMode.splits)

lemma server_inv_Configure:
  assumes "server_inv sv"
  shows "server_inv (snd (rpc_Configure req sv))"
proof (cases "proto_to_config req")
  case (Inr cfg)
  let ?fresh = "make_strategy (mode cfg)"
  obtain st where st: "st = (case the_strategy sv of None \<Rightarrow> ?fresh
      | Some st \<Rightarrow> if mode cfg \<noteq> Node_mode (the_node sv) then ?fresh else st)" by blast
  have "fst st = mode cfg \<and> wf_store (by_key (snd st)) \<and> wf_client_cache (snd st)"
    using assms st
    by (auto simp: server_inv_def make_strategy_def Support_init_def wf_client_cache_def
        split: option.splits if_splits)
  then show ?thesis
    using Inr st
    by (simp add: rpc_Configure_def Let_def server_inv_def split_beta
        strategy_on_config_change_frame update_config_def Node_mode_def)
qed (use assms in \<open>simp add: rpc_Configure_def\<close>)

end
