(* ===== verification/Chain_Spec.thy ===== *)
theory Chain_Spec
  imports Prelude
begin

section \<open>What a replication chain promises, for one key\<close>

text \<open>
  The abstract machine the three strategies implement, for one key and a chain of \<open>n\<close>
  positions, 0 the head and \<open>n - 1\<close> the tail. Versions are natural numbers, counted up by
  the head without bound. Each position has the set of versions it has received
  (\<open>hist\<close>); \<open>sent\<close> holds every version ever sent on to a position, so a message may be
  delivered late, out of order, repeatedly or never; \<open>cleans\<close> holds the acks sent back by
  the tail (CRAQ only) and \<open>clean\<close> the newest version acknowledged at a position; \<open>done\<close>
  the versions the client was told about.

  The invariant is the update propagation invariant of chain replication: what a position
  has received, every position before it has received. From it follow the facts the
  concrete clusters use: the tail's newest version is never ahead of any other position, an
  acknowledged version is never ahead of the tail, and a position with nothing newer than
  its acknowledged version holds exactly the tail's newest version.
\<close>

record pipeline =
  issued :: "nat \<rightharpoonup> string"
  assigned :: nat
  hist :: "nat \<Rightarrow> nat set"
  sent :: "(nat \<times> nat) set"
  clean :: "nat \<Rightarrow> nat"
  cleans :: "(nat \<times> nat) set"
  done_set :: "nat set"

definition pipeline_init :: pipeline where
  "pipeline_init =
     \<lparr>issued = Map.empty, assigned = 0, hist = (\<lambda>_. {}), sent = {}, clean = (\<lambda>_. 0), cleans = {},
      done_set = {}\<rparr>"

definition pl_write :: "nat \<Rightarrow> string \<Rightarrow> pipeline \<Rightarrow> pipeline" where
  "pl_write n x p =
     (let v = Suc (assigned p)
      in p\<lparr>issued := (issued p)(v \<mapsto> x), assigned := v,
           hist := (hist p)(0 := insert v (hist p 0)),
           sent := (if n = 1 then sent p else insert (1, v) (sent p)),
           done_set := (if n = 1 then insert v (done_set p) else done_set p)\<rparr>)"

definition pl_receive :: "nat \<Rightarrow> nat \<Rightarrow> nat \<Rightarrow> pipeline \<Rightarrow> pipeline" where
  "pl_receive n j v p =
     p\<lparr>hist := (hist p)(j := insert v (hist p j)),
       sent := (if Suc j = n then sent p else insert (Suc j, v) (sent p)),
       cleans := (if Suc j = n then insert (j - 1, v) (cleans p) else cleans p),
       done_set := (if Suc j = n then insert v (done_set p) else done_set p)\<rparr>"

definition pl_clean :: "nat \<Rightarrow> nat \<Rightarrow> pipeline \<Rightarrow> pipeline" where
  "pl_clean j v p =
     p\<lparr>clean := (clean p)(j := max (clean p j) v),
       cleans := (if j = 0 then cleans p else insert (j - 1, v) (cleans p))\<rparr>"

inductive pl_step :: "nat \<Rightarrow> pipeline \<Rightarrow> pipeline \<Rightarrow> bool" for n :: nat where
  head_write: "pl_step n p (pl_write n x p)"
| next_receive: "(j, v) \<in> sent p \<Longrightarrow> pl_step n p (pl_receive n j v p)"
| ack_clean: "(j, v) \<in> cleans p \<Longrightarrow> pl_step n p (pl_clean j v p)"

inductive pl_reach :: "nat \<Rightarrow> pipeline \<Rightarrow> bool" for n :: nat where
  pl_start: "pl_reach n pipeline_init"
| pl_next: "pl_reach n p \<Longrightarrow> pl_step n p q \<Longrightarrow> pl_reach n q"

subsection \<open>The update propagation invariant\<close>

definition pl_inv :: "nat \<Rightarrow> pipeline \<Rightarrow> bool" where
  "pl_inv n p \<longleftrightarrow>
     hist p 0 = {1..assigned p} \<and> dom (issued p) = {1..assigned p} \<and>
     (\<forall>i j. i \<le> j \<and> j < n \<longrightarrow> hist p j \<subseteq> hist p i) \<and>
     (\<forall>j v. (j, v) \<in> sent p \<longrightarrow> 0 < j \<and> j < n \<and> v \<in> hist p (j - 1)) \<and>
     (\<forall>j v. (j, v) \<in> cleans p \<longrightarrow> Suc j < n \<and> v \<in> hist p (n - 1)) \<and>
     (\<forall>j. clean p j \<noteq> 0 \<longrightarrow> clean p j \<in> hist p (n - 1)) \<and>
     done_set p \<subseteq> hist p (n - 1)"

lemma pl_invD:
  assumes "pl_inv n p"
  shows "hist p 0 = {1..assigned p}" "dom (issued p) = {1..assigned p}"
    "\<And>i j. i \<le> j \<Longrightarrow> j < n \<Longrightarrow> hist p j \<subseteq> hist p i"
    "\<And>j v. (j, v) \<in> sent p \<Longrightarrow> 0 < j \<and> j < n \<and> v \<in> hist p (j - 1)"
    "\<And>j v. (j, v) \<in> cleans p \<Longrightarrow> Suc j < n \<and> v \<in> hist p (n - 1)"
    "\<And>j. clean p j \<noteq> 0 \<Longrightarrow> clean p j \<in> hist p (n - 1)"
    "done_set p \<subseteq> hist p (n - 1)"
  using assms by (auto simp: pl_inv_def)

lemma pl_inv_init: "pl_inv n pipeline_init"
  by (simp add: pl_inv_def pipeline_init_def)

lemma pl_inv_write:
  assumes "pl_inv n p" "1 \<le> n"
  shows "pl_inv n (pl_write n x p)"
proof -
  note inv = pl_invD [OF assms(1)]
  have top_set: "insert (Suc (assigned p)) {1..assigned p} = {1..Suc (assigned p)}" by auto
  show ?thesis
    unfolding pl_inv_def
  proof (intro conjI allI impI)
    fix i j assume ij: "i \<le> j \<and> j < n"
    then show "hist (pl_write n x p) j \<subseteq> hist (pl_write n x p) i"
      using inv(3) [of i j] by (auto simp: pl_write_def Let_def)
  next
    fix j v assume "(j, v) \<in> sent (pl_write n x p)"
    then show "0 < j" "j < n" "v \<in> hist (pl_write n x p) (j - 1)"
      using inv(4) [of j v] assms(2) by (auto simp: pl_write_def Let_def split: if_splits)
  next
    fix j v assume "(j, v) \<in> cleans (pl_write n x p)"
    then show "Suc j < n" "v \<in> hist (pl_write n x p) (n - 1)"
      using inv(5) [of j v] by (auto simp: pl_write_def Let_def)
  next
    fix j assume "clean (pl_write n x p) j \<noteq> 0"
    then show "clean (pl_write n x p) j \<in> hist (pl_write n x p) (n - 1)"
      using inv(6) [of j] by (auto simp: pl_write_def Let_def)
  qed (use inv(1,2,7) top_set assms(2) in \<open>auto simp: pl_write_def Let_def\<close>)
qed

lemma pl_inv_receive:
  assumes "pl_inv n p" "(j, v) \<in> sent p"
  shows "pl_inv n (pl_receive n j v p)"
proof -
  note inv = pl_invD [OF assms(1)]
  from inv(4) [OF assms(2)] have j: "0 < j" "j < n" "v \<in> hist p (j - 1)" by auto
  have below: "v \<in> hist p i" if "i < j" for i
    using inv(3) [of i "j - 1"] j that by (metis less_eq_Suc_le Suc_diff_1 less_Suc_eq_le less_imp_diff_less subsetD)
  show ?thesis
    unfolding pl_inv_def
  proof (intro conjI allI impI)
    fix a b assume "a \<le> b \<and> b < n"
    then show "hist (pl_receive n j v p) b \<subseteq> hist (pl_receive n j v p) a"
      using inv(3) [of a b] below [of a] by (auto simp: pl_receive_def)
  next
    fix i w assume "(i, w) \<in> sent (pl_receive n j v p)"
    then show "0 < i" "i < n" "w \<in> hist (pl_receive n j v p) (i - 1)"
      using inv(4) [of i w] j by (auto simp: pl_receive_def split: if_splits)
  next
    fix i w assume "(i, w) \<in> cleans (pl_receive n j v p)"
    then show "Suc i < n" "w \<in> hist (pl_receive n j v p) (n - 1)"
      using inv(5) [of i w] j by (auto simp: pl_receive_def split: if_splits)
  next
    fix i assume "clean (pl_receive n j v p) i \<noteq> 0"
    then show "clean (pl_receive n j v p) i \<in> hist (pl_receive n j v p) (n - 1)"
      using inv(6) [of i] by (auto simp: pl_receive_def)
  qed (use inv(1,2,7) j in \<open>auto simp: pl_receive_def\<close>)
qed

lemma pl_inv_clean:
  assumes "pl_inv n p" "(j, v) \<in> cleans p"
  shows "pl_inv n (pl_clean j v p)"
proof -
  note inv = pl_invD [OF assms(1)]
  have j: "Suc j < n" "v \<in> hist p (n - 1)" using inv(5) [OF assms(2)] by auto
  show ?thesis
    unfolding pl_inv_def
  proof (intro conjI allI impI)
    fix i w assume "(i, w) \<in> cleans (pl_clean j v p)"
    then show "Suc i < n" "w \<in> hist (pl_clean j v p) (n - 1)"
      using inv(5) [of i w] j by (auto simp: pl_clean_def split: if_splits)
  next
    fix i assume "clean (pl_clean j v p) i \<noteq> 0"
    then show "clean (pl_clean j v p) i \<in> hist (pl_clean j v p) (n - 1)"
      using inv(6) [of i] j by (auto simp: pl_clean_def max_def split: if_splits)
  qed (use inv in \<open>auto simp: pl_clean_def\<close>)
qed

lemma pl_reach_inv: "pl_reach n p \<Longrightarrow> 1 \<le> n \<Longrightarrow> pl_inv n p"
  by (induction rule: pl_reach.induct)
    (auto simp: pl_inv_init elim!: pl_step.cases intro: pl_inv_write pl_inv_receive pl_inv_clean)

subsection \<open>Consequences\<close>

lemma pl_finite: "pl_inv n p \<Longrightarrow> j < n \<Longrightarrow> finite (hist p j)"
  using pl_invD(1,3) [of n p] finite_subset [of "hist p j" "{1..assigned p}"] by auto

lemma pl_hist_range: "pl_inv n p \<Longrightarrow> j < n \<Longrightarrow> v \<in> hist p j \<Longrightarrow> 1 \<le> v \<and> v \<le> assigned p"
  using pl_invD(1,3) [of n p] by fastforce

lemma pl_newest_mono:
  "pl_inv n p \<Longrightarrow> i \<le> j \<Longrightarrow> j < n \<Longrightarrow> Max0 (hist p j) \<le> Max0 (hist p i)"
  by (intro Max0_mono pl_finite pl_invD(3)) auto

lemma pl_clean_le_tail: "pl_inv n p \<Longrightarrow> 1 \<le> n \<Longrightarrow> clean p j \<le> Max0 (hist p (n - 1))"
  using pl_invD(6) [of n p j] pl_finite [of n p "n - 1"] Max0_ge
  by (cases "clean p j = 0") auto

lemma pl_clean_read:
  assumes "pl_inv n p" "1 \<le> n" "j < n" "Max0 (hist p j) \<le> clean p j"
  shows "clean p j = Max0 (hist p (n - 1))"
  using pl_newest_mono [OF assms(1), of j "n - 1"] pl_clean_le_tail [OF assms(1,2), of j] assms
  by linarith

lemma pl_tail_subset: "pl_inv n p \<Longrightarrow> j < n \<Longrightarrow> hist p (n - 1) \<subseteq> hist p j"
  by (rule pl_invD(3)) (assumption | arith)+

lemma pl_tail_newest_everywhere:
  assumes "pl_inv n p" "j < n" "Max0 (hist p (n - 1)) \<noteq> 0"
  shows "Max0 (hist p (n - 1)) \<in> hist p j"
  using pl_tail_subset [OF assms(1,2)] Max0_in [OF pl_finite [OF assms(1)], of "n - 1"] assms
  by auto

lemma pl_done_everywhere:
  "pl_inv n p \<Longrightarrow> v \<in> done_set p \<Longrightarrow> j < n \<Longrightarrow> v \<in> hist p j"
  using pl_tail_subset [of n p j] pl_invD(7) [of n p] by auto

lemma pl_done_le_tail:
  "pl_inv n p \<Longrightarrow> v \<in> done_set p \<Longrightarrow> 1 \<le> n \<Longrightarrow> v \<le> Max0 (hist p (n - 1))"
  using pl_invD(7) [of n p] pl_finite [of n p "n - 1"] by (auto intro: Max0_ge)

end
