(* ===== verification/Cluster.thy ===== *)
theory Cluster
  imports Server Chain_Spec
begin

section \<open>Servers connected by RPCs\<close>

text \<open>
  A cluster is a set of server processes, each reached under its endpoint (the target string
  of its stubs), the Propagate and Ack RPCs that have been issued and not yet arrived, and
  the log of the writes the servers accepted, which is what the clients have been told:
  key, version and value. A step is one thing happening in one process: a client's write is
  handled, a dispatcher worker takes a task and issues the RPC, a call in flight is handled
  by the server it names or fails, the ack worker takes a turn. Calls in flight arrive in any
  order, because the dispatcher has several workers; the network may lose any of them.
  The clusters start configured and the topology stays; a server may be sent the configuration
  it has again, as every client does that starts with the set-up flag.

  The locale \<open>replication_chain\<close> is the contract between the handlers of one strategy and the
  abstract machine of \<open>Chain_Spec\<close>: what each handler must do to the state of the key \<open>k\<close> at
  position \<open>j\<close>. Inside it every reachable cluster is shown to implement a reachable state of
  the abstract machine, and the facts about reads, acks and replicas are derived.
\<close>

record Cluster =
  servers :: "stub \<rightharpoonup> Server"
  prop_calls :: "(stub \<times> PropagateRequest) list"
  ack_calls :: "(stub \<times> AckRequest) list"
  accepted :: "(string \<times> u64 \<times> string) list"

datatype cluster_event =
    Client_write stub WriteRequest
  | Worker_take stub ReplicationMode PropagateTask
  | Worker_complete stub ReplicationMode PropagateTask
  | Deliver_propagate stub PropagateRequest
  | Lose_propagate stub PropagateRequest
  | Ack_turn stub
  | Deliver_ack stub AckRequest
  | Lose_ack stub AckRequest
  | Configure_again stub pb_NodeConfig

definition accepted_entry :: "WriteRequest \<Rightarrow> WriteResponse option \<Rightarrow> (string \<times> u64 \<times> string) list" where
  "accepted_entry req resp =
     (case resp of None \<Rightarrow> [] | Some w \<Rightarrow> [(wreq_key req, wresp_version w, wreq_value req)])"

fun turn_call :: "ack_turn \<Rightarrow> (stub \<times> AckRequest) list" where
  "turn_call (Call b r) = [(b, r)]"
| "turn_call _ = []"

definition put_server :: "stub \<Rightarrow> Server \<Rightarrow> Cluster \<Rightarrow> Cluster" where
  "put_server a sv c = c\<lparr>servers := (servers c)(a \<mapsto> sv)\<rparr>"

definition put_dispatcher :: "ReplicationMode \<Rightarrow> PropagateDispatcher \<Rightarrow> Server \<Rightarrow> Server" where
  "put_dispatcher m d sv = sv\<lparr>dispatchers := (dispatchers sv)(m := d)\<rparr>"

definition put_support :: "ReplicationMode \<Rightarrow> Support \<Rightarrow> Server \<Rightarrow> Server" where
  "put_support m s sv = sv\<lparr>the_strategy := Some (m, s)\<rparr>"

inductive cluster_step :: "Cluster \<Rightarrow> cluster_event \<Rightarrow> Cluster \<Rightarrow> bool" where
  client_write:
    "servers c a = Some sv \<Longrightarrow> rpc_Write rpc req sv = ((st, resp), sv') \<Longrightarrow>
     cluster_step c (Client_write a req)
       ((put_server a sv' c)\<lparr>accepted := accepted c @ accepted_entry req resp\<rparr>)"
| worker_take:
    "servers c a = Some sv \<Longrightarrow> disp_step (dispatchers sv m) (Take t) d \<Longrightarrow>
     cluster_step c (Worker_take a m t)
       ((put_server a (put_dispatcher m d sv) c)
          \<lparr>prop_calls := prop_calls c @ [(task_successor t, task_req t)]\<rparr>)"
| worker_complete:
    "servers c a = Some sv \<Longrightarrow> disp_step (dispatchers sv m) (Complete t) d \<Longrightarrow>
     cluster_step c (Worker_complete a m t) (put_server a (put_dispatcher m d sv) c)"
| deliver_propagate:
    "(b, req) \<in> set (prop_calls c) \<Longrightarrow> servers c b = Some sv \<Longrightarrow>
     rpc_Propagate rpc req sv = (res, sv') \<Longrightarrow>
     cluster_step c (Deliver_propagate b req)
       ((put_server b sv' c)\<lparr>prop_calls := remove1 (b, req) (prop_calls c)\<rparr>)"
| lose_propagate:
    "(b, req) \<in> set (prop_calls c) \<Longrightarrow>
     cluster_step c (Lose_propagate b req) (c\<lparr>prop_calls := remove1 (b, req) (prop_calls c)\<rparr>)"
| ack_worker:
    "servers c a = Some sv \<Longrightarrow> the_strategy sv = Some (m, s) \<Longrightarrow> ack_worker_turn s = (turn, s') \<Longrightarrow>
     cluster_step c (Ack_turn a)
       ((put_server a (put_support m s' sv) c)\<lparr>ack_calls := ack_calls c @ turn_call turn\<rparr>)"
| deliver_ack:
    "(b, req) \<in> set (ack_calls c) \<Longrightarrow> servers c b = Some sv \<Longrightarrow>
     rpc_Ack req sv = (res, sv') \<Longrightarrow>
     cluster_step c (Deliver_ack b req)
       ((put_server b sv' c)\<lparr>ack_calls := remove1 (b, req) (ack_calls c)\<rparr>)"
| lose_ack:
    "(b, req) \<in> set (ack_calls c) \<Longrightarrow>
     cluster_step c (Lose_ack b req) (c\<lparr>ack_calls := remove1 (b, req) (ack_calls c)\<rparr>)"
| configure_again:
    "servers c a = Some sv \<Longrightarrow> the_strategy sv = Some (Node_mode (the_node sv), s) \<Longrightarrow>
     proto_to_config cfg = Inr (config (the_node sv)) \<Longrightarrow> rpc_Configure cfg sv = (res, sv') \<Longrightarrow>
     cluster_step c (Configure_again a cfg) (put_server a sv' c)"

text \<open>Runs whose events all satisfy \<open>allowed\<close>.\<close>

inductive cluster_reach :: "(cluster_event \<Rightarrow> bool) \<Rightarrow> Cluster \<Rightarrow> Cluster \<Rightarrow> bool"
  for allowed :: "cluster_event \<Rightarrow> bool" and c0 :: Cluster where
  reach_start: "cluster_reach allowed c0 c0"
| reach_step: "cluster_reach allowed c0 c \<Longrightarrow> cluster_step c e c' \<Longrightarrow> allowed e \<Longrightarrow>
    cluster_reach allowed c0 c'"

lemma put_server_simps [simp]:
  "servers (put_server a sv c) = (servers c)(a \<mapsto> sv)"
  "prop_calls (put_server a sv c) = prop_calls c" "ack_calls (put_server a sv c) = ack_calls c"
  "accepted (put_server a sv c) = accepted c"
  by (simp_all add: put_server_def)

lemma put_dispatcher_simps [simp]:
  "the_node (put_dispatcher m d sv) = the_node sv"
  "the_strategy (put_dispatcher m d sv) = the_strategy sv"
  "dispatchers (put_dispatcher m d sv) = (dispatchers sv)(m := d)"
  "ack_log (put_dispatcher m d sv) = ack_log sv"
  by (simp_all add: put_dispatcher_def)

lemma put_support_simps [simp]:
  "the_node (put_support m s sv) = the_node sv"
  "the_strategy (put_support m s sv) = Some (m, s)"
  "dispatchers (put_support m s sv) = dispatchers sv"
  "ack_log (put_support m s sv) = ack_log sv"
  by (simp_all add: put_support_def)

lemma cluster_step_accepted_prefix:
  "cluster_step c e c' \<Longrightarrow> \<exists>ys. accepted c' = accepted c @ ys"
  by (auto elim!: cluster_step.cases)

lemma cluster_step_accepted_length:
  "cluster_step c e c' \<Longrightarrow> length (accepted c) \<le> length (accepted c')"
  by (auto dest!: cluster_step_accepted_prefix)

subsection \<open>What a cluster has to do with the abstract machine\<close>

definition node_ok :: "nat \<Rightarrow> ReplicationMode \<Rightarrow> string \<Rightarrow> pipeline \<Rightarrow> nat \<Rightarrow> KeyState \<Rightarrow> bool" where
  "node_ok n m k p j ks \<longleftrightarrow>
     unat (latest_seen_version ks) = Max0 (hist p j) \<and>
     agrees (\<lambda>v. issued p (unat v)) ks \<and>
     unat (committed_version ks) =
       (if Suc j = n then Max0 (hist p j) else if m = CRAQ then clean p j else 0) \<and>
     (j = 0 \<longrightarrow> unat (next_version ks) = assigned p) \<and>
     (m = CRAQ \<longrightarrow> (\<forall>v \<in> hist p j. v \<le> unat (committed_version ks) \<or>
        pending_versions ks (word_of_nat v) \<noteq> None))"

text \<open>A Propagate for \<open>k\<close> goes to a position it was sent to, with the value it was issued with.\<close>

definition prop_ok :: "(nat \<Rightarrow> stub) \<Rightarrow> string \<Rightarrow> string \<Rightarrow> pipeline \<Rightarrow> stub \<times> PropagateRequest \<Rightarrow> bool" where
  "prop_ok at k origin p x \<longleftrightarrow>
     (prop_key (snd x) = k \<longrightarrow>
        (\<exists>j. (j, unat (prop_version (snd x))) \<in> sent p \<and> fst x = at j) \<and>
        issued p (unat (prop_version (snd x))) = Some (prop_value (snd x)) \<and>
        prop_origin_id (snd x) = origin)"

definition ack_ok :: "(nat \<Rightarrow> stub) \<Rightarrow> string \<Rightarrow> pipeline \<Rightarrow> stub \<times> AckRequest \<Rightarrow> bool" where
  "ack_ok at k p x \<longleftrightarrow>
     (ack_key (snd x) = k \<longrightarrow> (\<exists>j. (j, unat (ack_version (snd x))) \<in> cleans p \<and> fst x = at j))"

definition task_call :: "PropagateTask \<Rightarrow> stub \<times> PropagateRequest" where
  "task_call t = (task_successor t, task_req t)"

definition server_ok ::
    "nat \<Rightarrow> ReplicationMode \<Rightarrow> (nat \<Rightarrow> stub) \<Rightarrow> string \<Rightarrow> string \<Rightarrow> pipeline \<Rightarrow> nat \<Rightarrow> Server \<Rightarrow> bool" where
  "server_ok n m at k origin p j sv \<longleftrightarrow>
     (\<exists>s. the_strategy sv = Some (m, s) \<and> node_ok n m k p j (key_state (by_key s) k) \<and>
        (\<forall>a \<in> set (pred_ack_queue s). ack_key a = k \<longrightarrow>
           0 < j \<and> (j - 1, unat (ack_version a)) \<in> cleans p)) \<and>
     (\<forall>m'. \<forall>t \<in> set (queue (dispatchers sv m')). prop_ok at k origin p (task_call t)) \<and>
     (\<forall>(b, a) \<in> set (ack_log sv). ack_key a = k \<longrightarrow> unat (ack_version a) \<in> done_set p)"

definition cluster_sim ::
    "nat \<Rightarrow> ReplicationMode \<Rightarrow> (nat \<Rightarrow> stub) \<Rightarrow> string \<Rightarrow> string \<Rightarrow> pipeline \<Rightarrow> Cluster \<Rightarrow> bool" where
  "cluster_sim n m at k origin p c \<longleftrightarrow>
     (\<forall>j < n. \<exists>sv. servers c (at j) = Some sv \<and> server_ok n m at k origin p j sv) \<and>
     dom (servers c) = at ` {..<n} \<and>
     (\<forall>x \<in> set (prop_calls c). prop_ok at k origin p x) \<and>
     (\<forall>x \<in> set (ack_calls c). ack_ok at k p x) \<and>
     (\<forall>w x. (k, w, x) \<in> set (accepted c) \<longleftrightarrow> issued p (unat w) = Some x) \<and>
     assigned p \<le> length (accepted c)"

subsection \<open>Growing the abstract state\<close>

text \<open>\<open>pl_grows i p p'\<close>: only position \<open>i\<close> changed; what was issued or sent stays so.\<close>

definition pl_grows :: "nat \<Rightarrow> pipeline \<Rightarrow> pipeline \<Rightarrow> bool" where
  "pl_grows i p p' \<longleftrightarrow>
     (\<forall>v x. issued p v = Some x \<longrightarrow> issued p' v = Some x) \<and>
     sent p \<subseteq> sent p' \<and> cleans p \<subseteq> cleans p' \<and> done_set p \<subseteq> done_set p' \<and>
     (\<forall>j. j \<noteq> i \<longrightarrow> hist p' j = hist p j \<and> clean p' j = clean p j) \<and>
     (i \<noteq> 0 \<longrightarrow> assigned p' = assigned p)"

lemma pl_grows_refl [simp]: "pl_grows i p p"
  by (simp add: pl_grows_def)

lemma pl_grows_write:
  assumes "pl_inv n p"
  shows "pl_grows 0 p (pl_write n x p)"
proof -
  have "issued p (Suc (assigned p)) = None"
    using pl_invD(2) [OF assms] by (metis atLeastAtMost_iff domIff not_less_eq_eq order_refl)
  then show ?thesis by (auto simp: pl_grows_def pl_write_def Let_def)
qed

lemma pl_grows_receive: "pl_grows j p (pl_receive n j v p)"
  by (auto simp: pl_grows_def pl_receive_def)

lemma pl_grows_clean: "pl_grows j p (pl_clean j v p)"
  by (auto simp: pl_grows_def pl_clean_def)

lemma prop_ok_grows: "prop_ok at k origin p x \<Longrightarrow> pl_grows i p p' \<Longrightarrow> prop_ok at k origin p' x"
  unfolding prop_ok_def pl_grows_def by blast

lemma ack_ok_grows: "ack_ok at k p x \<Longrightarrow> pl_grows i p p' \<Longrightarrow> ack_ok at k p' x"
  unfolding ack_ok_def pl_grows_def by blast

lemma node_ok_grows:
  "node_ok n m k p j ks \<Longrightarrow> pl_grows i p p' \<Longrightarrow> j \<noteq> i \<Longrightarrow> node_ok n m k p' j ks"
  unfolding node_ok_def pl_grows_def by (auto elim!: agrees_mono)

lemma server_ok_grows:
  assumes "server_ok n m at k origin p j sv" "pl_grows i p p'" "j \<noteq> i"
  shows "server_ok n m at k origin p' j sv"
proof -
  have sub: "cleans p \<subseteq> cleans p'" "done_set p \<subseteq> done_set p'"
    using assms(2) by (auto simp: pl_grows_def)
  show ?thesis
    using assms(1) sub prop_ok_grows [OF _ assms(2)] node_ok_grows [OF _ assms(2,3)]
    unfolding server_ok_def by fast
qed

text \<open>One server changed, the calls in flight and the log accordingly.\<close>

lemma cluster_sim_update:
  assumes sim: "cluster_sim n m at k origin p c" and inj: "inj_on at {..<n}" and i: "i < n"
    and grows: "pl_grows i p p'" and ok: "server_ok n m at k origin p' i sv'"
    and serv: "servers c' = (servers c)(at i \<mapsto> sv')"
    and props: "\<And>x. x \<in> set (prop_calls c') \<Longrightarrow> x \<in> set (prop_calls c) \<or> prop_ok at k origin p' x"
    and acks: "\<And>x. x \<in> set (ack_calls c') \<Longrightarrow> x \<in> set (ack_calls c) \<or> ack_ok at k p' x"
    and log: "\<And>w x. (k, w, x) \<in> set (accepted c') \<longleftrightarrow> issued p' (unat w) = Some x"
      "assigned p' \<le> length (accepted c')"
  shows "cluster_sim n m at k origin p' c'"
proof -
  have "\<exists>sv. servers c' (at j) = Some sv \<and> server_ok n m at k origin p' j sv" if j: "j < n" for j
  proof (cases "j = i")
    case True
    then show ?thesis using ok serv by simp
  next
    case False
    then have "at j \<noteq> at i" using inj i j by (auto simp: inj_on_def)
    moreover obtain sv where "servers c (at j) = Some sv" "server_ok n m at k origin p j sv"
      using sim j by (auto simp: cluster_sim_def)
    ultimately show ?thesis using server_ok_grows [OF _ grows False] serv by auto
  qed
  moreover have "dom (servers c') = at ` {..<n}"
    using sim i by (auto simp: cluster_sim_def serv)
  moreover have "prop_ok at k origin p' x" if "x \<in> set (prop_calls c')" for x
    using props [OF that] sim prop_ok_grows [OF _ grows] unfolding cluster_sim_def by blast
  moreover have "ack_ok at k p' x" if "x \<in> set (ack_calls c')" for x
    using acks [OF that] sim ack_ok_grows [OF _ grows] unfolding cluster_sim_def by blast
  ultimately show ?thesis using log by (simp add: cluster_sim_def)
qed

lemma cluster_sim_position:
  assumes "cluster_sim n m at k origin p c" "servers c a = Some sv" "inj_on at {..<n}"
  obtains i where "i < n" "a = at i" "server_ok n m at k origin p i sv"
proof -
  have "a \<in> at ` {..<n}" using assms(1,2) by (auto simp: cluster_sim_def)
  then obtain i where "i < n" "a = at i" by auto
  moreover from this have "server_ok n m at k origin p i sv"
    using assms(1,2) by (auto simp: cluster_sim_def)
  ultimately show thesis using that by blast
qed

end
