(* ===== verification/Replication_Chain.thy ===== *)
theory Replication_Chain
  imports Cluster
begin

section \<open>Every strategy implements the abstract chain\<close>

text \<open>
  First what no step changes: the node, the mode and the neighbour stubs of a server
  (\<open>topo_of\<close>) and the consistency of its client cache. Then the locale
  \<open>replication_chain\<close>: a chain of \<open>n\<close> positions \<open>at 0 .. at (n - 1)\<close> for the key \<open>k\<close>, with
  the laws the handlers of one strategy promise at each position; and, inside it, that a
  reachable cluster implements a reachable abstract state, with the consequences for reads,
  acks and replicas.
\<close>

subsection \<open>What the steps leave fixed\<close>

type_synonym topo = "Node \<times> (ReplicationMode \<times> stub option \<times> stub option \<times> stub option) option"

definition topo_of :: "Server \<Rightarrow> topo" where
  "topo_of sv =
     (the_node sv, map_option (\<lambda>(m, s). (m, predecessor_stub s, successor_stub s, tail_stub s))
        (the_strategy sv))"

definition cache_ok :: "Server \<Rightarrow> bool" where
  "cache_ok sv = (case the_strategy sv of None \<Rightarrow> True | Some st \<Rightarrow> wf_client_cache (snd st))"

text \<open>The strategy and its stubs are the ones the configuration names.\<close>

definition wired :: "topo \<Rightarrow> bool" where
  "wired T \<longleftrightarrow> (case snd T of None \<Rightarrow> True | Some (m, pr, su, ta) \<Rightarrow>
     m = Node_mode (fst T) \<and> pr = map_option addr_to_string (predecessor (config (fst T))) \<and>
     su = map_option addr_to_string (successor (config (fst T))) \<and>
     ta = map_option addr_to_string (tail_addr (config (fst T))))"

definition fixed :: "topo \<Rightarrow> Server \<Rightarrow> bool" where
  "fixed T sv \<longleftrightarrow> topo_of sv = T \<and> cache_ok sv \<and> wired T"

lemma fixed_write:
  assumes "fixed T sv" "rpc_Write rpc req sv = (res, sv')"
  shows "fixed T sv'"
proof (cases "the_strategy sv")
  case (Some st)
  then have sv': "sv' = put_replica (fst st)
      (snd (strategy_handle_write (fst st) rpc req (the_node sv) (replica_of sv st))) sv"
    using assms(2) by (auto simp: rpc_Write_def split_beta)
  show ?thesis
    using assms(1) Some unfolding sv'
    by (cases "fst st") (auto simp: fixed_def topo_of_def cache_ok_def strategy_handle_write_def
        frame_simps split_beta)
qed (use assms in \<open>auto simp: rpc_Write_def\<close>)

lemma fixed_propagate:
  assumes "fixed T sv" "rpc_Propagate rpc req sv = (res, sv')"
  shows "fixed T sv'"
proof (cases "the_strategy sv")
  case (Some st)
  then have sv': "sv' = put_replica (fst st)
      (snd (strategy_handle_propagate (fst st) rpc req (the_node sv) (replica_of sv st))) sv"
    using assms(2) by (auto simp: rpc_Propagate_def split_beta)
  show ?thesis
    using assms(1) Some unfolding sv'
    by (cases "fst st") (auto simp: fixed_def topo_of_def cache_ok_def strategy_handle_propagate_def
        frame_simps split_beta)
qed (use assms in \<open>auto simp: rpc_Propagate_def\<close>)

lemma fixed_ack:
  assumes "fixed T sv" "rpc_Ack req sv = (res, sv')"
  shows "fixed T sv'"
proof (cases "the_strategy sv")
  case (Some st)
  then have sv': "sv' = put_replica (fst st)
      (snd (strategy_handle_ack (fst st) req (the_node sv) (replica_of sv st))) sv"
    using assms(2) by (auto simp: rpc_Ack_def split_beta)
  show ?thesis
    using assms(1) Some unfolding sv'
    by (cases "fst st") (auto simp: fixed_def topo_of_def cache_ok_def strategy_handle_ack_def
        chain_handle_ack_def crown_handle_ack_def frame_simps split_beta)
qed (use assms in \<open>auto simp: rpc_Ack_def\<close>)

lemma fixed_dispatcher [simp]: "fixed T (put_dispatcher m d sv) = fixed T sv"
  by (simp add: fixed_def topo_of_def cache_ok_def)

lemma ack_worker_turn_frame:
  assumes "ack_worker_turn s = (turn, s')"
  shows "set (pred_ack_queue s') \<subseteq> set (pred_ack_queue s)"
    "set (turn_call turn) \<subseteq> (\<lambda>r. (the (predecessor_stub s), r)) ` set (pred_ack_queue s)"
    "turn_call turn \<noteq> [] \<Longrightarrow> predecessor_stub s \<noteq> None"
  using assms
  by (auto simp: ack_worker_turn_def Let_def split: if_splits list.splits option.splits)

lemma fixed_turn:
  assumes "fixed T sv" "the_strategy sv = Some (m, s)" "ack_worker_turn s = (turn, s')"
  shows "fixed T (put_support m s' sv)"
  using assms(1,2) ack_worker_turn_same [OF assms(3)]
  by (simp add: fixed_def topo_of_def cache_ok_def)

text \<open>
  A configuration the server has already changes nothing but the ack worker, which CRAQ restarts:
  the new stubs are for the same addresses, the store and the queues are kept.
\<close>

lemma rpc_Configure_again:
  assumes "the_strategy sv = Some (Node_mode (the_node sv), s)" "proto_to_config p = Inr (config (the_node sv))"
    and "rpc_Configure p sv = (res, sv')"
  obtains s' where "sv' = put_support (Node_mode (the_node sv)) s' sv" "by_key s' = by_key s"
    "pred_ack_queue s' = pred_ack_queue s" "fixed T sv \<Longrightarrow> fixed T sv'"
proof -
  let ?m = "Node_mode (the_node sv)"
  let ?r = "strategy_on_config_change ?m (the_node sv) (replica_of sv (?m, s))"
  note frame = strategy_on_config_change_frame [of ?m "the_node sv" "replica_of sv (?m, s)"]
  have same: "update_config (config (the_node sv)) (the_node sv) = the_node sv"
    "mode (config (the_node sv)) = ?m" by (simp_all add: update_config_def Node_mode_def)
  have "sv' = put_replica ?m ?r (sv\<lparr>the_node := the_node sv\<rparr>)"
    using assms same by (simp add: rpc_Configure_def Let_def replica_of_def)
  then have sv': "sv' = put_support ?m (support ?r) sv"
    using frame(3,4) by (simp add: put_replica_def put_support_def)
  have "fixed T sv'" if "fixed T sv"
  proof -
    have "predecessor_stub s = map_option addr_to_string (predecessor (config (the_node sv)))"
      "successor_stub s = map_option addr_to_string (successor (config (the_node sv)))"
      "tail_stub s = map_option addr_to_string (tail_addr (config (the_node sv)))"
      using that assms(1) by (auto simp: fixed_def topo_of_def wired_def)
    then have "predecessor_stub (support ?r) = predecessor_stub s \<and>
        successor_stub (support ?r) = successor_stub s \<and> tail_stub (support ?r) = tail_stub s"
      by (cases ?m) (simp_all add: strategy_on_config_change_def chain_on_config_change_def
          craq_on_config_change_def crown_on_config_change_def support_on_config_change_stubs
          start_ack_workers_simps)
    then show ?thesis
      using that assms(1) frame(2) by (simp add: fixed_def topo_of_def cache_ok_def sv')
  qed
  then show thesis using that sv' frame(1,5) by simp
qed

definition cluster_fixed :: "(stub \<Rightarrow> topo) \<Rightarrow> Cluster \<Rightarrow> bool" where
  "cluster_fixed T c \<longleftrightarrow> (\<forall>a sv. servers c a = Some sv \<longrightarrow> fixed (T a) sv)"

lemma cluster_step_fixed:
  assumes "cluster_step c e c'" "cluster_fixed T c"
  shows "cluster_fixed T c'"
  using assms
proof cases
  case (client_write a sv rpc req st resp sv')
  then show ?thesis using assms(2) fixed_write [of "T a" sv] by (auto simp: cluster_fixed_def)
next
  case (deliver_propagate b req sv rpc res sv')
  then show ?thesis using assms(2) fixed_propagate [of "T b" sv] by (auto simp: cluster_fixed_def)
next
  case (ack_worker a sv m s turn s')
  then show ?thesis using assms(2) fixed_turn [of "T a" sv] by (auto simp: cluster_fixed_def)
next
  case (deliver_ack b req sv res sv')
  then show ?thesis using assms(2) fixed_ack [of "T b" sv] by (auto simp: cluster_fixed_def)
next
  case (configure_again a sv s p res sv')
  have "fixed (T a) sv'"
    by (rule rpc_Configure_again [OF configure_again(4-6), of "T a"])
      (use assms(2) configure_again(3) in \<open>simp add: cluster_fixed_def\<close>)
  then show ?thesis using configure_again assms(2) by (auto simp: cluster_fixed_def)
qed (auto simp: cluster_fixed_def)

lemma cluster_reach_fixed:
  "cluster_reach allowed c0 c \<Longrightarrow> cluster_fixed T c0 \<Longrightarrow> cluster_fixed T c"
  by (induction rule: cluster_reach.induct) (auto intro: cluster_step_fixed)

subsection \<open>The laws of a strategy\<close>

locale replication_chain =
  fixes n :: nat
    and m :: ReplicationMode
    and at :: "nat \<Rightarrow> stub"
    and k :: string
    and origin :: string
    and T :: "stub \<Rightarrow> topo"
    and routed :: "cluster_event \<Rightarrow> bool"
  assumes n_pos: "1 \<le> n"
    and inj_at: "inj_on at {..<n}"
    and pred_at: "fixed (T (at j)) sv \<Longrightarrow> 0 < j \<Longrightarrow> j < n \<Longrightarrow> the_strategy sv = Some (m, s) \<Longrightarrow>
      predecessor_stub s = Some (at (j - 1))"
    and write_head: "fixed (T (at 0)) sv \<Longrightarrow> server_ok n m at k origin p 0 sv \<Longrightarrow> pl_inv n p \<Longrightarrow>
      assigned p + 1 < 2 ^ 64 \<Longrightarrow> wreq_key req = k \<Longrightarrow>
      rpc_Write rpc req sv = ((st, resp), sv') \<Longrightarrow>
      (\<exists>w. resp = Some w \<and> unat (wresp_version w) = Suc (assigned p)) \<and>
      server_ok n m at k origin (pl_write n (wreq_value req) p) 0 sv'"
    and write_elsewhere: "fixed (T (at j)) sv \<Longrightarrow> the_strategy sv = Some (m, s) \<Longrightarrow> 0 < j \<Longrightarrow> j < n \<Longrightarrow>
      routed (Client_write (at j) req) \<Longrightarrow> wreq_key req = k \<Longrightarrow>
      rpc_Write rpc req sv = ((st, resp), sv') \<Longrightarrow> resp = None \<and> sv' = sv"
    and write_other: "fixed (T (at j)) sv \<Longrightarrow> server_ok n m at k origin p j sv \<Longrightarrow> j < n \<Longrightarrow>
      wreq_key req \<noteq> k \<Longrightarrow> rpc_Write rpc req sv = ((st, resp), sv') \<Longrightarrow>
      server_ok n m at k origin p j sv'"
    and propagate_mine: "fixed (T (at j)) sv \<Longrightarrow> server_ok n m at k origin p j sv \<Longrightarrow> pl_inv n p \<Longrightarrow>
      assigned p < 2 ^ 64 \<Longrightarrow> j < n \<Longrightarrow>
      prop_key preq = k \<Longrightarrow> (j, unat (prop_version preq)) \<in> sent p \<Longrightarrow>
      issued p (unat (prop_version preq)) = Some (prop_value preq) \<Longrightarrow>
      prop_origin_id preq = origin \<Longrightarrow> rpc_Propagate rpc preq sv = (pres, sv') \<Longrightarrow>
      server_ok n m at k origin (pl_receive n j (unat (prop_version preq)) p) j sv'"
    and propagate_other: "fixed (T (at j)) sv \<Longrightarrow> server_ok n m at k origin p j sv \<Longrightarrow> j < n \<Longrightarrow>
      prop_key preq \<noteq> k \<Longrightarrow> rpc_Propagate rpc preq sv = (pres, sv') \<Longrightarrow>
      server_ok n m at k origin p j sv'"
    and ack_mine: "fixed (T (at j)) sv \<Longrightarrow> server_ok n m at k origin p j sv \<Longrightarrow> pl_inv n p \<Longrightarrow>
      assigned p < 2 ^ 64 \<Longrightarrow> j < n \<Longrightarrow>
      ack_key a = k \<Longrightarrow> (j, unat (ack_version a)) \<in> cleans p \<Longrightarrow> rpc_Ack a sv = (res', sv') \<Longrightarrow>
      server_ok n m at k origin (pl_clean j (unat (ack_version a)) p) j sv'"
    and ack_other: "fixed (T (at j)) sv \<Longrightarrow> server_ok n m at k origin p j sv \<Longrightarrow> j < n \<Longrightarrow>
      ack_key a \<noteq> k \<Longrightarrow> rpc_Ack a sv = (res', sv') \<Longrightarrow> server_ok n m at k origin p j sv'"

context replication_chain
begin

abbreviation sim :: "pipeline \<Rightarrow> Cluster \<Rightarrow> bool" where
  "sim \<equiv> cluster_sim n m at k origin"

lemma sim_stutter:
  assumes "sim p c" "i < n" "server_ok n m at k origin p i sv'"
    and "servers c' = (servers c)(at i \<mapsto> sv')"
    and "\<And>x. x \<in> set (prop_calls c') \<Longrightarrow> x \<in> set (prop_calls c) \<or> prop_ok at k origin p x"
    and "\<And>x. x \<in> set (ack_calls c') \<Longrightarrow> x \<in> set (ack_calls c) \<or> ack_ok at k p x"
    and "\<And>w x. (k, w, x) \<in> set (accepted c') \<longleftrightarrow> (k, w, x) \<in> set (accepted c)"
    and "length (accepted c) \<le> length (accepted c')"
  shows "sim p c'"
  by (rule cluster_sim_update [OF assms(1) inj_at assms(2) pl_grows_refl assms(3,4)])
    (use assms in \<open>auto simp: cluster_sim_def\<close>)

lemma sim_calls:
  assumes "sim p c" "servers c' = servers c" "set (prop_calls c') \<subseteq> set (prop_calls c)"
    "set (ack_calls c') \<subseteq> set (ack_calls c)" "accepted c' = accepted c"
  shows "sim p c'"
proof -
  have "\<forall>x \<in> set (prop_calls c'). prop_ok at k origin p x"
    using assms(1,3) by (meson cluster_sim_def subsetD)
  moreover have "\<forall>x \<in> set (ack_calls c'). ack_ok at k p x"
    using assms(1,4) by (meson cluster_sim_def subsetD)
  ultimately show ?thesis
    using assms(1) unfolding cluster_sim_def assms(2,5) by (elim conjE, intro conjI) assumption+
qed

lemma sim_write:
  assumes sim: "sim p c" and inv: "pl_inv n p" and fx: "cluster_fixed T c"
    and bound: "length (accepted c) + 1 < 2 ^ 64"
    and sv: "servers c a = Some sv" and rpc: "rpc_Write rpc req sv = ((st, resp), sv')"
    and routed: "routed (Client_write a req)"
    and c': "c' = (put_server a sv' c)\<lparr>accepted := accepted c @ accepted_entry req resp\<rparr>"
  shows "sim p c' \<or> sim (pl_write n (wreq_value req) p) c'"
proof -
  obtain i where i: "i < n" "a = at i" "server_ok n m at k origin p i sv"
    using cluster_sim_position [OF sim sv inj_at] by blast
  have fxi: "fixed (T (at i)) sv" using fx sv i(2) by (simp add: cluster_fixed_def)
  have log: "(k, w, x) \<in> set (accepted c) \<longleftrightarrow> issued p (unat w) = Some x" for w x
    using sim by (simp add: cluster_sim_def)
  have len: "assigned p \<le> length (accepted c)" using sim by (simp add: cluster_sim_def)
  show ?thesis
  proof (cases "wreq_key req = k")
    case False
    have "server_ok n m at k origin p i sv'"
      by (rule write_other [OF fxi i(3,1) False rpc])
    then have "sim p c'"
      by (rule sim_stutter [OF sim i(1)])
        (use c' i(2) False in \<open>auto simp: accepted_entry_def split: option.splits\<close>)
    then show ?thesis ..
  next
    case key: True
    show ?thesis
    proof (cases "i = 0")
      case False
      obtain s where "the_strategy sv = Some (m, s)" using i(3) by (auto simp: server_ok_def)
      from write_elsewhere [OF fxi this _ i(1) _ key rpc] False routed i(2)
      have "resp = None" "sv' = sv" by auto
      then have "sim p c'"
        by (intro sim_stutter [OF sim i(1,3)]) (use c' i(2) in \<open>auto simp: accepted_entry_def\<close>)
      then show ?thesis ..
    next
      case True
      have b: "assigned p + 1 < 2 ^ 64" using bound len by linarith
      from write_head [OF _ _ inv b key rpc] fxi i(3) True obtain w where
        w: "resp = Some w" "unat (wresp_version w) = Suc (assigned p)"
        and ok: "server_ok n m at k origin (pl_write n (wreq_value req) p) 0 sv'" by auto
      have ver: "unat v = Suc (assigned p) \<longleftrightarrow> v = wresp_version w" for v :: u64
        using w(2) by (metis word_of_nat_unat)
      have fresh: "issued p (Suc (assigned p)) = None"
        using pl_invD(2) [OF inv] by (metis atLeastAtMost_iff domIff not_less_eq_eq order_refl)
      have log': "(k, v, x) \<in> set (accepted c') \<longleftrightarrow>
        issued (pl_write n (wreq_value req) p) (unat v) = Some x" for v x
      proof (cases "v = wresp_version w")
        case True
        then show ?thesis using c' w log [of v x] fresh key
          by (auto simp: accepted_entry_def pl_write_def Let_def)
      next
        case False
        then show ?thesis using c' w(1) log [of v x] ver [of v]
          by (auto simp: accepted_entry_def pl_write_def Let_def)
      qed
      have "sim (pl_write n (wreq_value req) p) c'"
        by (rule cluster_sim_update [OF sim inj_at _ pl_grows_write [OF inv]])
          (use ok c' True i(1,2) w(1) log' len in
            \<open>auto simp: accepted_entry_def pl_write_def Let_def\<close>)
      then show ?thesis ..
    qed
  qed
qed

lemma sim_propagate:
  assumes sim: "sim p c" and inv: "pl_inv n p" and fx: "cluster_fixed T c"
    and bound: "length (accepted c) + 1 < 2 ^ 64"
    and call: "(b, req) \<in> set (prop_calls c)" and sv: "servers c b = Some sv"
    and rpc: "rpc_Propagate rpc req sv = (res, sv')"
    and c': "c' = (put_server b sv' c)\<lparr>prop_calls := remove1 (b, req) (prop_calls c)\<rparr>"
  shows "sim p c' \<or> (\<exists>j v. (j, v) \<in> sent p \<and> sim (pl_receive n j v p) c')"
proof -
  obtain i where i: "i < n" "b = at i" "server_ok n m at k origin p i sv"
    using cluster_sim_position [OF sim sv inj_at] by blast
  have fxi: "fixed (T (at i)) sv" using fx sv i(2) by (simp add: cluster_fixed_def)
  have ok: "prop_ok at k origin p (b, req)" using sim call by (auto simp: cluster_sim_def)
  have calls: "x \<in> set (prop_calls c') \<Longrightarrow> x \<in> set (prop_calls c)" for x
    using c' set_remove1_subset [of "(b, req)" "prop_calls c"] by auto
  show ?thesis
  proof (cases "prop_key req = k")
    case False
    have "server_ok n m at k origin p i sv'"
      by (rule propagate_other [OF fxi i(3,1) False rpc])
    then have "sim p c'"
      by (rule sim_stutter [OF sim i(1)]) (use c' i(2) calls in auto)
    then show ?thesis ..
  next
    case True
    let ?v = "unat (prop_version req)"
    from ok True obtain j where j: "(j, ?v) \<in> sent p" "b = at j"
      "issued p ?v = Some (prop_value req)" "prop_origin_id req = origin"
      by (auto simp: prop_ok_def)
    have "j < n" using pl_invD(4) [OF inv j(1)] by simp
    with i(1,2) j(2) inj_at have ji: "j = i" by (auto simp: inj_on_def)
    have len: "assigned p < 2 ^ 64" using sim bound by (simp add: cluster_sim_def)
    have ok': "server_ok n m at k origin (pl_receive n i ?v p) i sv'"
      using propagate_mine [OF fxi i(3) inv len i(1) True _ j(3,4) rpc] j(1) ji by simp
    have "sim (pl_receive n i ?v p) c'"
      by (rule cluster_sim_update [OF sim inj_at i(1) pl_grows_receive ok'])
        (use sim c' i(2) calls in \<open>auto simp: cluster_sim_def pl_receive_def\<close>)
    then show ?thesis using j(1) ji by blast
  qed
qed

lemma sim_ack:
  assumes sim: "sim p c" and inv: "pl_inv n p" and fx: "cluster_fixed T c"
    and bound: "length (accepted c) + 1 < 2 ^ 64"
    and call: "(b, a) \<in> set (ack_calls c)" and sv: "servers c b = Some sv"
    and rpc: "rpc_Ack a sv = (res, sv')"
    and c': "c' = (put_server b sv' c)\<lparr>ack_calls := remove1 (b, a) (ack_calls c)\<rparr>"
  shows "sim p c' \<or> (\<exists>j v. (j, v) \<in> cleans p \<and> sim (pl_clean j v p) c')"
proof -
  obtain i where i: "i < n" "b = at i" "server_ok n m at k origin p i sv"
    using cluster_sim_position [OF sim sv inj_at] by blast
  have fxi: "fixed (T (at i)) sv" using fx sv i(2) by (simp add: cluster_fixed_def)
  have ok: "ack_ok at k p (b, a)" using sim call by (auto simp: cluster_sim_def)
  have calls: "x \<in> set (ack_calls c') \<Longrightarrow> x \<in> set (ack_calls c)" for x
    using c' set_remove1_subset [of "(b, a)" "ack_calls c"] by auto
  show ?thesis
  proof (cases "ack_key a = k")
    case False
    have "server_ok n m at k origin p i sv'"
      by (rule ack_other [OF fxi i(3,1) False rpc])
    then have "sim p c'"
      by (rule sim_stutter [OF sim i(1)]) (use c' i(2) calls in auto)
    then show ?thesis ..
  next
    case True
    from ok True obtain j where j: "(j, unat (ack_version a)) \<in> cleans p" "b = at j"
      by (auto simp: ack_ok_def)
    have "j < n" using pl_invD(5) [OF inv j(1)] by simp
    with i(1,2) j(2) inj_at have ji: "j = i" by (auto simp: inj_on_def)
    have len: "assigned p < 2 ^ 64" using sim bound by (simp add: cluster_sim_def)
    have ok': "server_ok n m at k origin (pl_clean i (unat (ack_version a)) p) i sv'"
      using ack_mine [OF fxi i(3) inv len i(1) True _ rpc] j(1) ji by simp
    have "sim (pl_clean i (unat (ack_version a)) p) c'"
      by (rule cluster_sim_update [OF sim inj_at i(1) pl_grows_clean ok'])
        (use sim c' i(2) calls in \<open>auto simp: cluster_sim_def pl_clean_def\<close>)
    then show ?thesis using j(1) ji by blast
  qed
qed

lemma sim_take:
  assumes sim: "sim p c" and sv: "servers c a = Some sv"
    and step: "disp_step (dispatchers sv m') (Take t) d"
    and c': "c' = (put_server a (put_dispatcher m' d sv) c)
      \<lparr>prop_calls := prop_calls c @ [(task_successor t, task_req t)]\<rparr>"
  shows "sim p c'"
proof -
  obtain i where i: "i < n" "a = at i" "server_ok n m at k origin p i sv"
    using cluster_sim_position [OF sim sv inj_at] by blast
  obtain ts where q: "queue (dispatchers sv m') = t # ts" "queue d = ts"
    using step by (auto elim: disp_step_TakeE)
  have mine: "\<forall>t \<in> set (queue (dispatchers sv m'')). prop_ok at k origin p (task_call t)" for m''
    using i(3) by (simp add: server_ok_def)
  have "server_ok n m at k origin p i (put_dispatcher m' d sv)"
    using i(3) mine [of m'] q unfolding server_ok_def by simp
  moreover have "prop_ok at k origin p (task_call t)"
    using mine [of m'] q(1) by simp
  ultimately show ?thesis
    by (intro sim_stutter [OF sim i(1)]) (use c' i(2) in \<open>auto simp: task_call_def\<close>)
qed

lemma sim_complete:
  assumes sim: "sim p c" and sv: "servers c a = Some sv"
    and step: "disp_step (dispatchers sv m') (Complete t) d"
    and c': "c' = put_server a (put_dispatcher m' d sv) c"
  shows "sim p c'"
proof -
  obtain i where i: "i < n" "a = at i" "server_ok n m at k origin p i sv"
    using cluster_sim_position [OF sim sv inj_at] by blast
  have "queue d = queue (dispatchers sv m')"
    using step by (auto elim: disp_step_CompleteE)
  then have "server_ok n m at k origin p i (put_dispatcher m' d sv)"
    using i(3) unfolding server_ok_def by simp
  then show ?thesis
    by (rule sim_stutter [OF sim i(1)]) (use c' i(2) in auto)
qed

lemma sim_turn:
  assumes sim: "sim p c" and fx: "cluster_fixed T c" and sv: "servers c a = Some sv"
    and st: "the_strategy sv = Some (m', s)" and turn: "ack_worker_turn s = (turn, s')"
    and c': "c' = (put_server a (put_support m' s' sv) c)
      \<lparr>ack_calls := ack_calls c @ turn_call turn\<rparr>"
  shows "sim p c'"
proof -
  obtain i where i: "i < n" "a = at i" "server_ok n m at k origin p i sv"
    using cluster_sim_position [OF sim sv inj_at] by blast
  have fxi: "fixed (T (at i)) sv" using fx sv i(2) by (simp add: cluster_fixed_def)
  note frame = ack_worker_turn_frame [OF turn] and store = ack_worker_turn_same(1) [OF turn]
  have m': "m' = m" using i(3) st by (simp add: server_ok_def)
  have q: "\<forall>a \<in> set (pred_ack_queue s). ack_key a = k \<longrightarrow>
      0 < i \<and> (i - 1, unat (ack_version a)) \<in> cleans p"
    using i(3) st by (simp add: server_ok_def)
  have "server_ok n m at k origin p i (put_support m' s' sv)"
    using i(3) st m' q frame(1) store by (auto simp: server_ok_def)
  moreover have "ack_ok at k p x" if x: "x \<in> set (turn_call turn)" for x
  proof -
    obtain r where r: "x = (the (predecessor_stub s), r)" "r \<in> set (pred_ack_queue s)"
      using frame(2) x by auto
    show ?thesis
    proof (cases "ack_key r = k")
      case True
      with q r(2) have "0 < i" "(i - 1, unat (ack_version r)) \<in> cleans p" by auto
      moreover have "predecessor_stub s = Some (at (i - 1))"
        using pred_at [OF fxi \<open>0 < i\<close> i(1)] st m' by simp
      ultimately show ?thesis using r(1) by (auto simp: ack_ok_def)
    qed (simp add: r(1) ack_ok_def)
  qed
  ultimately show ?thesis
    by (intro sim_stutter [OF sim i(1)]) (use c' i(2) in auto)
qed

lemma sim_configure:
  assumes sim: "sim p c" and sv: "servers c a = Some sv"
    and st: "the_strategy sv = Some (Node_mode (the_node sv), s)" and cfg: "proto_to_config cfg = Inr (config (the_node sv))"
    and rpc: "rpc_Configure cfg sv = (res, sv')"
  shows "sim p (put_server a sv' c)"
proof -
  obtain i where i: "i < n" "a = at i" "server_ok n m at k origin p i sv"
    using cluster_sim_position [OF sim sv inj_at] by blast
  obtain s' where s': "sv' = put_support (Node_mode (the_node sv)) s' sv" "by_key s' = by_key s"
    "pred_ack_queue s' = pred_ack_queue s"
    by (rule rpc_Configure_again [OF st cfg rpc])
  have "server_ok n m at k origin p i sv'"
    using i(3) st unfolding s'(1) by (auto simp: server_ok_def s'(2,3))
  then show ?thesis
    by (rule sim_stutter [OF sim i(1)]) (use i(2) in auto)
qed

lemma sim_step:
  assumes "cluster_step c e c'" "routed e" "sim p c" "pl_inv n p" "cluster_fixed T c"
    "length (accepted c) + 1 < 2 ^ 64"
  shows "sim p c' \<or> (\<exists>q. pl_step n p q \<and> sim q c')"
  using assms(1)
proof cases
  case (client_write a sv rpc req st resp sv')
  with sim_write [OF assms(3-6) client_write(3,4)] assms(2) show ?thesis
    by (auto intro: pl_step.intros)
next
  case (worker_take a sv m' t d)
  with sim_take [OF assms(3) worker_take(3,4)] show ?thesis by auto
next
  case (worker_complete a sv m' t d)
  with sim_complete [OF assms(3) worker_complete(3,4)] show ?thesis by auto
next
  case (deliver_propagate b req sv rpc res sv')
  with sim_propagate [OF assms(3-6) deliver_propagate(3-5)] show ?thesis
    by (auto intro: pl_step.intros)
next
  case (lose_propagate b req)
  with sim_calls [OF assms(3), of c'] set_remove1_subset [of "(b, req)" "prop_calls c"]
  show ?thesis by simp
next
  case (ack_worker a sv m' s turn s')
  with sim_turn [OF assms(3,5) ack_worker(3-5)] show ?thesis by auto
next
  case (deliver_ack b a sv res sv')
  with sim_ack [OF assms(3-6) deliver_ack(3-5)] show ?thesis
    by (auto intro: pl_step.intros)
next
  case (lose_ack b a)
  with sim_calls [OF assms(3), of c'] set_remove1_subset [of "(b, a)" "ack_calls c"]
  show ?thesis by simp
next
  case (configure_again a sv s cfg res sv')
  with sim_configure [OF assms(3) configure_again(3-6)] show ?thesis by auto
qed

text \<open>Every reachable cluster implements a reachable state of the abstract machine.\<close>

lemma reach_sim:
  assumes "cluster_reach allowed c0 c" "\<And>e. allowed e \<Longrightarrow> routed e"
    and "sim pipeline_init c0" "cluster_fixed T c0" "length (accepted c) + 1 < 2 ^ 64"
  shows "\<exists>p. pl_reach n p \<and> sim p c"
  using assms(1,5)
proof (induction rule: cluster_reach.induct)
  case reach_start
  then show ?case using assms(3) pl_reach.pl_start by blast
next
  case (reach_step c e c')
  have len: "length (accepted c) + 1 < 2 ^ 64"
    using cluster_step_accepted_length [OF reach_step.hyps(2)] reach_step.prems by linarith
  from reach_step.IH [OF len] obtain p where p: "pl_reach n p" "sim p c" by blast
  have "sim p c' \<or> (\<exists>q. pl_step n p q \<and> sim q c')"
    by (rule sim_step [OF reach_step.hyps(2) assms(2) [OF reach_step.hyps(3)] p(2)
          pl_reach_inv [OF p(1) n_pos] cluster_reach_fixed [OF reach_step.hyps(1) assms(4)] len])
  then show ?case using p(1) pl_reach.pl_next by blast
qed

end

subsection \<open>The state of a key at a node\<close>

definition key_at :: "Cluster \<Rightarrow> stub \<Rightarrow> string \<Rightarrow> KeyState" where
  "key_at c a key =
     (case servers c a of
        None \<Rightarrow> KeyState_default
      | Some sv \<Rightarrow> (case the_strategy sv of None \<Rightarrow> KeyState_default
                   | Some st \<Rightarrow> key_state (by_key (snd st)) key))"

lemma cluster_sim_node:
  assumes "cluster_sim n m at k origin p c" "j < n"
  shows "node_ok n m k p j (key_at c (at j) k)"
  using assms by (fastforce simp: cluster_sim_def server_ok_def key_at_def)

context replication_chain
begin

text \<open>What the simulation says about the versions at two positions of the chain.\<close>

lemma sim_versions:
  assumes "sim p c" "pl_inv n p"
  shows "i \<le> j \<Longrightarrow> j < n \<Longrightarrow>
      latest_seen_version (key_at c (at j) k) \<le> latest_seen_version (key_at c (at i) k)"
    and "committed_version (key_at c (at (n - 1)) k) = latest_seen_version (key_at c (at (n - 1)) k)"
    and "j < n \<Longrightarrow> committed_version (key_at c (at j) k)
      \<le> committed_version (key_at c (at (n - 1)) k)"
proof -
  have node: "node_ok n m k p j (key_at c (at j) k)" if "j < n" for j
    using cluster_sim_node [OF assms(1) that] .
  show "latest_seen_version (key_at c (at j) k) \<le> latest_seen_version (key_at c (at i) k)"
    if "i \<le> j" "j < n" for i j
    using node [of i] node [of j] pl_newest_mono [OF assms(2) that] that
    by (simp add: node_ok_def word_le_nat_alt)
  have last: "n - 1 < n" "Suc (n - 1) = n" using n_pos by auto
  have tail: "unat (committed_version (key_at c (at (n - 1)) k)) = Max0 (hist p (n - 1))"
    using node [OF last(1)] last(2) by (simp add: node_ok_def)
  then show "committed_version (key_at c (at (n - 1)) k) = latest_seen_version (key_at c (at (n - 1)) k)"
    using node [OF last(1)] by (simp add: node_ok_def word_unat_eq_iff)
  show "committed_version (key_at c (at j) k) \<le> committed_version (key_at c (at (n - 1)) k)"
    if j: "j < n" for j
  proof (cases "Suc j = n")
    case True
    then show ?thesis by (metis diff_Suc_1 order_refl)
  next
    case False
    then show ?thesis
      using node [OF j] tail pl_clean_le_tail [OF assms(2) n_pos, of j]
      by (simp add: node_ok_def word_le_nat_alt split: if_splits)
  qed
qed

text \<open>A version the client was told about is at every position, and not above the tail's.\<close>

lemma sim_acknowledged:
  assumes "sim p c" "pl_inv n p" "i < n" "servers c (at i) = Some sv" "(b, a) \<in> set (ack_log sv)"
    "ack_key a = k"
  shows "ack_version a \<le> committed_version (key_at c (at (n - 1)) k)"
    and "j < n \<Longrightarrow> ack_version a \<le> latest_seen_version (key_at c (at j) k)"
proof -
  have "unat (ack_version a) \<in> done_set p"
    using assms by (fastforce simp: cluster_sim_def server_ok_def)
  then have "unat (ack_version a) \<le> Max0 (hist p (n - 1))"
    by (rule pl_done_le_tail [OF assms(2) _ n_pos])
  moreover have "node_ok n m k p (n - 1) (key_at c (at (n - 1)) k)"
    using cluster_sim_node [OF assms(1)] n_pos by simp
  ultimately show tail: "ack_version a \<le> committed_version (key_at c (at (n - 1)) k)"
    using n_pos by (simp add: node_ok_def word_le_nat_alt)
  show "ack_version a \<le> latest_seen_version (key_at c (at j) k)" if "j < n"
    using tail sim_versions(1) [OF assms(1,2), of j "n - 1"] sim_versions(2) [OF assms(1,2)] that
    by (metis (no_types, lifting) One_nat_def Suc_pred diff_less less_Suc_eq_le n_pos
        order.trans less_le_trans zero_less_one)
qed

lemma sim_acknowledged_nonzero:
  assumes "sim p c" "pl_inv n p" "i < n" "servers c (at i) = Some sv" "(b, a) \<in> set (ack_log sv)"
    "ack_key a = k"
  shows "ack_version a \<noteq> 0"
proof -
  have "unat (ack_version a) \<in> done_set p"
    using assms by (fastforce simp: cluster_sim_def server_ok_def)
  then have "unat (ack_version a) \<in> hist p 0"
    using n_pos by (intro pl_done_everywhere [OF assms(2)]) auto
  then show ?thesis using pl_invD(1) [OF assms(2)] by auto
qed

text \<open>Whatever a node holds under a version is what was accepted under it.\<close>

lemma sim_values:
  assumes "sim p c" "j < n"
  shows "committed_version (key_at c (at j) k) \<noteq> 0 \<Longrightarrow>
      (k, committed_version (key_at c (at j) k), committed_value (key_at c (at j) k)) \<in> set (accepted c)"
    and "latest_seen_version (key_at c (at j) k) \<noteq> 0 \<Longrightarrow>
      (k, latest_seen_version (key_at c (at j) k), latest_seen_value (key_at c (at j) k)) \<in> set (accepted c)"
    and "pending_versions (key_at c (at j) k) v = Some x \<Longrightarrow> (k, v, x) \<in> set (accepted c)"
proof -
  have log: "(k, w, x) \<in> set (accepted c) \<longleftrightarrow> issued p (unat w) = Some x" for w x
    using assms(1) by (simp add: cluster_sim_def)
  have "agrees (\<lambda>v. issued p (unat v)) (key_at c (at j) k)"
    using cluster_sim_node [OF assms] by (simp add: node_ok_def)
  then show "committed_version (key_at c (at j) k) \<noteq> 0 \<Longrightarrow>
      (k, committed_version (key_at c (at j) k), committed_value (key_at c (at j) k)) \<in> set (accepted c)"
    and "latest_seen_version (key_at c (at j) k) \<noteq> 0 \<Longrightarrow>
      (k, latest_seen_version (key_at c (at j) k), latest_seen_value (key_at c (at j) k)) \<in> set (accepted c)"
    and "pending_versions (key_at c (at j) k) v = Some x \<Longrightarrow> (k, v, x) \<in> set (accepted c)"
    by (simp_all add: log agrees_def)
qed

text \<open>No version of the key is accepted with two values.\<close>

lemma sim_accepted_unique:
  assumes "sim p c" "(k, v, x) \<in> set (accepted c)" "(k, v, y) \<in> set (accepted c)"
  shows "x = y"
  using assms by (auto simp: cluster_sim_def)

end

end
