(* ===== verification/Chain_Links.thy ===== *)
theory Chain_Links
  imports Replication_Chain
begin

section \<open>One position of the chain: from handler effects to the abstract step\<close>

text \<open>
  The three strategies do the same thing at a position of the chain, up to the storage
  discipline and the way a node recognises that it is the tail: the head records a write and
  forwards it, the others record what they receive and forward it, the tail commits and
  acknowledges. The lemmas here take these effects as equations on the store, the dispatcher
  queue, the predecessor-ack queue and the client acks, and give the law of the locale
  \<open>replication_chain\<close> for the abstract step; each strategy then only supplies its equations.
\<close>

subsection \<open>The state of the key\<close>

lemma Max0_atMost: "Max0 {1..n} = n"
proof -
  have "insert 0 {1..n} = {0..n}" by auto
  then show ?thesis by (auto simp: Max0_def intro: Max_eqI)
qed

lemma node_ok_pending:
  "node_ok n CRAQ k p j ks \<Longrightarrow> w \<in> hist p j \<Longrightarrow>
    w \<le> unat (committed_version ks) \<or> pending_versions ks (word_of_nat w) \<noteq> None"
  unfolding node_ok_def by blast

lemma node_ok_head:
  assumes "node_ok n m k p 0 ks" "pl_inv n p"
  shows "unat (next_version ks) = assigned p" "unat (latest_seen_version ks) = assigned p"
  using assms Max0_atMost by (simp_all add: node_ok_def pl_invD(1))

lemma node_ok_write:
  assumes ok: "node_ok n m k p 0 ks" and inv: "pl_inv n p" and n: "1 \<le> n"
    and bound: "assigned p + 1 < 2 ^ 64" and v: "v = next_version ks + 1"
    and next': "next_version ks' = v"
    and seen: "latest_seen_version ks' = max (latest_seen_version ks) v"
    and comm: "committed_version ks' = (if n = 1 then max (committed_version ks) v else committed_version ks)"
    and agr: "\<And>iss. agrees iss ks \<Longrightarrow> iss v = Some x \<Longrightarrow> agrees iss ks'"
    and pend: "\<And>w. m = CRAQ \<Longrightarrow> pending_versions ks w \<noteq> None \<or> w = v \<Longrightarrow>
      w \<le> committed_version ks' \<or> pending_versions ks' w \<noteq> None"
  shows "unat v = Suc (assigned p) \<and> node_ok n m k (pl_write n x p) 0 ks'"
proof -
  note hd = node_ok_head [OF ok inv]
  have uv: "unat v = Suc (assigned p)"
    using bound hd(1) unat_inc_u64 [of "next_version ks"] v by simp
  have fresh: "issued p (Suc (assigned p)) = None"
    using pl_invD(2) [OF inv] by (metis atLeastAtMost_iff domIff not_less_eq_eq order_refl)
  let ?p = "pl_write n x p"
  have hist: "hist ?p 0 = insert (unat v) (hist p 0)" "finite (hist p 0)"
    using pl_finite [OF inv, of 0] n by (simp_all add: pl_write_def Let_def uv)
  have max0: "Max0 (hist ?p 0) = max (unat v) (Max0 (hist p 0))"
    using hist by simp
  have "agrees (\<lambda>w. issued ?p (unat w)) ks"
    using ok by (auto simp: node_ok_def pl_write_def Let_def fresh elim!: agrees_mono)
  then have agrees': "agrees (\<lambda>w. issued ?p (unat w)) ks'"
    by (rule agr) (simp add: pl_write_def Let_def uv)
  have le: "committed_version ks \<le> committed_version ks'" using comm by simp
  have pend': "w \<le> unat (committed_version ks') \<or> pending_versions ks' (word_of_nat w) \<noteq> None"
    if "m = CRAQ" "w \<in> hist ?p 0" for w
  proof (cases "w = unat v")
    case True
    then show ?thesis using pend [OF that(1), of v] by (simp add: word_le_nat_alt)
  next
    case False
    then have w: "w \<in> hist p 0" using that(2) hist by simp
    then have "w < 2 ^ 64" using pl_hist_range [OF inv, of 0 w] n bound by simp
    then have uw: "unat (word_of_nat w :: u64) = w" by (rule unat_of_nat_u64)
    from node_ok_pending [OF _ w, of n k ks] ok that(1)
    have "w \<le> unat (committed_version ks) \<or> pending_versions ks (word_of_nat w) \<noteq> None"
      by simp
    then show ?thesis
      using pend [OF that(1), of "word_of_nat w"] le uw by (auto simp: word_le_nat_alt)
  qed
  have clean_same: "clean ?p = clean p" by (simp add: pl_write_def Let_def)
  show ?thesis
    using ok uv next' seen comm max0 agrees' pend' hd
    by (auto simp: node_ok_def unat_max_word max.commute clean_same pl_write_def Let_def)
qed

lemma node_ok_receive:
  assumes ok: "node_ok n m k p j ks" and inv: "pl_inv n p" and j: "0 < j" "j < n"
    and bound: "assigned p < 2 ^ 64"
    and seen: "latest_seen_version ks' = max (latest_seen_version ks) v"
    and comm: "committed_version ks' = (if Suc j = n then max (committed_version ks) v else committed_version ks)"
    and agr: "agrees (\<lambda>w. issued p (unat w)) ks'"
    and pend: "\<And>w. m = CRAQ \<Longrightarrow> pending_versions ks w \<noteq> None \<or> w = v \<Longrightarrow>
      w \<le> committed_version ks' \<or> pending_versions ks' w \<noteq> None"
  shows "node_ok n m k (pl_receive n j (unat v) p) j ks'"
proof -
  let ?p = "pl_receive n j (unat v) p"
  have hist: "hist ?p j = insert (unat v) (hist p j)" "finite (hist p j)"
    using pl_finite [OF inv, of j] j by (simp_all add: pl_receive_def)
  have max0: "Max0 (hist ?p j) = max (unat v) (Max0 (hist p j))"
    using hist by simp
  have le: "committed_version ks \<le> committed_version ks'" using comm by simp
  have pend': "w \<le> unat (committed_version ks') \<or> pending_versions ks' (word_of_nat w) \<noteq> None"
    if "m = CRAQ" "w \<in> hist ?p j" for w
  proof (cases "w = unat v")
    case True
    then show ?thesis using pend [OF that(1), of v] by (simp add: word_le_nat_alt)
  next
    case False
    then have w: "w \<in> hist p j" using that(2) hist by simp
    then have "w < 2 ^ 64" using pl_hist_range [OF inv j(2)] bound by fastforce
    then have uw: "unat (word_of_nat w :: u64) = w" by (rule unat_of_nat_u64)
    from node_ok_pending [OF _ w, of n k ks] ok that(1)
    have "w \<le> unat (committed_version ks) \<or> pending_versions ks (word_of_nat w) \<noteq> None"
      by simp
    then show ?thesis
      using pend [OF that(1), of "word_of_nat w"] le uw by (auto simp: word_le_nat_alt)
  qed
  have same: "clean ?p = clean p" "issued ?p = issued p" by (simp_all add: pl_receive_def)
  show ?thesis
    using ok j seen comm max0 agr pend'
    by (auto simp: node_ok_def unat_max_word max.commute same)
qed

lemma node_ok_clean:
  assumes ok: "node_ok n CRAQ k p j (key_state M k)" and inv: "pl_inv n p"
    and bound: "assigned p < 2 ^ 64" and cl: "(j, unat v) \<in> cleans p"
  shows "node_ok n CRAQ k (pl_clean j (unat v) p) j (key_state (mark_version_clean k v M) k)"
proof -
  let ?ks = "key_state M k"
  let ?t = "key_state (mark_version_clean k v M) k"
  let ?p = "pl_clean j (unat v) p"
  have j: "Suc j < n" "unat v \<in> hist p j"
    using pl_invD(5) [OF inv cl] pl_tail_subset [OF inv, of j] by auto
  have hv: "unat v \<le> unat (committed_version ?ks) \<or> pending_versions ?ks v \<noteq> None"
    using node_ok_pending [OF ok j(2)] by simp
  have comm: "unat (committed_version ?t) = max (clean p j) (unat v)"
    using ok j(1) hv by (auto simp: node_ok_def key_state_clean unat_max_word)
  have nz: "v \<noteq> 0" using pl_hist_range [OF inv _ j(2)] j(1) by (auto simp: word_neq_0_unat)
  have agr: "agrees (\<lambda>w. issued p (unat w)) ?t"
    using ok by (auto simp: node_ok_def agrees_def key_state_clean max_def split: option.splits)
  have pend: "w \<le> unat (committed_version ?t) \<or> pending_versions ?t (word_of_nat w) \<noteq> None"
    if w: "w \<in> hist p j" for w
  proof -
    have "w < 2 ^ 64" using pl_hist_range [OF inv _ w] bound j(1) by fastforce
    then have uw: "unat (word_of_nat w :: u64) = w" by (rule unat_of_nat_u64)
    have "committed_version ?ks \<le> committed_version ?t" by (simp add: key_state_clean)
    moreover note node_ok_pending [OF ok w]
    ultimately show ?thesis
      using uw by (auto simp: key_state_clean(6) word_le_nat_alt word_less_nat_alt)
  qed
  have next': "j = 0 \<Longrightarrow> unat (next_version ?t) = assigned p"
    using ok j(2) pl_invD(1) [OF inv] by (auto simp: node_ok_def key_state_clean unat_max_word)
  show ?thesis
    using ok j(1) comm agr pend next'
    by (auto simp: node_ok_def pl_clean_def key_state_clean(2))
qed

subsection \<open>The server around it\<close>

lemma server_okD:
  assumes "server_ok n m at k origin p j sv"
  obtains s where "the_strategy sv = Some (m, s)" "node_ok n m k p j (key_state (by_key s) k)"
  using assms by (auto simp: server_ok_def)

lemma server_ok_put:
  assumes ok: "server_ok n m at k origin p j sv" and st: "the_strategy sv = Some (m, s)"
    and grows: "pl_grows i p p'"
    and node: "node_ok n m k p' j (key_state (store_of r) k)"
    and pq: "pred_ack_queue (support r) = pred_ack_queue s @ qs"
      "\<And>a. a \<in> set qs \<Longrightarrow> ack_key a = k \<Longrightarrow> 0 < j \<and> (j - 1, unat (ack_version a)) \<in> cleans p'"
    and dq: "queue (dispatcher r) = queue (dispatchers sv m) @ ts"
      "\<And>t. t \<in> set ts \<Longrightarrow> prop_ok at k origin p' (task_call t)"
    and al: "client_acks r = ack_log sv @ as"
      "\<And>b a. (b, a) \<in> set as \<Longrightarrow> ack_key a = k \<Longrightarrow> unat (ack_version a) \<in> done_set p'"
  shows "server_ok n m at k origin p' j (put_replica m r sv)"
proof -
  have sub: "cleans p \<subseteq> cleans p'" "done_set p \<subseteq> done_set p'" using grows by (auto simp: pl_grows_def)
  have "\<forall>a \<in> set (pred_ack_queue (support r)). ack_key a = k \<longrightarrow>
      0 < j \<and> (j - 1, unat (ack_version a)) \<in> cleans p'"
    using ok st pq sub(1) by (auto simp: server_ok_def)
  moreover have "\<forall>t \<in> set (queue (((dispatchers sv)(m := dispatcher r)) m')).
      prop_ok at k origin p' (task_call t)" for m'
  proof -
    have "\<forall>t \<in> set (queue (dispatchers sv m')). prop_ok at k origin p' (task_call t)" for m'
      using ok prop_ok_grows [OF _ grows] by (auto simp: server_ok_def)
    then show ?thesis using dq by auto
  qed
  moreover have "\<forall>(b, a) \<in> set (client_acks r). ack_key a = k \<longrightarrow> unat (ack_version a) \<in> done_set p'"
    using ok al sub(2) by (fastforce simp: server_ok_def)
  ultimately show ?thesis using node by (simp add: server_ok_def)
qed

lemma put_replica_same: "the_strategy sv = Some st \<Longrightarrow> put_replica (fst st) (replica_of sv st) sv = sv"
  by (cases sv) (simp add: put_replica_def replica_of_def)

text \<open>A handler called for another key.\<close>

lemma server_ok_other_key:
  assumes "server_ok n m at k origin p j sv" "the_strategy sv = Some (m, s)"
    and "store_of r k = by_key s k"
    and "pred_ack_queue (support r) = pred_ack_queue s @ qs" "\<And>a. a \<in> set qs \<Longrightarrow> ack_key a \<noteq> k"
    and "queue (dispatcher r) = queue (dispatchers sv m) @ ts"
      "\<And>t. t \<in> set ts \<Longrightarrow> prop_key (task_req t) \<noteq> k"
    and "client_acks r = ack_log sv @ as" "\<And>b a. (b, a) \<in> set as \<Longrightarrow> ack_key a \<noteq> k"
  shows "server_ok n m at k origin p j (put_replica m r sv)"
proof (rule server_ok_put [OF assms(1,2) pl_grows_refl _ assms(4) _ assms(6) _ assms(8)])
  have "key_state (store_of r) k = key_state (by_key s) k"
    using assms(3) by (simp add: key_state_def)
  then show "node_ok n m k p j (key_state (store_of r) k)"
    using assms(1,2) by (auto simp: server_ok_def)
qed (use assms(5,7,9) in \<open>auto simp: prop_ok_def task_call_def\<close>)

subsection \<open>A storage discipline used at every position\<close>

locale chain_store = replica_store +
  fixes m :: ReplicationMode
  assumes receive_pending: "m = CRAQ \<Longrightarrow> pending_versions (key_state M key) w \<noteq> None \<or> w = v \<Longrightarrow>
      w \<le> committed_version (key_state (receive key x v M) key) \<or>
      pending_versions (key_state (receive key x v M) key) w \<noteq> None"
    and deliver_pending: "m = CRAQ \<Longrightarrow> pending_versions (key_state M key) w \<noteq> None \<or> w = v \<Longrightarrow>
      w \<le> committed_version (key_state (deliver key x v M) key) \<or>
      pending_versions (key_state (deliver key x v M) key) w \<noteq> None"

context chain_store
begin

text \<open>What the head must do with a write, and what any position must do with a propagated one.\<close>

lemma head_write:
  assumes ok: "server_ok n m at k origin p 0 sv" and inv: "pl_inv n p" and n: "1 \<le> n"
    and bound: "assigned p + 1 < 2 ^ 64" and st: "the_strategy sv = Some (m, s)"
    and v: "v = next_version (key_state (by_key s) k) + 1"
    and store: "store_of r = (if n = 1 then deliver else receive) k x v
      (snd (assign_next_version k (by_key s)))"
    and pq: "pred_ack_queue (support r) = pred_ack_queue s"
    and dq: "queue (dispatcher r) = queue (dispatchers sv m) @ ts"
      "\<And>t. t \<in> set ts \<Longrightarrow> n \<noteq> 1 \<and> task_successor t = at 1 \<and> prop_key (task_req t) = k \<and>
        prop_value (task_req t) = x \<and> prop_version (task_req t) = v \<and> prop_origin_id (task_req t) = origin"
    and al: "client_acks r = ack_log sv @ as"
      "\<And>b a. (b, a) \<in> set as \<Longrightarrow> n = 1 \<and> ack_version a = v"
  shows "unat v = Suc (assigned p) \<and>
    server_ok n m at k origin (pl_write n x p) 0 (put_replica m r sv)"
proof -
  let ?M = "snd (assign_next_version k (by_key s))"
  let ?ks = "key_state (by_key s) k"
  have ok': "node_ok n m k p 0 ?ks" using ok st by (auto simp: server_ok_def)
  have vmax: "max (next_version ?ks + 1) v = v" by (simp add: v)
  have node: "unat v = Suc (assigned p) \<and> node_ok n m k (pl_write n x p) 0 (key_state (store_of r) k)"
  proof (rule node_ok_write [OF ok' inv n bound v])
    show "next_version (key_state (store_of r) k) = v"
      using vmax by (simp add: store receive_next deliver_next)
    show "latest_seen_version (key_state (store_of r) k) = max (latest_seen_version ?ks) v"
      by (simp add: store receive_seen deliver_seen)
    show "committed_version (key_state (store_of r) k)
      = (if n = 1 then max (committed_version ?ks) v else committed_version ?ks)"
      by (simp add: store receive_committed deliver_committed)
    show "agrees iss (key_state (store_of r) k)" if "agrees iss ?ks" "iss v = Some x" for iss
    proof -
      have "agrees iss (key_state ?M k)" using that(1) by (simp add: agrees_def)
      then show ?thesis using that(2) by (simp add: store receive_agrees deliver_agrees)
    qed
    show "w \<le> committed_version (key_state (store_of r) k) \<or>
        pending_versions (key_state (store_of r) k) w \<noteq> None"
      if "m = CRAQ" "pending_versions ?ks w \<noteq> None \<or> w = v" for w
      using receive_pending [OF that(1), of ?M k w v x] deliver_pending [OF that(1), of ?M k w v x] that(2)
      by (simp add: store)
  qed
  have "server_ok n m at k origin (pl_write n x p) 0 (put_replica m r sv)"
  proof (rule server_ok_put [OF ok st pl_grows_write [OF inv] node [THEN conjunct2] _ _ dq(1) _ al(1)])
    show "pred_ack_queue (support r) = pred_ack_queue s @ []" using pq by simp
    show "prop_ok at k origin (pl_write n x p) (task_call t)" if "t \<in> set ts" for t
      using dq(2) [OF that] node by (auto simp: prop_ok_def task_call_def pl_write_def Let_def)
    show "unat (ack_version a) \<in> done_set (pl_write n x p)" if "(b, a) \<in> set as" for b a
      using al(2) [OF that] node by (auto simp: pl_write_def Let_def)
  qed simp
  then show ?thesis using node by simp
qed

lemma next_propagate:
  assumes ok: "server_ok n m at k origin p j sv" and inv: "pl_inv n p"
    and bound: "assigned p < 2 ^ 64" and st: "the_strategy sv = Some (m, s)"
    and sent: "(j, unat v) \<in> sent p" and iss: "issued p (unat v) = Some x"
    and store: "store_of r = (if Suc j = n then deliver else receive) k x v (by_key s)"
    and pq: "pred_ack_queue (support r) = pred_ack_queue s @ qs"
      "\<And>a. a \<in> set qs \<Longrightarrow> Suc j = n \<and> ack_version a = v"
    and dq: "queue (dispatcher r) = queue (dispatchers sv m) @ ts"
      "\<And>t. t \<in> set ts \<Longrightarrow> Suc j \<noteq> n \<and> task_successor t = at (Suc j) \<and> prop_key (task_req t) = k \<and>
        prop_value (task_req t) = x \<and> prop_version (task_req t) = v \<and> prop_origin_id (task_req t) = origin"
    and al: "client_acks r = ack_log sv @ as"
      "\<And>b a. (b, a) \<in> set as \<Longrightarrow> Suc j = n \<and> ack_version a = v"
  shows "server_ok n m at k origin (pl_receive n j (unat v) p) j (put_replica m r sv)"
proof -
  let ?p = "pl_receive n j (unat v) p"
  let ?ks = "key_state (by_key s) k"
  have j: "0 < j" "j < n" using pl_invD(4) [OF inv sent] by auto
  have ok': "node_ok n m k p j ?ks" using ok st by (auto simp: server_ok_def)
  have node: "node_ok n m k ?p j (key_state (store_of r) k)"
  proof (rule node_ok_receive [OF ok' inv j bound])
    show "latest_seen_version (key_state (store_of r) k) = max (latest_seen_version ?ks) v"
      by (simp add: store receive_seen deliver_seen)
    show "committed_version (key_state (store_of r) k)
      = (if Suc j = n then max (committed_version ?ks) v else committed_version ?ks)"
      by (simp add: store receive_committed deliver_committed)
    have "agrees (\<lambda>w. issued p (unat w)) ?ks" using ok' by (simp add: node_ok_def)
    then show "agrees (\<lambda>w. issued p (unat w)) (key_state (store_of r) k)"
      using iss by (simp add: store receive_agrees deliver_agrees)
    show "w \<le> committed_version (key_state (store_of r) k) \<or>
        pending_versions (key_state (store_of r) k) w \<noteq> None"
      if "m = CRAQ" "pending_versions ?ks w \<noteq> None \<or> w = v" for w
      using receive_pending [OF that, of x] deliver_pending [OF that, of x] by (simp add: store)
  qed
  show ?thesis
  proof (rule server_ok_put [OF ok st pl_grows_receive node pq(1) _ dq(1) _ al(1)])
    show "0 < j \<and> (j - 1, unat (ack_version a)) \<in> cleans ?p" if "a \<in> set qs" for a
      using pq(2) [OF that] j by (auto simp: pl_receive_def)
    show "prop_ok at k origin ?p (task_call t)" if "t \<in> set ts" for t
      using dq(2) [OF that] iss by (auto simp: prop_ok_def task_call_def pl_receive_def)
    show "unat (ack_version a) \<in> done_set ?p" if "(b, a) \<in> set as" for b a
      using al(2) [OF that] by (auto simp: pl_receive_def)
  qed
qed

end

interpretation chain_newest: chain_store record_local_write_if_newer deliver_newest CHAIN
  by unfold_locales simp_all

interpretation crown_newest: chain_store record_local_write_if_newer deliver_newest CROWN
  by unfold_locales simp_all

interpretation craq_versioned: chain_store record_local_write deliver_versioned CRAQ
  by unfold_locales
    (auto simp: deliver_versioned_def key_state_record key_state_clean not_le)

end
