(* ===== verification/Topologies.thy ===== *)
theory Topologies
  imports Chain_Links
begin

section \<open>The laws hold for each strategy on its topology\<close>

text \<open>
  \<open>line_topology\<close> is what \<open>Configure\<close> leaves on the servers of a CHAIN or CRAQ deployment,
  \<open>ring_topology\<close> on those of a CROWN ring seen from one key: position 0 is the node that
  owns the key as head, position \<open>j\<close> the node \<open>j\<close> places clockwise from it. On these
  topologies the handlers of the three strategies satisfy the laws of \<open>replication_chain\<close>.
\<close>

definition line_topology ::
    "nat \<Rightarrow> ReplicationMode \<Rightarrow> (nat \<Rightarrow> stub) \<Rightarrow> string \<Rightarrow> (stub \<Rightarrow> topo) \<Rightarrow> bool" where
  "line_topology n m at origin T \<longleftrightarrow>
     (\<forall>j < n. \<exists>nd tl. T (at j) = (nd, Some (m,
          if j = 0 then None else Some (at (j - 1)),
          if Suc j < n then Some (at (Suc j)) else None, tl)) \<and>
        Node_is_head nd = (j = 0) \<and> Node_is_tail nd = (Suc j = n) \<and>
        (j = 0 \<longrightarrow> Node_id nd = origin) \<and> tl \<in> {None, Some (at (n - 1))})"

definition ring_topology :: "nat \<Rightarrow> (nat \<Rightarrow> stub) \<Rightarrow> nat \<Rightarrow> (stub \<Rightarrow> topo) \<Rightarrow> bool" where
  "ring_topology n at h T \<longleftrightarrow>
     h < n \<and> int n \<le> int_max \<and>
     (\<forall>j < n. \<exists>nd tl. T (at j) = (nd, Some (CROWN,
          Some (at ((j + n - 1) mod n)), Some (at (Suc j mod n)), tl)) \<and>
        crown_node_count (config nd) = int n \<and> node_index (config nd) = int ((h + j) mod n))"

lemma line_topology_server:
  assumes "line_topology n m at origin T" "fixed (T (at j)) sv" "j < n" "the_strategy sv = Some (m', s)"
  shows "m' = m" "predecessor_stub s = (if j = 0 then None else Some (at (j - 1)))"
    "successor_stub s = (if Suc j < n then Some (at (Suc j)) else None)"
    "Node_is_head (the_node sv) = (j = 0)" "Node_is_tail (the_node sv) = (Suc j = n)"
    "j = 0 \<Longrightarrow> Node_id (the_node sv) = origin" "wf_client_cache s"
    "tail_stub s \<in> {None, Some (at (n - 1))}"
proof -
  obtain nd tl where top: "T (at j) = (nd, Some (m, if j = 0 then None else Some (at (j - 1)),
      if Suc j < n then Some (at (Suc j)) else None, tl))"
    and nd: "Node_is_head nd = (j = 0)" "Node_is_tail nd = (Suc j = n)" "j = 0 \<longrightarrow> Node_id nd = origin"
      "tl \<in> {None, Some (at (n - 1))}"
    using mp [OF spec [OF assms(1) [unfolded line_topology_def], of j] assms(3)]
    by (elim exE conjE)
  from top assms(2,4) have eq: "the_node sv = nd" "m' = m"
    "predecessor_stub s = (if j = 0 then None else Some (at (j - 1)))"
    "successor_stub s = (if Suc j < n then Some (at (Suc j)) else None)" "tail_stub s = tl"
    "wf_client_cache s"
    by (simp_all add: fixed_def topo_of_def cache_ok_def)
  show "m' = m" "predecessor_stub s = (if j = 0 then None else Some (at (j - 1)))"
    "successor_stub s = (if Suc j < n then Some (at (Suc j)) else None)"
    "Node_is_head (the_node sv) = (j = 0)" "Node_is_tail (the_node sv) = (Suc j = n)"
    "j = 0 \<Longrightarrow> Node_id (the_node sv) = origin" "wf_client_cache s"
    "tail_stub s \<in> {None, Some (at (n - 1))}"
    using nd eq by simp_all
qed

lemma ring_topology_server:
  assumes "ring_topology n at h T" "fixed (T (at j)) sv" "j < n" "the_strategy sv = Some (m', s)"
  shows "m' = CROWN" "predecessor_stub s = Some (at ((j + n - 1) mod n))"
    "successor_stub s = Some (at (Suc j mod n))"
    "crown_node_count (config (the_node sv)) = int n"
    "node_index (config (the_node sv)) = int ((h + j) mod n)" "wf_client_cache s"
proof -
  have "\<forall>j < n. \<exists>nd tl. T (at j) = (nd, Some (CROWN,
          Some (at ((j + n - 1) mod n)), Some (at (Suc j mod n)), tl)) \<and>
        crown_node_count (config nd) = int n \<and> node_index (config nd) = int ((h + j) mod n)"
    using assms(1) unfolding ring_topology_def by (elim conjE)
  from mp [OF spec [OF this, of j] assms(3)]
  obtain nd tl where top: "T (at j) = (nd, Some (CROWN, Some (at ((j + n - 1) mod n)),
      Some (at (Suc j mod n)), tl))"
    and nd: "crown_node_count (config nd) = int n" "node_index (config nd) = int ((h + j) mod n)"
    by (elim exE conjE)
  from top assms(2,4) have eq: "the_node sv = nd" "m' = CROWN"
    "predecessor_stub s = Some (at ((j + n - 1) mod n))"
    "successor_stub s = Some (at (Suc j mod n))" "wf_client_cache s"
    by (simp_all add: fixed_def topo_of_def cache_ok_def)
  show "m' = CROWN" "predecessor_stub s = Some (at ((j + n - 1) mod n))"
    "successor_stub s = Some (at (Suc j mod n))"
    "crown_node_count (config (the_node sv)) = int n"
    "node_index (config (the_node sv)) = int ((h + j) mod n)" "wf_client_cache s"
    using nd eq by simp_all
qed

subsection \<open>Each RPC through its strategy\<close>

lemma rpc_Write_strategy:
  assumes "the_strategy sv = Some (m, s)" "rpc_Write rpc req sv = ((st, resp), sv')"
    and "h = strategy_handle_write m rpc req (the_node sv) (replica_of sv (m, s))"
  shows "sv' = put_replica m (snd h) sv"
    "resp = (case fst h of Inl _ \<Rightarrow> None | Inr w \<Rightarrow> Some w)"
  using assms by (auto simp: rpc_Write_def status_of_def split_beta split: sum.splits)

lemma rpc_Propagate_strategy:
  assumes "the_strategy sv = Some (m, s)" "rpc_Propagate rpc req sv = (res, sv')"
  shows "sv' = put_replica m
    (snd (strategy_handle_propagate m rpc req (the_node sv) (replica_of sv (m, s)))) sv"
  using assms by (auto simp: rpc_Propagate_def split_beta)

lemma rpc_Ack_strategy:
  assumes "the_strategy sv = Some (m, s)" "rpc_Ack req sv = (res, sv')"
  shows "sv' = put_replica m (snd (strategy_handle_ack m req (the_node sv) (replica_of sv (m, s)))) sv"
  using assms by (auto simp: rpc_Ack_def split_beta)

text \<open>CHAIN and CROWN refuse an Ack: the abstract step changes nothing their nodes keep.\<close>

lemma server_ok_pl_clean:
  assumes "m \<noteq> CRAQ" "server_ok n m at k origin p j sv"
  shows "server_ok n m at k origin (pl_clean i v p) j sv"
proof -
  from server_okD [OF assms(2)] obtain s where s: "the_strategy sv = Some (m, s)"
    "node_ok n m k p j (key_state (by_key s) k)" by blast
  have "server_ok n m at k origin (pl_clean i v p) j (put_replica m (replica_of sv (m, s)) sv)"
    by (rule server_ok_put [OF assms(2) s(1) pl_grows_clean, where qs = "[]" and ts = "[]" and as = "[]"])
      (use assms(1) s in \<open>auto simp: node_ok_def pl_clean_def\<close>)
  then show ?thesis using put_replica_same [OF s(1)] by simp
qed

lemma rpc_Ack_refused:
  assumes "m \<noteq> CRAQ" "the_strategy sv = Some (m, s)" "rpc_Ack req sv = (res, sv')"
  shows "sv' = sv"
  using rpc_Ack_strategy [OF assms(2,3)] put_replica_same [OF assms(2)] assms(1)
  by (cases m) (simp_all add: strategy_handle_ack_def chain_handle_ack_def crown_handle_ack_def)

subsection \<open>CHAIN\<close>

lemma CHAIN_write_head:
  assumes n: "1 \<le> n" and T: "line_topology n CHAIN at origin T"
    and fx: "fixed (T (at 0)) sv" and ok: "server_ok n CHAIN at k origin p 0 sv" and inv: "pl_inv n p"
    and b: "assigned p + 1 < 2 ^ 64" and key: "wreq_key req = k"
    and rpc: "rpc_Write rpc req sv = ((st, resp), sv')"
  shows "(\<exists>w. resp = Some w \<and> unat (wresp_version w) = Suc (assigned p)) \<and>
      server_ok n CHAIN at k origin (pl_write n (wreq_value req) p) 0 sv'"
proof -
  from server_okD [OF ok] obtain s where s: "the_strategy sv = Some (CHAIN, s)" by blast
  note top = line_topology_server [OF T fx _ s]
  let ?h = "chain_handle_write rpc req (the_node sv) (replica_of sv (CHAIN, s))"
  have hd: "Node_is_head (the_node sv)" and tl: "Node_is_tail (the_node sv) = (n = 1)"
    using top(4,5) n by auto
  have r: "sv' = put_replica CHAIN (snd ?h) sv"
    "resp = Some (accepted_response (next_version (key_state (by_key s) k) + 1))"
    using rpc_Write_strategy [OF s rpc refl] key
    by (simp_all add: strategy_handle_write_def chain_write_result [OF hd])
  have "unat (next_version (key_state (by_key s) k) + 1) = Suc (assigned p) \<and>
    server_ok n CHAIN at k origin (pl_write n (wreq_value req) p) 0 (put_replica CHAIN (snd ?h) sv)"
  proof (rule chain_newest.head_write [OF ok inv n b s refl])
    show "queue (dispatcher (snd ?h)) = queue (dispatchers sv CHAIN) @
      (if n = 1 then [] else [\<lparr>task_successor = at 1, task_req = make_propagate req
        (next_version (key_state (by_key s) k) + 1) origin,
        task_from = chain_node_label (the_node sv)\<rparr>])"
      using top(3,6) n by (simp add: chain_write_queue [OF hd] tl key)
  qed (use top(7) n in \<open>auto simp: chain_write_store [OF hd] tl key Let_def frame_simps
      chain_write_acks [OF hd] make_propagate_def make_ack_def split: if_splits\<close>)
  then show ?thesis using r by simp
qed

lemma CHAIN_write_elsewhere:
  assumes T: "line_topology n CHAIN at origin T" and "fixed (T (at j)) sv"
    and s: "the_strategy sv = Some (CHAIN, s)" and "0 < j" "j < n"
    and rpc: "rpc_Write rpc req sv = ((st, resp), sv')"
  shows "resp = None \<and> sv' = sv"
proof -
  have "\<not> Node_is_head (the_node sv)" using assms line_topology_server(4) [OF T] by simp
  then show ?thesis
    using rpc_Write_strategy [OF s rpc refl] put_replica_same [OF s]
    by (simp add: strategy_handle_write_def chain_write_reject)
qed

lemma CHAIN_write_other:
  assumes T: "line_topology n CHAIN at origin T"
    and fx: "fixed (T (at j)) sv" and ok: "server_ok n CHAIN at k origin p j sv" and j: "j < n"
    and key: "wreq_key req \<noteq> k" and rpc: "rpc_Write rpc req sv = ((st, resp), sv')"
  shows "server_ok n CHAIN at k origin p j sv'"
proof -
  from server_okD [OF ok] obtain s where s: "the_strategy sv = Some (CHAIN, s)" by blast
  note top = line_topology_server [OF T fx j s]
  let ?h = "chain_handle_write rpc req (the_node sv) (replica_of sv (CHAIN, s))"
  have r: "sv' = put_replica CHAIN (snd ?h) sv"
    using rpc_Write_strategy [OF s rpc refl] by (simp add: strategy_handle_write_def)
  show ?thesis
  proof (cases "Node_is_head (the_node sv)")
    case False
    then show ?thesis using r ok put_replica_same [OF s] by (simp add: chain_write_reject)
  next
    case hd: True
    have "store_of (snd ?h) k = by_key s k"
      using chain.write_other [of k req rpc "the_node sv" "replica_of sv (CHAIN, s)"] key by simp
    then show ?thesis
      unfolding r using top(7) key
      by (intro server_ok_other_key [OF ok s, where qs = "[]"])
        (auto simp: frame_simps chain_write_queue [OF hd] chain_write_acks [OF hd]
          make_propagate_def make_ack_def split: option.splits if_splits)
  qed
qed

lemma CHAIN_propagate_mine:
  assumes T: "line_topology n CHAIN at origin T"
    and fx: "fixed (T (at j)) sv" and ok: "server_ok n CHAIN at k origin p j sv" and inv: "pl_inv n p"
    and b: "assigned p < 2 ^ 64" and j: "j < n" and key: "prop_key preq = k"
    and sent: "(j, unat (prop_version preq)) \<in> sent p"
    and iss: "issued p (unat (prop_version preq)) = Some (prop_value preq)"
    and org: "prop_origin_id preq = origin" and rpc: "rpc_Propagate rpc preq sv = (pres, sv')"
  shows "server_ok n CHAIN at k origin (pl_receive n j (unat (prop_version preq)) p) j sv'"
proof -
  from server_okD [OF ok] obtain s where s: "the_strategy sv = Some (CHAIN, s)" by blast
  note top = line_topology_server [OF T fx j s]
  show ?thesis
    unfolding rpc_Propagate_strategy [OF s rpc]
  proof (rule chain_newest.next_propagate [OF ok inv b s sent iss, where qs = "[]"])
    show "queue (dispatcher (snd (strategy_handle_propagate CHAIN rpc preq (the_node sv)
        (replica_of sv (CHAIN, s))))) = queue (dispatchers sv CHAIN) @
      (if Suc j = n then [] else [\<lparr>task_successor = at (Suc j), task_req = preq,
        task_from = chain_node_label (the_node sv)\<rparr>])"
      using top(3,5) j by (simp add: chain_propagate_queue strategy_handle_propagate_def)
  qed (use top(5,7) key org j in \<open>auto simp: strategy_handle_propagate_def chain_propagate_store
      frame_simps chain_propagate_acks make_ack_def split: if_splits\<close>)
qed

lemma CHAIN_propagate_other:
  assumes T: "line_topology n CHAIN at origin T"
    and fx: "fixed (T (at j)) sv" and ok: "server_ok n CHAIN at k origin p j sv" and j: "j < n"
    and key: "prop_key preq \<noteq> k" and rpc: "rpc_Propagate rpc preq sv = (pres, sv')"
  shows "server_ok n CHAIN at k origin p j sv'"
proof -
  from server_okD [OF ok] obtain s where s: "the_strategy sv = Some (CHAIN, s)" by blast
  note top = line_topology_server [OF T fx j s]
  show ?thesis
    unfolding rpc_Propagate_strategy [OF s rpc] using top(7) key
    by (intro server_ok_other_key [OF ok s, where qs = "[]"])
      (auto simp: strategy_handle_propagate_def frame_simps chain_propagate_queue
        chain_propagate_acks chain.propagate_other make_ack_def split: option.splits if_splits)
qed

lemma refused_ack:
  assumes m: "m \<noteq> CRAQ" and ok: "server_ok n m at k origin p j sv" and rpc: "rpc_Ack a sv = (res, sv')"
  shows "server_ok n m at k origin (pl_clean j v p) j sv'" "server_ok n m at k origin p j sv'"
proof -
  from server_okD [OF ok] obtain s where s: "the_strategy sv = Some (m, s)" by blast
  have same: "sv' = sv" by (rule rpc_Ack_refused [OF m s rpc])
  show "server_ok n m at k origin (pl_clean j v p) j sv'" "server_ok n m at k origin p j sv'"
    using server_ok_pl_clean [OF m ok] ok by (simp_all add: same)
qed

lemma replication_chain_CHAIN:
  assumes n: "1 \<le> n" and inj: "inj_on at {..<n}" and T: "line_topology n CHAIN at origin T"
  shows "replication_chain n CHAIN at k origin T (\<lambda>_. True)"
proof (unfold_locales, fact n, fact inj)
  show "predecessor_stub s = Some (at (j - 1))"
    if "fixed (T (at j)) sv" "0 < j" "j < n" "the_strategy sv = Some (CHAIN, s)" for j sv s
    using line_topology_server [OF T] that by simp
qed (rule CHAIN_write_head [OF n T] CHAIN_write_elsewhere [OF T] CHAIN_write_other [OF T]
    CHAIN_propagate_mine [OF T] CHAIN_propagate_other [OF T] refused_ack; (assumption | simp))+

subsection \<open>CRAQ\<close>

lemma CRAQ_write_head:
  assumes n: "1 \<le> n" and T: "line_topology n CRAQ at origin T"
    and fx: "fixed (T (at 0)) sv" and ok: "server_ok n CRAQ at k origin p 0 sv" and inv: "pl_inv n p"
    and b: "assigned p + 1 < 2 ^ 64" and key: "wreq_key req = k"
    and rpc: "rpc_Write rpc req sv = ((st, resp), sv')"
  shows "(\<exists>w. resp = Some w \<and> unat (wresp_version w) = Suc (assigned p)) \<and>
      server_ok n CRAQ at k origin (pl_write n (wreq_value req) p) 0 sv'"
proof -
  from server_okD [OF ok] obtain s where s: "the_strategy sv = Some (CRAQ, s)" by blast
  note top = line_topology_server [OF T fx _ s]
  let ?h = "craq_handle_write rpc req (the_node sv) (replica_of sv (CRAQ, s))"
  have hd: "Node_is_head (the_node sv)" and tl: "Node_is_tail (the_node sv) = (n = 1)"
    using top(4,5) n by auto
  have r: "sv' = put_replica CRAQ (snd ?h) sv"
    "resp = Some (accepted_response (next_version (key_state (by_key s) k) + 1))"
    using rpc_Write_strategy [OF s rpc refl] key
    by (simp_all add: strategy_handle_write_def craq_write_result [OF hd])
  have "unat (next_version (key_state (by_key s) k) + 1) = Suc (assigned p) \<and>
    server_ok n CRAQ at k origin (pl_write n (wreq_value req) p) 0 (put_replica CRAQ (snd ?h) sv)"
  proof (rule craq_versioned.head_write [OF ok inv n b s refl])
    show "queue (dispatcher (snd ?h)) = queue (dispatchers sv CRAQ) @
      (if n = 1 then [] else [\<lparr>task_successor = at 1, task_req = make_propagate req
        (next_version (key_state (by_key s) k) + 1) origin,
        task_from = craq_node_label (the_node sv)\<rparr>])"
      using top(3,6) n by (simp add: craq_write_queue [OF hd] tl key)
  qed (use top(7) n in \<open>auto simp: craq_ack_queues craq_write_store [OF hd] tl key Let_def frame_simps
      craq_write_acks [OF hd] make_propagate_def make_ack_def split: if_splits\<close>)
  then show ?thesis using r by simp
qed

lemma CRAQ_write_elsewhere:
  assumes T: "line_topology n CRAQ at origin T" and "fixed (T (at j)) sv"
    and s: "the_strategy sv = Some (CRAQ, s)" and "0 < j" "j < n"
    and rpc: "rpc_Write rpc req sv = ((st, resp), sv')"
  shows "resp = None \<and> sv' = sv"
proof -
  have "\<not> Node_is_head (the_node sv)" using assms line_topology_server(4) [OF T] by simp
  then show ?thesis
    using rpc_Write_strategy [OF s rpc refl] put_replica_same [OF s]
    by (simp add: strategy_handle_write_def craq_write_reject)
qed

lemma CRAQ_write_other:
  assumes T: "line_topology n CRAQ at origin T"
    and fx: "fixed (T (at j)) sv" and ok: "server_ok n CRAQ at k origin p j sv" and j: "j < n"
    and key: "wreq_key req \<noteq> k" and rpc: "rpc_Write rpc req sv = ((st, resp), sv')"
  shows "server_ok n CRAQ at k origin p j sv'"
proof -
  from server_okD [OF ok] obtain s where s: "the_strategy sv = Some (CRAQ, s)" by blast
  note top = line_topology_server [OF T fx j s]
  let ?h = "craq_handle_write rpc req (the_node sv) (replica_of sv (CRAQ, s))"
  have r: "sv' = put_replica CRAQ (snd ?h) sv"
    using rpc_Write_strategy [OF s rpc refl] by (simp add: strategy_handle_write_def)
  show ?thesis
  proof (cases "Node_is_head (the_node sv)")
    case False
    then show ?thesis using r ok put_replica_same [OF s] by (simp add: craq_write_reject)
  next
    case hd: True
    have "store_of (snd ?h) k = by_key s k"
      using craq.write_other [of k req rpc "the_node sv" "replica_of sv (CRAQ, s)"] key by simp
    then show ?thesis
      unfolding r using top(7) key
      by (intro server_ok_other_key [OF ok s, where qs = "[]"])
        (auto simp: craq_ack_queues frame_simps craq_write_queue [OF hd] craq_write_acks [OF hd]
          make_propagate_def make_ack_def split: option.splits if_splits)
  qed
qed

lemma CRAQ_propagate_mine:
  assumes T: "line_topology n CRAQ at origin T"
    and fx: "fixed (T (at j)) sv" and ok: "server_ok n CRAQ at k origin p j sv" and inv: "pl_inv n p"
    and b: "assigned p < 2 ^ 64" and j: "j < n" and key: "prop_key preq = k"
    and sent: "(j, unat (prop_version preq)) \<in> sent p"
    and iss: "issued p (unat (prop_version preq)) = Some (prop_value preq)"
    and org: "prop_origin_id preq = origin" and rpc: "rpc_Propagate rpc preq sv = (pres, sv')"
  shows "server_ok n CRAQ at k origin (pl_receive n j (unat (prop_version preq)) p) j sv'"
proof -
  from server_okD [OF ok] obtain s where s: "the_strategy sv = Some (CRAQ, s)" by blast
  note top = line_topology_server [OF T fx j s]
  show ?thesis
    unfolding rpc_Propagate_strategy [OF s rpc]
  proof (rule craq_versioned.next_propagate [OF ok inv b s sent iss])
    show "pred_ack_queue (support (snd (strategy_handle_propagate CRAQ rpc preq (the_node sv)
        (replica_of sv (CRAQ, s))))) = pred_ack_queue s @
      (if Suc j = n \<and> j \<noteq> 0 then [make_ack (prop_key preq) (prop_version preq)
         (prop_client_addr preq) (prop_request_id preq)] else [])"
      using top(4,5) by (simp add: craq_ack_queues strategy_handle_propagate_def)
    show "queue (dispatcher (snd (strategy_handle_propagate CRAQ rpc preq (the_node sv)
        (replica_of sv (CRAQ, s))))) = queue (dispatchers sv CRAQ) @
      (if Suc j = n then [] else [\<lparr>task_successor = at (Suc j), task_req = preq,
        task_from = craq_node_label (the_node sv)\<rparr>])"
      using top(3,5) j by (simp add: craq_propagate_queue strategy_handle_propagate_def)
  qed (use top(5,7) key org j in \<open>auto simp: strategy_handle_propagate_def craq_propagate_store
      frame_simps craq_propagate_acks make_ack_def split: if_splits\<close>)
qed

lemma CRAQ_propagate_other:
  assumes T: "line_topology n CRAQ at origin T"
    and fx: "fixed (T (at j)) sv" and ok: "server_ok n CRAQ at k origin p j sv" and j: "j < n"
    and key: "prop_key preq \<noteq> k" and rpc: "rpc_Propagate rpc preq sv = (pres, sv')"
  shows "server_ok n CRAQ at k origin p j sv'"
proof -
  from server_okD [OF ok] obtain s where s: "the_strategy sv = Some (CRAQ, s)" by blast
  note top = line_topology_server [OF T fx j s]
  show ?thesis
    unfolding rpc_Propagate_strategy [OF s rpc] using top(7) key
    by (intro server_ok_other_key [OF ok s])
      (auto simp: strategy_handle_propagate_def craq_ack_queues frame_simps craq_propagate_queue
        craq_propagate_acks craq.propagate_other make_ack_def split: option.splits if_splits)
qed

lemma CRAQ_ack:
  assumes T: "line_topology n CRAQ at origin T" and fx: "fixed (T (at j)) sv" and j: "j < n"
    and s: "the_strategy sv = Some (CRAQ, s)" and rpc: "rpc_Ack a sv = (res, sv')"
  obtains r where "sv' = put_replica CRAQ r sv"
    "store_of r = mark_version_clean (ack_key a) (ack_version a) (by_key s)"
    "pred_ack_queue (support r) = pred_ack_queue s @ (if j = 0 then [] else [a])"
    "queue (dispatcher r) = queue (dispatchers sv CRAQ) @ []" "client_acks r = ack_log sv @ []"
proof (rule that)
  show "sv' = put_replica CRAQ (snd (craq_handle_ack a (the_node sv) (replica_of sv (CRAQ, s)))) sv"
    using rpc_Ack_strategy [OF s rpc] by (simp add: strategy_handle_ack_def)
qed (use line_topology_server(4) [OF T fx j s] in
  \<open>auto simp: craq_ack_store craq_ack_queues frame_simps\<close>)

lemma CRAQ_ack_mine:
  assumes T: "line_topology n CRAQ at origin T" and fx: "fixed (T (at j)) sv"
    and ok: "server_ok n CRAQ at k origin p j sv" and inv: "pl_inv n p" and b: "assigned p < 2 ^ 64"
    and j: "j < n" and key: "ack_key a = k" and cl: "(j, unat (ack_version a)) \<in> cleans p"
    and rpc: "rpc_Ack a sv = (res, sv')"
  shows "server_ok n CRAQ at k origin (pl_clean j (unat (ack_version a)) p) j sv'"
proof -
  from server_okD [OF ok] obtain s where s: "the_strategy sv = Some (CRAQ, s)"
    "node_ok n CRAQ k p j (key_state (by_key s) k)" by blast
  from CRAQ_ack [OF T fx j s(1) rpc] obtain r where r: "sv' = put_replica CRAQ r sv"
    "store_of r = mark_version_clean (ack_key a) (ack_version a) (by_key s)"
    "pred_ack_queue (support r) = pred_ack_queue s @ (if j = 0 then [] else [a])"
    "queue (dispatcher r) = queue (dispatchers sv CRAQ) @ []" "client_acks r = ack_log sv @ []"
    by blast
  show ?thesis
    unfolding r(1)
  proof (rule server_ok_put [OF ok s(1) pl_grows_clean _ r(3) _ r(4) _ r(5)])
    show "node_ok n CRAQ k (pl_clean j (unat (ack_version a)) p) j (key_state (store_of r) k)"
      using node_ok_clean [OF s(2) inv b cl] key by (simp add: r(2))
  qed (auto simp: pl_clean_def split: if_splits)
qed

lemma CRAQ_ack_other:
  assumes T: "line_topology n CRAQ at origin T" and fx: "fixed (T (at j)) sv"
    and ok: "server_ok n CRAQ at k origin p j sv" and j: "j < n" and key: "ack_key a \<noteq> k"
    and rpc: "rpc_Ack a sv = (res, sv')"
  shows "server_ok n CRAQ at k origin p j sv'"
proof -
  from server_okD [OF ok] obtain s where s: "the_strategy sv = Some (CRAQ, s)" by blast
  from CRAQ_ack [OF T fx j s rpc] obtain r where r: "sv' = put_replica CRAQ r sv"
    "store_of r = mark_version_clean (ack_key a) (ack_version a) (by_key s)"
    "pred_ack_queue (support r) = pred_ack_queue s @ (if j = 0 then [] else [a])"
    "queue (dispatcher r) = queue (dispatchers sv CRAQ) @ []" "client_acks r = ack_log sv @ []"
    by blast
  show ?thesis
    unfolding r(1) using key
    by (intro server_ok_other_key [OF ok s _ r(3) _ r(4) _ r(5)])
      (auto simp: r(2) frame_simps split: if_splits)
qed

lemma replication_chain_CRAQ:
  assumes n: "1 \<le> n" and inj: "inj_on at {..<n}" and T: "line_topology n CRAQ at origin T"
  shows "replication_chain n CRAQ at k origin T (\<lambda>_. True)"
proof (unfold_locales, fact n, fact inj)
  show "predecessor_stub s = Some (at (j - 1))"
    if "fixed (T (at j)) sv" "0 < j" "j < n" "the_strategy sv = Some (CRAQ, s)" for j sv s
    using line_topology_server [OF T] that by simp
qed (rule CRAQ_write_head [OF n T] CRAQ_write_elsewhere [OF T] CRAQ_write_other [OF T]
    CRAQ_propagate_mine [OF T] CRAQ_propagate_other [OF T] CRAQ_ack_mine [OF T] CRAQ_ack_other [OF T]; (assumption | simp))+

subsection \<open>CROWN\<close>

text \<open>Position \<open>j\<close> is the tail of a write that started at position 0 exactly when \<open>j = n - 1\<close>.\<close>

lemma ring_position_tail:
  fixes n h j :: nat
  assumes "h < n" "j < n"
  shows "int ((h + j) mod n) = (int h + int n - 1) mod int n \<longleftrightarrow> Suc j = n"
proof -
  have "(int h + int n - 1) mod int n = int ((h + n - 1) mod n)"
    using assms by (simp add: zmod_int of_nat_diff)
  moreover have "(h + j) mod n = (if h + j < n then h + j else h + j - n)"
    using assms by (simp add: mod_if)
  moreover have "(h + n - 1) mod n = (if h = 0 then n - 1 else h - 1)"
    using assms by (auto simp: mod_if)
  ultimately show ?thesis using assms by auto
qed

lemma ring_is_request_tail:
  assumes "ring_topology n at h T" "crown_node_count (config nd) = int n"
    "node_index (config nd) = int ((h + j) mod n)" "j < n" "prop_origin_id preq = to_string_int (int h)"
  shows "is_request_tail_node nd preq = Inr (Suc j = n)"
proof (cases "n = 1")
  case True
  then show ?thesis using assms(2,4) by (simp add: is_request_tail_node_def)
next
  case False
  have h: "h < n" "int n \<le> int_max" using assms(1) by (auto simp: ring_topology_def)
  have "is_request_tail_node nd preq = Inr (Node_index nd = (int h + int n - 1) mod int n)"
    using False h assms(4) by (intro is_request_tail_origin [OF assms(2) _ _ assms(5)]) auto
  then show ?thesis
    using ring_position_tail [OF h(1) assms(4)] assms(3) by (simp add: Node_index_def)
qed

lemma CROWN_write_head:
  assumes n: "1 \<le> n" and T: "ring_topology n at h T"
    and fx: "fixed (T (at 0)) sv" and ok: "server_ok n CROWN at k (to_string_int (int h)) p 0 sv"
    and inv: "pl_inv n p" and b: "assigned p + 1 < 2 ^ 64" and key: "wreq_key req = k"
    and rpc: "rpc_Write rpc req sv = ((st, resp), sv')"
  shows "(\<exists>w. resp = Some w \<and> unat (wresp_version w) = Suc (assigned p)) \<and>
      server_ok n CROWN at k (to_string_int (int h)) (pl_write n (wreq_value req) p) 0 sv'"
proof -
  from server_okD [OF ok] obtain s where s: "the_strategy sv = Some (CROWN, s)" by blast
  note top = ring_topology_server [OF T fx _ s]
  let ?h = "crown_handle_write rpc req (the_node sv) (replica_of sv (CROWN, s))"
  have single: "crown_node_count (config (the_node sv)) \<le> 1 \<longleftrightarrow> n = 1" and h: "h < n"
    and ix: "Node_index (the_node sv) = int h"
    using top(4,5) n T by (auto simp: ring_topology_def Node_index_def)
  have r: "sv' = put_replica CROWN (snd ?h) sv"
    "resp = Some (accepted_response (next_version (key_state (by_key s) k) + 1))"
    using rpc_Write_strategy [OF s rpc refl] key
    by (simp_all add: strategy_handle_write_def crown_write_result)
  have "unat (next_version (key_state (by_key s) k) + 1) = Suc (assigned p) \<and>
    server_ok n CROWN at k (to_string_int (int h)) (pl_write n (wreq_value req) p) 0
      (put_replica CROWN (snd ?h) sv)"
  proof (rule crown_newest.head_write [OF ok inv n b s refl])
    show "queue (dispatcher (snd ?h)) = queue (dispatchers sv CROWN) @
      (if n = 1 then [] else [\<lparr>task_successor = at 1, task_req = make_propagate req
        (next_version (key_state (by_key s) k) + 1) (to_string_int (int h)),
        task_from = crown_node_label (the_node sv)\<rparr>])"
      using top(3) n ix by (simp add: crown_write_queue single key)
  qed (use top(6) n in \<open>auto simp: crown_write_store single key Let_def frame_simps
      crown_write_acks make_propagate_def make_ack_def split: if_splits\<close>)
  then show ?thesis using r by simp
qed

lemma CROWN_write_other:
  assumes T: "ring_topology n at h T"
    and fx: "fixed (T (at j)) sv" and ok: "server_ok n CROWN at k origin p j sv" and j: "j < n"
    and key: "wreq_key req \<noteq> k" and rpc: "rpc_Write rpc req sv = ((st, resp), sv')"
  shows "server_ok n CROWN at k origin p j sv'"
proof -
  from server_okD [OF ok] obtain s where s: "the_strategy sv = Some (CROWN, s)" by blast
  note top = ring_topology_server [OF T fx j s]
  let ?h = "crown_handle_write rpc req (the_node sv) (replica_of sv (CROWN, s))"
  have r: "sv' = put_replica CROWN (snd ?h) sv"
    using rpc_Write_strategy [OF s rpc refl] by (simp add: strategy_handle_write_def)
  have "store_of (snd ?h) k = by_key s k"
    using crown.write_other [of k req rpc "the_node sv" "replica_of sv (CROWN, s)"] key by simp
  then show ?thesis
    unfolding r using top(6) key
    by (intro server_ok_other_key [OF ok s, where qs = "[]"])
      (auto simp: frame_simps crown_write_queue crown_write_acks
        make_propagate_def make_ack_def split: option.splits if_splits)
qed

lemma CROWN_propagate_mine:
  assumes T: "ring_topology n at h T"
    and fx: "fixed (T (at j)) sv" and ok: "server_ok n CROWN at k (to_string_int (int h)) p j sv"
    and inv: "pl_inv n p" and b: "assigned p < 2 ^ 64" and j: "j < n" and key: "prop_key preq = k"
    and sent: "(j, unat (prop_version preq)) \<in> sent p"
    and iss: "issued p (unat (prop_version preq)) = Some (prop_value preq)"
    and org: "prop_origin_id preq = to_string_int (int h)"
    and rpc: "rpc_Propagate rpc preq sv = (pres, sv')"
  shows "server_ok n CROWN at k (to_string_int (int h))
    (pl_receive n j (unat (prop_version preq)) p) j sv'"
proof -
  from server_okD [OF ok] obtain s where s: "the_strategy sv = Some (CROWN, s)" by blast
  note top = ring_topology_server [OF T fx j s]
  have tl: "is_request_tail_node (the_node sv) preq = Inr (Suc j = n)"
    by (rule ring_is_request_tail [OF T top(4,5) j org])
  have nz: "prop_version preq \<noteq> 0"
    using pl_invD(2) [OF inv] iss by (metis atLeastAtMost_iff domI not_one_le_zero unsigned_0)
  show ?thesis
    unfolding rpc_Propagate_strategy [OF s rpc]
  proof (rule crown_newest.next_propagate [OF ok inv b s sent iss, where qs = "[]"])
    show "queue (dispatcher (snd (strategy_handle_propagate CROWN rpc preq (the_node sv)
        (replica_of sv (CROWN, s))))) = queue (dispatchers sv CROWN) @
      (if Suc j = n then [] else [\<lparr>task_successor = at (Suc j), task_req = preq,
        task_from = crown_node_label (the_node sv)\<rparr>])"
      using top(3) tl nz j by (simp add: crown_propagate_queue strategy_handle_propagate_def)
  qed (use top(6) tl nz key org j in \<open>auto simp: strategy_handle_propagate_def crown_propagate_store
      frame_simps crown_propagate_acks make_ack_def split: if_splits\<close>)
qed

lemma CROWN_propagate_other:
  assumes T: "ring_topology n at h T"
    and fx: "fixed (T (at j)) sv" and ok: "server_ok n CROWN at k origin p j sv" and j: "j < n"
    and key: "prop_key preq \<noteq> k" and rpc: "rpc_Propagate rpc preq sv = (pres, sv')"
  shows "server_ok n CROWN at k origin p j sv'"
proof -
  from server_okD [OF ok] obtain s where s: "the_strategy sv = Some (CROWN, s)" by blast
  note top = ring_topology_server [OF T fx j s]
  show ?thesis
    unfolding rpc_Propagate_strategy [OF s rpc] using top(6) key
    by (intro server_ok_other_key [OF ok s, where qs = "[]"])
      (auto simp: strategy_handle_propagate_def frame_simps crown_propagate_queue
        crown_propagate_acks crown.propagate_other make_ack_def split: option.splits if_splits)
qed

text \<open>The client routes each write to the node that owns its key as head.\<close>

definition routed_to :: "(string \<Rightarrow> stub) \<Rightarrow> cluster_event \<Rightarrow> bool" where
  "routed_to head_of e =
     (case e of Client_write a req \<Rightarrow> a = head_of (wreq_key req) | _ \<Rightarrow> True)"

lemma replication_chain_CROWN:
  assumes n: "1 \<le> n" and inj: "inj_on at {..<n}" and T: "ring_topology n at h T"
    and head_of: "head_of k = at 0"
  shows "replication_chain n CROWN at k (to_string_int (int h)) T (routed_to head_of)"
proof (unfold_locales, fact n, fact inj)
  show "predecessor_stub s = Some (at (j - 1))"
    if "fixed (T (at j)) sv" "0 < j" "j < n" "the_strategy sv = Some (CROWN, s)" for j sv s
  proof -
    have "(j + n - 1) mod n = j - 1" using that(2,3) by (simp add: mod_if)
    then show ?thesis using ring_topology_server(2) [OF T that(1,3,4)] by simp
  qed
  show "resp = None \<and> sv' = sv"
    if "0 < j" "j < n" "routed_to head_of (Client_write (at j) req)" "wreq_key req = k"
    for j req resp sv and sv' :: Server
  proof -
    have "at j = at 0" using that(3,4) head_of by (simp add: routed_to_def)
    then have "j = 0" using inj_onD [OF inj, of j 0] that(2) n by simp
    then show ?thesis using that(1) by simp
  qed
qed (rule CROWN_write_head [OF n T] CROWN_write_other [OF T]
    CROWN_propagate_mine [OF T] CROWN_propagate_other [OF T] refused_ack; (assumption | simp))+

end
