(* ===== verification/Deployment.thy ===== *)
theory Deployment
  imports Topologies
begin

section \<open>Clusters as the client configures them\<close>

text \<open>
  A deployment is a list of node addresses; \<open>node_proto\<close> is the \<open>NodeConfig\<close> message the
  client sends to node \<open>i\<close> (a line for CHAIN and CRAQ, a ring for CROWN, the ring size
  encoded as the number of head ranges), and \<open>deployed\<close> the cluster of freshly started
  servers after each has handled its \<open>Configure\<close>. \<open>position\<close> lists the nodes of the chain a
  key travels. For every mode the locale \<open>replication_chain\<close> holds on these clusters, so
  every reachable cluster implements the abstract chain.
\<close>

definition pb_endpoint :: "pb_NodeAddress \<Rightarrow> stub" where
  "pb_endpoint a = addr_to_string (addr_from_proto a)"

definition valid_addrs :: "pb_NodeAddress list \<Rightarrow> bool" where
  "valid_addrs as \<longleftrightarrow> as \<noteq> [] \<and> int (length as) \<le> int_max \<and> distinct (map pb_endpoint as)"

definition line_proto :: "pb_ReplicationMode \<Rightarrow> bool \<Rightarrow> pb_NodeAddress list \<Rightarrow> nat \<Rightarrow> pb_NodeConfig" where
  "line_proto m direct as i =
     \<lparr>pb_node_id = int i, pb_self_addr = as ! i, pb_mode = m,
      pb_is_head = (i = 0), pb_is_tail = (Suc i = length as),
      pb_predecessor = (if i = 0 then None else Some (as ! (i - 1))),
      pb_successor = (if Suc i < length as then Some (as ! Suc i) else None),
      pb_tail = (if direct then Some (as ! (length as - 1)) else None),
      pb_head_ranges = [], pb_tail_ranges = []\<rparr>"

definition ring_proto :: "pb_NodeAddress list \<Rightarrow> nat \<Rightarrow> pb_NodeConfig" where
  "ring_proto as i =
     (let n = length as in
      \<lparr>pb_node_id = int i, pb_self_addr = as ! i, pb_mode = PB_CROWN,
       pb_is_head = False, pb_is_tail = False,
       pb_predecessor = Some (as ! ((i + n - 1) mod n)),
       pb_successor = Some (as ! (Suc i mod n)), pb_tail = None,
       pb_head_ranges = replicate n \<lparr>start_key = [], end_key = []\<rparr>, pb_tail_ranges = []\<rparr>)"

fun node_proto :: "ReplicationMode \<Rightarrow> bool \<Rightarrow> pb_NodeAddress list \<Rightarrow> nat \<Rightarrow> pb_NodeConfig" where
  "node_proto CHAIN direct as i = line_proto PB_CHAIN direct as i"
| "node_proto CRAQ direct as i = line_proto PB_CRAQ direct as i"
| "node_proto CROWN direct as i = ring_proto as i"

definition configured :: "nat \<Rightarrow> pb_NodeConfig \<Rightarrow> Server" where
  "configured hw cfg = snd (rpc_Configure cfg (Server_init hw))"

definition deployed :: "nat \<Rightarrow> ReplicationMode \<Rightarrow> bool \<Rightarrow> pb_NodeAddress list \<Rightarrow> Cluster" where
  "deployed hw m direct as =
     \<lparr>servers = map_of (map (\<lambda>i. (pb_endpoint (as ! i), configured hw (node_proto m direct as i)))
         [0..<length as]),
      prop_calls = [], ack_calls = [], accepted = []\<rparr>"

text \<open>Where the chain of a key starts, and its node at a position.\<close>

definition head_position :: "ReplicationMode \<Rightarrow> pb_NodeAddress list \<Rightarrow> string \<Rightarrow> nat" where
  "head_position m as key = (if m = CROWN then nat (crown_head_index (int (length as)) key) else 0)"

definition position :: "ReplicationMode \<Rightarrow> pb_NodeAddress list \<Rightarrow> string \<Rightarrow> nat \<Rightarrow> stub" where
  "position m as key j = pb_endpoint (as ! ((head_position m as key + j) mod length as))"

definition head_of :: "ReplicationMode \<Rightarrow> pb_NodeAddress list \<Rightarrow> string \<Rightarrow> stub" where
  "head_of m as key = position m as key 0"

definition tail_of :: "ReplicationMode \<Rightarrow> pb_NodeAddress list \<Rightarrow> string \<Rightarrow> stub" where
  "tail_of m as key = position m as key (length as - 1)"

text \<open>
  CHAIN and CRAQ nodes refuse a write that reaches the wrong node; CROWN relies on the
  client to send it to the key's head.
\<close>

definition client_routes :: "ReplicationMode \<Rightarrow> pb_NodeAddress list \<Rightarrow> cluster_event \<Rightarrow> bool" where
  "client_routes m as e = (if m = CROWN then routed_to (head_of m as) e else True)"

subsection \<open>A freshly configured server\<close>

lemma configured_server:
  assumes "proto_to_config p = Inr cfg"
  shows "topo_of (configured hw p) = (\<lparr>config = cfg\<rparr>, Some (mode cfg,
      map_option addr_to_string (predecessor cfg), map_option addr_to_string (successor cfg),
      map_option addr_to_string (tail_addr cfg)))"
    and "cache_ok (configured hw p)"
    and "\<exists>s. the_strategy (configured hw p) = Some (mode cfg, s) \<and> by_key s = Map.empty \<and>
      pred_ack_queue s = []"
    and "queue (dispatchers (configured hw p) m') = []" "ack_log (configured hw p) = []"
proof -
  define sv where "sv = configured hw p"
  let ?nd = "\<lparr>config = cfg\<rparr>"
  let ?start = "replica_of (Server_init hw\<lparr>the_node := ?nd\<rparr>) (mode cfg, Support_init)"
  let ?r = "strategy_on_config_change (mode cfg) ?nd ?start"
  have sv: "sv = put_replica (mode cfg) ?r (Server_init hw\<lparr>the_node := ?nd\<rparr>)"
    using assms by (simp add: sv_def configured_def rpc_Configure_def Server_init_def Let_def
        make_strategy_def update_config_def)
  have r0: "support ?start = Support_init" by simp
  have stubs: "predecessor_stub (support ?r) = map_option addr_to_string (predecessor cfg)"
    "successor_stub (support ?r) = map_option addr_to_string (successor cfg)"
    "tail_stub (support ?r) = map_option addr_to_string (tail_addr cfg)"
    by (cases "mode cfg"; simp add: strategy_on_config_change_def chain_on_config_change_def
        craq_on_config_change_def crown_on_config_change_def support_on_config_change_stubs
        start_ack_workers_simps)+
  note frame = strategy_on_config_change_frame [of "mode cfg" ?nd ?start]
  show "topo_of (configured hw p) = (\<lparr>config = cfg\<rparr>, Some (mode cfg,
      map_option addr_to_string (predecessor cfg), map_option addr_to_string (successor cfg),
      map_option addr_to_string (tail_addr cfg)))"
    using stubs by (simp add: sv_def [symmetric] sv topo_of_def)
  show "cache_ok (configured hw p)"
    using frame(2) r0 by (simp add: sv_def [symmetric] sv cache_ok_def)
  show "\<exists>s. the_strategy (configured hw p) = Some (mode cfg, s) \<and> by_key s = Map.empty \<and>
      pred_ack_queue s = []"
    using frame(1,5) by (simp add: sv_def [symmetric] sv Support_init_def)
  show "queue (dispatchers (configured hw p) m') = []" "ack_log (configured hw p) = []"
    using frame(3,4) by (simp_all add: sv_def [symmetric] sv Server_init_def dispatcher_init_def)
qed

lemma configured_server_ok:
  assumes "proto_to_config p = Inr cfg" "mode cfg = m"
  shows "server_ok n m at k origin pipeline_init j (configured hw p)"
proof -
  obtain s where s: "the_strategy (configured hw p) = Some (m, s)" "by_key s = Map.empty"
    "pred_ack_queue s = []"
    using configured_server(3) [OF assms(1), of hw] assms(2) by blast
  have "node_ok n m k pipeline_init j KeyState_default"
    by (simp add: node_ok_def pipeline_init_def KeyState_default_def agrees_def)
  then show ?thesis
    using s configured_server(4,5) [OF assms(1), of hw] by (simp add: server_ok_def)
qed

subsection \<open>The configuration each node got\<close>

definition node_config :: "ReplicationMode \<Rightarrow> bool \<Rightarrow> pb_NodeAddress list \<Rightarrow> nat \<Rightarrow> NodeConfig" where
  "node_config m direct as i = projr (proto_to_config (node_proto m direct as i))"

lemma proto_to_config_node:
  "proto_to_config (node_proto m direct as i) = Inr (node_config m direct as i)"
  by (cases m) (simp_all add: node_config_def proto_to_config_def line_proto_def ring_proto_def Let_def)

lemma node_config_mode: "mode (node_config m direct as i) = m"
  by (cases m) (simp_all add: node_config_def proto_to_config_def line_proto_def ring_proto_def Let_def)

lemma node_config_line:
  assumes "m \<noteq> CROWN"
  shows "is_head (node_config m direct as i) = (i = 0)"
    "is_tail (node_config m direct as i) = (Suc i = length as)"
    "node_id (node_config m direct as i) = to_string_int (int i)"
    "map_option addr_to_string (predecessor (node_config m direct as i))
      = (if i = 0 then None else Some (pb_endpoint (as ! (i - 1))))"
    "map_option addr_to_string (successor (node_config m direct as i))
      = (if Suc i < length as then Some (pb_endpoint (as ! Suc i)) else None)"
    "map_option addr_to_string (tail_addr (node_config m direct as i))
      = (if direct then Some (pb_endpoint (as ! (length as - 1))) else None)"
  using assms
  by (cases m; simp add: node_config_def proto_to_config_def line_proto_def Let_def pb_endpoint_def)+

lemma node_config_ring:
  "crown_node_count (node_config CROWN direct as i) = int (length as)"
  "node_index (node_config CROWN direct as i) = int i"
  "map_option addr_to_string (predecessor (node_config CROWN direct as i))
    = Some (pb_endpoint (as ! ((i + length as - 1) mod length as)))"
  "map_option addr_to_string (successor (node_config CROWN direct as i))
    = Some (pb_endpoint (as ! (Suc i mod length as)))"
  "map_option addr_to_string (tail_addr (node_config CROWN direct as i)) = None"
  by (simp_all add: node_config_def proto_to_config_def ring_proto_def Let_def pb_endpoint_def)

subsection \<open>The chain of a key\<close>

definition start_topo :: "nat \<Rightarrow> ReplicationMode \<Rightarrow> bool \<Rightarrow> pb_NodeAddress list \<Rightarrow> stub \<Rightarrow> topo" where
  "start_topo hw m direct as a = topo_of (the (servers (deployed hw m direct as) a))"

definition origin_text :: "ReplicationMode \<Rightarrow> pb_NodeAddress list \<Rightarrow> string \<Rightarrow> string" where
  "origin_text m as key = to_string_int (int (head_position m as key))"

lemma valid_addrs_pos: "valid_addrs as \<Longrightarrow> 1 \<le> length as"
  by (cases as) (auto simp: valid_addrs_def)

lemma head_position_less: "valid_addrs as \<Longrightarrow> head_position m as key < length as"
  using crown_head_index_range [of "int (length as)" key]
  by (auto simp: head_position_def valid_addrs_def)

lemma head_position_line: "m \<noteq> CROWN \<Longrightarrow> head_position m as key = 0"
  by (simp add: head_position_def)

lemma position_line: "m \<noteq> CROWN \<Longrightarrow> j < length as \<Longrightarrow> position m as key j = pb_endpoint (as ! j)"
  by (simp add: position_def head_position_def)

lemma endpoint_inj:
  "valid_addrs as \<Longrightarrow> i < length as \<Longrightarrow> j < length as \<Longrightarrow>
    pb_endpoint (as ! i) = pb_endpoint (as ! j) \<longleftrightarrow> i = j"
  by (metis length_map nth_eq_iff_index_eq nth_map valid_addrs_def)

lemma add_mod_cancel_less:
  fixes a b h n :: nat
  assumes "a < n" "b < n" "h < n" "(h + a) mod n = (h + b) mod n"
  shows "a = b"
  using assms by (auto simp: mod_if split: if_splits)

lemma position_inj:
  assumes "valid_addrs as"
  shows "inj_on (position m as key) {..<length as}"
proof (rule inj_onI)
  let ?h = "head_position m as key" and ?n = "length as"
  fix x y assume xy: "x \<in> {..<?n}" "y \<in> {..<?n}" "position m as key x = position m as key y"
  have h: "?h < ?n" by (rule head_position_less [OF assms])
  then have "0 < ?n" by linarith
  then have "(?h + x) mod ?n < ?n" "(?h + y) mod ?n < ?n" by (rule mod_less_divisor)+
  with xy(3) have "(?h + x) mod ?n = (?h + y) mod ?n"
    by (simp add: position_def endpoint_inj [OF assms])
  then show "x = y" using xy h by (intro add_mod_cancel_less [of x ?n y ?h]) simp_all
qed

lemma position_image:
  assumes "valid_addrs as"
  shows "position m as key ` {..<length as} = (\<lambda>i. pb_endpoint (as ! i)) ` {..<length as}"
proof -
  let ?n = "length as" let ?h = "head_position m as key"
  have pos: "0 < ?n" using valid_addrs_pos [OF assms] by linarith
  have "inj_on (\<lambda>j. (?h + j) mod ?n) {..<?n}"
    using head_position_less [OF assms] by (auto simp: inj_on_def intro: add_mod_cancel_less)
  moreover have "(\<lambda>j. (?h + j) mod ?n) ` {..<?n} \<subseteq> {..<?n}" using pos by auto
  ultimately have "(\<lambda>j. (?h + j) mod ?n) ` {..<?n} = {..<?n}"
    by (simp add: endo_inj_surj)
  then have "(\<lambda>i. pb_endpoint (as ! i)) ` (\<lambda>j. (?h + j) mod ?n) ` {..<?n}
    = (\<lambda>i. pb_endpoint (as ! i)) ` {..<?n}" by simp
  then show ?thesis by (simp add: image_image position_def)
qed

lemma deployed_server:
  assumes "valid_addrs as" "i < length as"
  shows "servers (deployed hw m direct as) (pb_endpoint (as ! i))
    = Some (configured hw (node_proto m direct as i))"
proof -
  let ?f = "\<lambda>i. (pb_endpoint (as ! i), configured hw (node_proto m direct as i))"
  have "map fst (map ?f [0..<length as]) = map pb_endpoint as"
    by (rule nth_equalityI) auto
  then have "distinct (map fst (map ?f [0..<length as]))"
    using assms(1) by (simp add: valid_addrs_def)
  moreover have "?f i \<in> set (map ?f [0..<length as])" using assms(2) by auto
  ultimately show ?thesis by (simp add: deployed_def map_of_is_SomeI)
qed

lemma deployed_dom:
  "valid_addrs as \<Longrightarrow> dom (servers (deployed hw m direct as)) = position m as key ` {..<length as}"
  by (simp add: position_image) (force simp: deployed_def dom_map_of_conv_image_fst)

lemma deployed_topo:
  assumes "valid_addrs as" "i < length as"
  shows "start_topo hw m direct as (pb_endpoint (as ! i)) = (\<lparr>config = node_config m direct as i\<rparr>, Some (m,
      map_option addr_to_string (predecessor (node_config m direct as i)),
      map_option addr_to_string (successor (node_config m direct as i)),
      map_option addr_to_string (tail_addr (node_config m direct as i))))"
  using configured_server(1) [OF proto_to_config_node, of hw m direct as i]
  by (simp add: start_topo_def deployed_server [OF assms] node_config_mode)

lemma deployed_fixed:
  assumes "valid_addrs as"
  shows "cluster_fixed (start_topo hw m direct as) (deployed hw m direct as)"
  unfolding cluster_fixed_def
proof (intro allI impI)
  fix a sv assume sv: "servers (deployed hw m direct as) a = Some sv"
  then have "a \<in> (\<lambda>i. pb_endpoint (as ! i)) ` {..<length as}"
    using deployed_dom [OF assms, of hw m direct "[]"] position_image [OF assms] by blast
  then obtain i where i: "a = pb_endpoint (as ! i)" "i < length as" by auto
  then have "sv = configured hw (node_proto m direct as i)"
    using sv deployed_server [OF assms i(2)] by simp
  then show "fixed (start_topo hw m direct as a) sv"
    using configured_server(1,2) [OF proto_to_config_node, of hw m direct as i] sv
    by (simp add: fixed_def start_topo_def wired_def Node_mode_def)
qed

lemma deployed_sim:
  assumes "valid_addrs as"
  shows "cluster_sim (length as) m (position m as k) k (origin_text m as k) pipeline_init
    (deployed hw m direct as)"
proof -
  have "\<exists>sv. servers (deployed hw m direct as) (position m as k j) = Some sv \<and>
      server_ok (length as) m (position m as k) k (origin_text m as k) pipeline_init j sv"
    if "j < length as" for j
  proof -
    let ?i = "(head_position m as k + j) mod length as"
    have "0 < length as" using that by linarith
    then have "?i < length as" by simp
    from deployed_server [OF assms this] show ?thesis
      using configured_server_ok [OF proto_to_config_node node_config_mode]
      by (simp add: position_def)
  qed
  then show ?thesis
    unfolding cluster_sim_def using deployed_dom [OF assms]
    by (simp add: deployed_def pipeline_init_def)
qed

subsection \<open>The laws on the deployed cluster\<close>

lemma deployed_line:
  assumes "valid_addrs as" "m \<noteq> CROWN"
  shows "line_topology (length as) m (position m as k) (origin_text m as k) (start_topo hw m direct as)"
  unfolding line_topology_def
proof (intro allI impI)
  let ?at = "position m as k" and ?n = "length as"
  fix j assume j: "j < ?n"
  have at: "i < ?n \<Longrightarrow> ?at i = pb_endpoint (as ! i)" for i
    by (rule position_line [OF assms(2)])
  let ?nd = "\<lparr>config = node_config m direct as j\<rparr>"
  let ?tl = "if direct then Some (?at (?n - 1)) else None"
  have "start_topo hw m direct as (?at j) = (?nd, Some (m,
      if j = 0 then None else Some (?at (j - 1)),
      if Suc j < ?n then Some (?at (Suc j)) else None, ?tl))"
    using deployed_topo [OF assms(1) j, of hw m direct] j
    by (simp add: at node_config_line [OF assms(2)])
  moreover have "Node_is_head ?nd = (j = 0)" "Node_is_tail ?nd = (Suc j = ?n)"
    "j = 0 \<longrightarrow> Node_id ?nd = origin_text m as k" "?tl \<in> {None, Some (?at (?n - 1))}"
    by (simp_all add: Node_accessors node_config_line [OF assms(2)] origin_text_def
        head_position_line [OF assms(2)])
  ultimately show "\<exists>nd tl. start_topo hw m direct as (?at j) = (nd, Some (m,
      if j = 0 then None else Some (?at (j - 1)),
      if Suc j < ?n then Some (?at (Suc j)) else None, tl)) \<and>
    Node_is_head nd = (j = 0) \<and> Node_is_tail nd = (Suc j = ?n) \<and>
    (j = 0 \<longrightarrow> Node_id nd = origin_text m as k) \<and> tl \<in> {None, Some (?at (?n - 1))}"
    by blast
qed

lemma deployed_ring:
  assumes "valid_addrs as"
  shows "ring_topology (length as) (position CROWN as k) (head_position CROWN as k)
    (start_topo hw CROWN direct as)"
  unfolding ring_topology_def
proof (intro conjI allI impI)
  let ?at = "position CROWN as k" and ?n = "length as" and ?h = "head_position CROWN as k"
  show "?h < ?n" by (rule head_position_less [OF assms])
  show "int ?n \<le> int_max" using assms by (simp add: valid_addrs_def)
  fix j assume j: "j < ?n"
  let ?i = "(?h + j) mod ?n"
  have pos: "0 < ?n" using j by linarith
  then have i: "?i < ?n" by simp
  have pred: "(?i + ?n - 1) mod ?n = (?h + (j + ?n - 1) mod ?n) mod ?n"
  proof -
    have "?i + ?n - 1 = ?i + (?n - 1)" using pos by linarith
    then have "(?i + ?n - 1) mod ?n = (?i + (?n - 1)) mod ?n" by (rule arg_cong)
    also have "\<dots> = (?h + (j + (?n - 1))) mod ?n" by (simp only: mod_add_left_eq add.assoc)
    also have "j + (?n - 1) = j + ?n - 1" using pos by linarith
    finally show ?thesis by (simp only: mod_add_right_eq)
  qed
  have succ: "Suc ?i mod ?n = (?h + Suc j mod ?n) mod ?n" by (simp add: mod_simps)
  have "start_topo hw CROWN direct as (?at j) = (\<lparr>config = node_config CROWN direct as ?i\<rparr>, Some (CROWN,
      Some (?at ((j + ?n - 1) mod ?n)), Some (?at (Suc j mod ?n)), None))"
    using deployed_topo [OF assms i, of hw CROWN direct]
    by (simp only: position_def node_config_ring pred succ)
  then show "\<exists>nd tl. start_topo hw CROWN direct as (?at j) = (nd, Some (CROWN,
      Some (?at ((j + ?n - 1) mod ?n)), Some (?at (Suc j mod ?n)), tl)) \<and>
    crown_node_count (config nd) = int ?n \<and> node_index (config nd) = int ?i"
    using node_config_ring by auto
qed

lemma replication_chain_deployed:
  assumes "valid_addrs as"
  shows "replication_chain (length as) m (position m as k) k (origin_text m as k)
    (start_topo hw m direct as) (client_routes m as)"
proof (cases m)
  case CHAIN
  have "client_routes CHAIN as = (\<lambda>_. True)" by (simp add: client_routes_def fun_eq_iff)
  with CHAIN replication_chain_CHAIN [OF valid_addrs_pos [OF assms] position_inj [OF assms]
      deployed_line [OF assms]] show ?thesis by simp
next
  case CRAQ
  have "client_routes CRAQ as = (\<lambda>_. True)" by (simp add: client_routes_def fun_eq_iff)
  with CRAQ replication_chain_CRAQ [OF valid_addrs_pos [OF assms] position_inj [OF assms]
      deployed_line [OF assms]] show ?thesis by simp
next
  case CROWN
  have "client_routes CROWN as = routed_to (head_of CROWN as)" by (simp add: client_routes_def fun_eq_iff)
  with CROWN replication_chain_CROWN [OF valid_addrs_pos [OF assms] position_inj [OF assms]
      deployed_ring [OF assms], of "head_of CROWN as"] show ?thesis
    by (simp add: head_of_def origin_text_def)
qed

text \<open>Every cluster reachable from a deployment implements a reachable abstract chain.\<close>

lemma deployed_refines:
  assumes "valid_addrs as" "cluster_reach (client_routes m as) (deployed hw m direct as) c"
    "length (accepted c) + 1 < 2 ^ 64"
  obtains p where "pl_reach (length as) p" "pl_inv (length as) p"
    "cluster_sim (length as) m (position m as k) k (origin_text m as k) p c"
    "cluster_fixed (start_topo hw m direct as) c"
proof -
  from replication_chain.reach_sim [OF replication_chain_deployed [OF assms(1)] assms(2) _
      deployed_sim [OF assms(1)] deployed_fixed [OF assms(1)] assms(3)]
  obtain p where p: "pl_reach (length as) p"
    "cluster_sim (length as) m (position m as k) k (origin_text m as k) p c" by blast
  moreover have "pl_inv (length as) p" by (rule pl_reach_inv [OF p(1) valid_addrs_pos [OF assms(1)]])
  moreover have "cluster_fixed (start_topo hw m direct as) c"
    by (rule cluster_reach_fixed [OF assms(2) deployed_fixed [OF assms(1)]])
  ultimately show thesis using that by blast
qed

end
