(* ===== verification/Guarantees.thy ===== *)
theory Guarantees
  imports Deployment
begin

section \<open>What clients and replicas can rely on\<close>

text \<open>
  The consequences of the refinement for deployed clusters: reads at the tail of a key, acks,
  replicas, and CRAQ reads at any node. A CRAQ read asks for the tail's version;
  \<open>cluster_rpc\<close> answers such a query from the cluster itself, through the
  \<open>VersionQuery\<close> handlers of the nodes it passes. Its first argument bounds the number of
  hops; \<open>craq_version_query_answer\<close> shows that the distance to the tail is enough.
\<close>

subsection \<open>The tail\<close>

lemma key_at_server:
  "servers c a = Some sv \<Longrightarrow> the_strategy sv = Some (m, s) \<Longrightarrow> key_at c a k = key_state (by_key s) k"
  by (simp add: key_at_def)

lemma deployed_position:
  assumes "cluster_sim n m at k origin p c" "cluster_fixed T c" "j < n"
  obtains sv s where "servers c (at j) = Some sv" "the_strategy sv = Some (m, s)" "fixed (T (at j)) sv"
    "key_at c (at j) k = key_state (by_key s) k" "server_ok n m at k origin p j sv"
proof -
  obtain sv where sv: "servers c (at j) = Some sv" "server_ok n m at k origin p j sv"
    using assms(1,3) by (auto simp: cluster_sim_def)
  moreover obtain s where s: "the_strategy sv = Some (m, s)" using server_okD [OF sv(2)] by blast
  ultimately show thesis
    using that [OF sv(1) s] key_at_server [OF sv(1) s] assms(2) by (simp add: cluster_fixed_def)
qed

lemma tail_read:
  assumes as: "valid_addrs as"
    and sim: "cluster_sim (length as) m (position m as k) k (origin_text m as k) p c"
    and fx: "cluster_fixed (start_topo hw m direct as) c"
    and sv: "servers c (tail_of m as k) = Some sv"
  shows "committed_version (key_at c (tail_of m as k) k) \<noteq> 0 \<Longrightarrow>
      rpc_Read rpc \<lparr>rreq_key = k\<rparr> sv = (Status_OK, Some \<lparr>rresp_key = k,
        rresp_value = committed_value (key_at c (tail_of m as k) k),
        rresp_version = committed_version (key_at c (tail_of m as k) k)\<rparr>)"
    and "committed_version (key_at c (tail_of m as k) k) = 0 \<Longrightarrow>
      snd (rpc_Read rpc \<lparr>rreq_key = k\<rparr> sv) = None"
proof -
  have n: "length as - 1 < length as" using valid_addrs_pos [OF as] by linarith
  obtain s where s: "the_strategy sv = Some (m, s)" "fixed (start_topo hw m direct as (tail_of m as k)) sv"
    "key_at c (tail_of m as k) k = key_state (by_key s) k"
    using deployed_position [OF sim fx n] sv by (metis option.inject tail_of_def)
  have tail: "m \<noteq> CROWN \<Longrightarrow> Node_is_tail (the_node sv)"
    using line_topology_server(5) [OF deployed_line [OF as] _ n s(1)] s(2) n by (simp add: tail_of_def)
  show "rpc_Read rpc \<lparr>rreq_key = k\<rparr> sv = (Status_OK, Some \<lparr>rresp_key = k,
        rresp_value = committed_value (key_at c (tail_of m as k) k),
        rresp_version = committed_version (key_at c (tail_of m as k) k)\<rparr>)"
    if "committed_version (key_at c (tail_of m as k) k) \<noteq> 0"
    using that s tail
    by (cases m) (simp_all add: rpc_Read_def strategy_handle_read_def chain_handle_read_def
        craq_handle_read_def crown_handle_read_def store_reads status_of_def Let_def build_read_response_def)
  show "snd (rpc_Read rpc \<lparr>rreq_key = k\<rparr> sv) = None"
    if "committed_version (key_at c (tail_of m as k) k) = 0"
    using that s tail
    by (cases m) (simp_all add: rpc_Read_def strategy_handle_read_def chain_handle_read_def
        craq_handle_read_def crown_handle_read_def store_reads status_of_def Let_def)
qed

subsection \<open>Committed versions never go back\<close>

lemma rpc_Write_committed:
  assumes "the_strategy sv = Some (m, s)" "rpc_Write rpc req sv = (res, sv')"
  shows "\<exists>s'. the_strategy sv' = Some (m, s') \<and>
    committed_version (key_state (by_key s) key) \<le> committed_version (key_state (by_key s') key)"
proof -
  let ?h = "strategy_handle_write m rpc req (the_node sv) (replica_of sv (m, s))"
  have "sv' = put_replica m (snd ?h) sv" using assms by (auto simp: rpc_Write_def split_beta)
  moreover have "committed_version (key_state (by_key s) key) \<le> committed_version (kstate (snd ?h) key)"
    using chain.write_committed [of "replica_of sv (m, s)" key] craq.write_committed [of "replica_of sv (m, s)" key]
      crown.write_committed [of "replica_of sv (m, s)" key]
    by (cases m) (simp_all add: strategy_handle_write_def)
  ultimately show ?thesis by simp
qed

lemma rpc_Propagate_committed:
  assumes "the_strategy sv = Some (m, s)" "rpc_Propagate rpc req sv = (res, sv')"
  shows "\<exists>s'. the_strategy sv' = Some (m, s') \<and>
    committed_version (key_state (by_key s) key) \<le> committed_version (key_state (by_key s') key)"
proof -
  let ?h = "strategy_handle_propagate m rpc req (the_node sv) (replica_of sv (m, s))"
  have "committed_version (key_state (by_key s) key) \<le> committed_version (kstate (snd ?h) key)"
    using chain.propagate_committed [of "replica_of sv (m, s)" key]
      craq.propagate_committed [of "replica_of sv (m, s)" key]
      crown.propagate_committed [of "replica_of sv (m, s)" key]
    by (cases m) (simp_all add: strategy_handle_propagate_def)
  then show ?thesis by (simp add: rpc_Propagate_strategy [OF assms])
qed

lemma rpc_Ack_committed:
  assumes "the_strategy sv = Some (m, s)" "rpc_Ack req sv = (res, sv')"
  shows "\<exists>s'. the_strategy sv' = Some (m, s') \<and>
    committed_version (key_state (by_key s) key) \<le> committed_version (key_state (by_key s') key)"
proof -
  let ?h = "strategy_handle_ack m req (the_node sv) (replica_of sv (m, s))"
  have "committed_version (key_state (by_key s) key) \<le> committed_version (kstate (snd ?h) key)"
    using chain.ack_committed [of "replica_of sv (m, s)" key] craq.ack_committed [of "replica_of sv (m, s)" key]
      crown.ack_committed [of "replica_of sv (m, s)" key]
    by (cases m) (simp_all add: strategy_handle_ack_def)
  then show ?thesis by (simp add: rpc_Ack_strategy [OF assms])
qed

text \<open>A relation that every handler keeps between the states of a key, a step of the cluster keeps.\<close>

lemma key_at_put:
  assumes "servers c a = Some sv" "servers c' = (servers c)(a \<mapsto> sv')"
    and refl: "\<And>ks. R ks ks" and bot: "\<And>ks. R KeyState_default ks"
    and "\<And>m s. b = a \<Longrightarrow> the_strategy sv = Some (m, s) \<Longrightarrow> \<exists>s'. the_strategy sv' = Some (m, s') \<and>
      R (key_state (by_key s) key) (key_state (by_key s') key)"
  shows "R (key_at c b key) (key_at c' b key)"
proof (cases "b = a \<and> the_strategy sv \<noteq> None")
  case True
  then obtain m s where "the_strategy sv = Some (m, s)" by auto
  with assms(5) [OF _ this] True show ?thesis by (auto simp: key_at_def assms(1,2))
next
  case False
  then show ?thesis
    using assms(1,2) refl bot by (cases "the_strategy sv") (auto simp: key_at_def)
qed

lemma cluster_step_key:
  assumes "cluster_step c e c'" and refl: "\<And>ks. R ks ks" and bot: "\<And>ks. R KeyState_default ks"
    and on_write: "\<And>sv m s rpc req res sv'. servers c b = Some sv \<Longrightarrow> the_strategy sv = Some (m, s) \<Longrightarrow>
      rpc_Write rpc req sv = (res, sv') \<Longrightarrow>
      \<exists>s'. the_strategy sv' = Some (m, s') \<and> R (key_state (by_key s) key) (key_state (by_key s') key)"
    and on_propagate: "\<And>sv m s rpc req res sv'. servers c b = Some sv \<Longrightarrow> the_strategy sv = Some (m, s) \<Longrightarrow>
      rpc_Propagate rpc req sv = (res, sv') \<Longrightarrow>
      \<exists>s'. the_strategy sv' = Some (m, s') \<and> R (key_state (by_key s) key) (key_state (by_key s') key)"
    and on_ack: "\<And>sv m s req res sv'. servers c b = Some sv \<Longrightarrow> the_strategy sv = Some (m, s) \<Longrightarrow>
      rpc_Ack req sv = (res, sv') \<Longrightarrow>
      \<exists>s'. the_strategy sv' = Some (m, s') \<and> R (key_state (by_key s) key) (key_state (by_key s') key)"
  shows "R (key_at c b key) (key_at c' b key)"
  using assms(1)
proof cases
  case (client_write a sv rpc req st resp sv')
  show ?thesis
    by (rule key_at_put [where R = R, OF client_write(3) _ refl bot])
      (use client_write on_write [OF _ _ client_write(4)] in auto)
next
  case (worker_take a sv m t d)
  show ?thesis
    by (rule key_at_put [where R = R, OF worker_take(3) _ refl bot]) (use worker_take refl in auto)
next
  case (worker_complete a sv m t d)
  show ?thesis
    by (rule key_at_put [where R = R, OF worker_complete(3) _ refl bot]) (use worker_complete refl in auto)
next
  case (deliver_propagate a req sv rpc res sv')
  show ?thesis
    by (rule key_at_put [where R = R, OF deliver_propagate(4) _ refl bot])
      (use deliver_propagate on_propagate [OF _ _ deliver_propagate(5)] in auto)
next
  case (ack_worker a sv m s turn s')
  show ?thesis
    by (rule key_at_put [where R = R, OF ack_worker(3) _ refl bot])
      (use ack_worker ack_worker_turn_same(1) [OF ack_worker(5)] refl in auto)
next
  case (deliver_ack a req sv res sv')
  show ?thesis
    by (rule key_at_put [where R = R, OF deliver_ack(4) _ refl bot])
      (use deliver_ack on_ack [OF _ _ deliver_ack(5)] in auto)
next
  case (configure_again a sv s cfg res sv')
  obtain s' where s': "sv' = put_support (Node_mode (the_node sv)) s' sv" "by_key s' = by_key s"
    by (rule rpc_Configure_again [OF configure_again(4-6)])
  show ?thesis
    by (rule key_at_put [where R = R, OF configure_again(3) _ refl bot]) (use configure_again s' refl in auto)
qed (simp_all add: key_at_def refl)

lemma cluster_step_committed:
  assumes "cluster_step c e c'"
  shows "committed_version (key_at c b key) \<le> committed_version (key_at c' b key)"
  by (rule cluster_step_key [where R = "\<lambda>x y. committed_version x \<le> committed_version y", OF assms])
    (simp_all add: KeyState_default_def rpc_Write_committed rpc_Propagate_committed rpc_Ack_committed)

lemma cluster_reach_committed:
  "cluster_reach allowed c c' \<Longrightarrow> committed_version (key_at c b key) \<le> committed_version (key_at c' b key)"
  by (induction rule: cluster_reach.induct) (auto intro: order.trans cluster_step_committed)

lemma cluster_reach_trans:
  "cluster_reach allowed c c' \<Longrightarrow> cluster_reach allowed c0 c \<Longrightarrow> cluster_reach allowed c0 c'"
  by (induction rule: cluster_reach.induct) (auto intro: reach_step)

lemma cluster_reach_accepted:
  "cluster_reach allowed c c' \<Longrightarrow> length (accepted c) \<le> length (accepted c')"
  by (induction rule: cluster_reach.induct) (auto dest: cluster_step_accepted_length)

subsection \<open>CRAQ: version queries answered by the cluster\<close>

definition unavailable :: Status where
  "unavailable = \<lparr>code = UNAVAILABLE, error_message = ''failed to connect''\<rparr>"

definition VersionQueryResponse_default :: VersionQueryResponse where
  "VersionQueryResponse_default = \<lparr>vqr_key = [], vqr_latest_version = 0\<rparr>"

fun cluster_rpc :: "nat \<Rightarrow> Cluster \<Rightarrow> Rpc" where
  "cluster_rpc 0 c =
     \<lparr>ack_call = (\<lambda>_ _. unavailable),
      version_query_call = (\<lambda>_ _. (unavailable, VersionQueryResponse_default))\<rparr>"
| "cluster_rpc (Suc hops) c =
     \<lparr>ack_call = (\<lambda>_ _. unavailable),
      version_query_call = (\<lambda>b req.
        case servers c b of
          None \<Rightarrow> (unavailable, VersionQueryResponse_default)
        | Some sv \<Rightarrow>
            (let (st, resp) = rpc_VersionQuery (cluster_rpc hops c) req sv
             in (st, case resp of None \<Rightarrow> VersionQueryResponse_default | Some r \<Rightarrow> r)))\<rparr>"

lemma craq_query_tail:
  "Node_is_tail node \<Longrightarrow> craq_handle_version_query rpc req node r
    = Inr \<lparr>vqr_key = vq_key req, vqr_latest_version = committed_version (kstate r (vq_key req))\<rparr>"
  by (simp add: craq_handle_version_query_def Let_def read_clean_cases LatestReplicaValue_default_def)

lemma craq_query_forward:
  assumes "\<not> Node_is_tail node"
    and "(case tail_stub (support r) of Some t \<Rightarrow> Some t | None \<Rightarrow> successor_stub (support r)) = Some b"
    and "version_query_call rpc b req = (Status_OK, resp)"
  shows "craq_handle_version_query rpc req node r = Inr resp"
  using assms by (auto simp: craq_handle_version_query_def split: option.splits)

lemma craq_version_query_answer:
  assumes as: "valid_addrs as"
    and sim: "cluster_sim (length as) CRAQ (position CRAQ as k) k (origin_text CRAQ as k) p c"
    and fx: "cluster_fixed (start_topo hw CRAQ direct as) c"
  shows "j < length as \<Longrightarrow> length as \<le> j + hops \<Longrightarrow>
    version_query_call (cluster_rpc hops c) (position CRAQ as k j) \<lparr>vq_key = k\<rparr>
      = (Status_OK, \<lparr>vqr_key = k,
          vqr_latest_version = committed_version (key_at c (tail_of CRAQ as k) k)\<rparr>)"
proof (induction hops arbitrary: j)
  case (Suc hops)
  let ?n = "length as" and ?at = "position CRAQ as k"
  obtain sv s where s: "servers c (?at j) = Some sv" "the_strategy sv = Some (CRAQ, s)"
    "fixed (start_topo hw CRAQ direct as (?at j)) sv" "key_at c (?at j) k = key_state (by_key s) k"
    by (rule deployed_position [OF sim fx Suc.prems(1)])
  have T: "line_topology ?n CRAQ ?at (origin_text CRAQ as k) (start_topo hw CRAQ direct as)"
    by (rule deployed_line [OF as]) simp
  note top = line_topology_server [OF T s(3) Suc.prems(1) s(2)]
  let ?resp = "\<lparr>vqr_key = k, vqr_latest_version = committed_version (key_at c (tail_of CRAQ as k) k)\<rparr>"
  have "craq_handle_version_query (cluster_rpc hops c) \<lparr>vq_key = k\<rparr> (the_node sv) (replica_of sv (CRAQ, s))
    = Inr ?resp"
  proof (cases "Suc j = ?n")
    case True
    then have "tail_of CRAQ as k = ?at j" by (simp add: tail_of_def flip: True)
    then show ?thesis using top(5) True s(4) by (simp add: craq_query_tail)
  next
    case False
    let ?b = "if tail_stub s = None then Suc j else ?n - 1"
    have b: "?b < ?n" "?n \<le> ?b + hops" using Suc.prems False by auto
    show ?thesis
    proof (rule craq_query_forward [OF _ _ Suc.IH [OF b]])
      show "\<not> Node_is_tail (the_node sv)" using top(5) False by simp
      show "(case tail_stub (support (replica_of sv (CRAQ, s))) of Some t \<Rightarrow> Some t
          | None \<Rightarrow> successor_stub (support (replica_of sv (CRAQ, s)))) = Some (?at ?b)"
        using top(3,8) False Suc.prems(1) by auto
    qed
  qed
  then show ?case
    using s(1,2) by (simp add: rpc_VersionQuery_def strategy_handle_version_query_def status_of_def)
qed simp

text \<open>
  The read itself, on the node's own key state: a node with nothing newer than its clean
  version serves it, the others serve the version the tail reports, which they always hold.
\<close>

lemma craq_read_cases:
  assumes "\<not> Node_is_tail node"
    and query: "craq_handle_version_query rpc \<lparr>vq_key = k\<rparr> node r = Inr \<lparr>vqr_key = k, vqr_latest_version = v\<rparr>"
    and clean: "latest_seen_version (kstate r k) \<le> committed_version (kstate r k) \<Longrightarrow>
      committed_version (kstate r k) = v"
    and held: "v \<noteq> 0 \<Longrightarrow> committed_version (kstate r k) \<noteq> v \<Longrightarrow>
      pending_versions (kstate r k) v = Some x"
    and same: "v \<noteq> 0 \<Longrightarrow> committed_version (kstate r k) = v \<Longrightarrow> committed_value (kstate r k) = x"
  shows "v \<noteq> 0 \<Longrightarrow> craq_handle_read rpc \<lparr>rreq_key = k\<rparr> node r
      = Inr \<lparr>rresp_key = k, rresp_value = x, rresp_version = v\<rparr>"
    and "v = 0 \<Longrightarrow> \<not> isOk (craq_handle_read rpc \<lparr>rreq_key = k\<rparr> node r)"
  using assms
  by (auto simp: craq_handle_read_def Let_def store_reads build_read_response_def not_less
      split: option.splits)

lemma craq_handler_answer:
  assumes "version_query_call (cluster_rpc (Suc hops) c) a req = (Status_OK, resp)"
    and "servers c a = Some sv" "the_strategy sv = Some (CRAQ, s)"
  shows "craq_handle_version_query (cluster_rpc hops c) req (the_node sv) (replica_of sv (CRAQ, s)) = Inr resp"
  using assms
  by (auto simp: rpc_VersionQuery_def strategy_handle_version_query_def status_of_def Status_OK_def
      split: sum.splits)

text \<open>What the abstract chain says about the key at any node, compared with the tail.\<close>

lemma craq_node_vs_tail:
  assumes as: "valid_addrs as"
    and sim: "cluster_sim (length as) CRAQ (position CRAQ as k) k (origin_text CRAQ as k) p c"
    and inv: "pl_inv (length as) p" and j: "j < length as"
  defines "ks \<equiv> key_at c (position CRAQ as k j) k" and "kt \<equiv> key_at c (tail_of CRAQ as k) k"
  shows "latest_seen_version ks \<le> committed_version ks \<Longrightarrow> committed_version ks = committed_version kt"
    and "committed_version kt \<noteq> 0 \<Longrightarrow> committed_version ks \<noteq> committed_version kt \<Longrightarrow>
      pending_versions ks (committed_version kt) = Some (committed_value kt)"
    and "committed_version kt \<noteq> 0 \<Longrightarrow> committed_version ks = committed_version kt \<Longrightarrow>
      committed_value ks = committed_value kt"
proof -
  let ?n = "length as"
  have n: "?n - 1 < ?n" "Suc (?n - 1) = ?n" "1 \<le> ?n" using valid_addrs_pos [OF as] by linarith+
  have ks: "node_ok ?n CRAQ k p j ks" unfolding ks_def by (rule cluster_sim_node [OF sim j])
  have kt: "node_ok ?n CRAQ k p (?n - 1) kt"
    unfolding kt_def tail_of_def by (rule cluster_sim_node [OF sim n(1)])
  have tv: "unat (committed_version kt) = Max0 (hist p (?n - 1))"
    using kt n(2) by (simp add: node_ok_def)
  have agr: "agrees (\<lambda>v. issued p (unat v)) ks" "agrees (\<lambda>v. issued p (unat v)) kt"
    using ks kt by (simp_all add: node_ok_def)
  show "committed_version ks = committed_version kt" if le: "latest_seen_version ks \<le> committed_version ks"
  proof (cases "Suc j = ?n")
    case True
    then have "j = ?n - 1" by linarith
    then show ?thesis by (simp add: ks_def kt_def tail_of_def)
  next
    case False
    then have "Max0 (hist p j) \<le> clean p j" "unat (committed_version ks) = clean p j"
      using ks le by (simp_all add: node_ok_def word_le_nat_alt)
    then show ?thesis using pl_clean_read [OF inv n(3) j] tv by (simp add: word_unat_eq_iff)
  qed
  show "pending_versions ks (committed_version kt) = Some (committed_value kt)"
    if nz: "committed_version kt \<noteq> 0" and ne: "committed_version ks \<noteq> committed_version kt"
  proof -
    have "Suc j \<noteq> ?n"
    proof
      assume "Suc j = ?n"
      then have "j = ?n - 1" by linarith
      then show False using ne by (simp add: ks_def kt_def tail_of_def)
    qed
    then have "unat (committed_version ks) = clean p j" using ks by (simp add: node_ok_def)
    then have "unat (committed_version ks) < unat (committed_version kt)"
      using pl_clean_le_tail [OF inv n(3), of j] tv ne by (simp add: word_unat_eq_iff)
    moreover have "unat (committed_version kt) \<in> hist p j"
      using pl_tail_newest_everywhere [OF inv j] tv nz by (simp add: word_neq_0_unat)
    ultimately obtain y where y: "pending_versions ks (committed_version kt) = Some y"
      using node_ok_pending [OF ks, of "unat (committed_version kt)"] by auto
    then show ?thesis using agr nz by (simp add: agrees_def)
  qed
  show "committed_value ks = committed_value kt"
    if "committed_version kt \<noteq> 0" "committed_version ks = committed_version kt"
    using agr that by (simp add: agrees_def)
qed

lemma craq_read_any_node:
  assumes as: "valid_addrs as"
    and sim: "cluster_sim (length as) CRAQ (position CRAQ as k) k (origin_text CRAQ as k) p c"
    and inv: "pl_inv (length as) p" and fx: "cluster_fixed (start_topo hw CRAQ direct as) c"
    and j: "j < length as" and sv: "servers c (position CRAQ as k j) = Some sv"
    and tl: "servers c (tail_of CRAQ as k) = Some svt" and hops: "length as \<le> hops"
  shows "snd (rpc_Read (cluster_rpc hops c) \<lparr>rreq_key = k\<rparr> sv) = snd (rpc_Read rpc \<lparr>rreq_key = k\<rparr> svt)"
proof (cases "Suc j = length as")
  case True
  then have "position CRAQ as k j = tail_of CRAQ as k" by (simp add: tail_of_def flip: True)
  then have "svt = sv" using sv tl by simp
  then show ?thesis using tail_read [OF as sim fx tl] by (metis snd_conv)
next
  case False
  let ?v = "committed_version (key_at c (tail_of CRAQ as k) k)"
  obtain s where s: "the_strategy sv = Some (CRAQ, s)"
    "fixed (start_topo hw CRAQ direct as (position CRAQ as k j)) sv"
    "key_at c (position CRAQ as k j) k = key_state (by_key s) k"
    using deployed_position [OF sim fx j] sv by (metis option.inject)
  have "version_query_call (cluster_rpc (Suc hops) c) (position CRAQ as k j) \<lparr>vq_key = k\<rparr>
      = (Status_OK, \<lparr>vqr_key = k, vqr_latest_version = ?v\<rparr>)"
    by (rule craq_version_query_answer [OF as sim fx j]) (use hops in simp)
  from craq_handler_answer [OF this sv s(1)]
  have q: "craq_handle_version_query (cluster_rpc hops c) \<lparr>vq_key = k\<rparr> (the_node sv) (replica_of sv (CRAQ, s))
    = Inr \<lparr>vqr_key = k, vqr_latest_version = ?v\<rparr>" .
  have nt: "\<not> Node_is_tail (the_node sv)"
    using line_topology_server(5) [OF deployed_line [OF as] s(2) j s(1)] False by simp
  note vs = craq_node_vs_tail [OF as sim inv j, unfolded s(3)]
  let ?r = "replica_of sv (CRAQ, s)"
  have st: "kstate ?r k = key_state (by_key s) k" by simp
  have own: "latest_seen_version (kstate ?r k) \<le> committed_version (kstate ?r k) \<Longrightarrow>
      committed_version (kstate ?r k) = ?v"
    "?v \<noteq> 0 \<Longrightarrow> committed_version (kstate ?r k) \<noteq> ?v \<Longrightarrow>
      pending_versions (kstate ?r k) ?v = Some (committed_value (key_at c (tail_of CRAQ as k) k))"
    "?v \<noteq> 0 \<Longrightarrow> committed_version (kstate ?r k) = ?v \<Longrightarrow>
      committed_value (kstate ?r k) = committed_value (key_at c (tail_of CRAQ as k) k)"
    unfolding st by (rule vs; assumption)+
  have read: "?v \<noteq> 0 \<Longrightarrow> craq_handle_read (cluster_rpc hops c) \<lparr>rreq_key = k\<rparr> (the_node sv) ?r
      = Inr \<lparr>rresp_key = k, rresp_value = committed_value (key_at c (tail_of CRAQ as k) k),
             rresp_version = ?v\<rparr>"
    "?v = 0 \<Longrightarrow> \<not> isOk (craq_handle_read (cluster_rpc hops c) \<lparr>rreq_key = k\<rparr> (the_node sv) ?r)"
    by (rule craq_read_cases [OF nt q own]; assumption)+
  have rd: "rpc_Read (cluster_rpc hops c) \<lparr>rreq_key = k\<rparr> sv
    = status_of INTERNAL (craq_handle_read (cluster_rpc hops c) \<lparr>rreq_key = k\<rparr> (the_node sv) ?r)"
    by (simp only: rpc_Read_def s(1) strategy_handle_read_def option.case fst_conv ReplicationMode.case)
  show ?thesis
  proof (cases "?v = 0")
    case True
    from read(2) [OF True] obtain e where
      "craq_handle_read (cluster_rpc hops c) \<lparr>rreq_key = k\<rparr> (the_node sv) ?r = Inl e"
      by (auto simp: isOk_def split: sum.splits)
    then have "snd (rpc_Read (cluster_rpc hops c) \<lparr>rreq_key = k\<rparr> sv) = None"
      unfolding rd by (simp add: status_of_def)
    then show ?thesis using tail_read(2) [OF as sim fx tl True, of rpc] by simp
  next
    case False
    show ?thesis
      unfolding rd read(1) [OF False] tail_read(1) [OF as sim fx tl False, of rpc]
      by (simp add: status_of_def)
  qed
qed

end
