(* ===== verification/Cluster_Run.thy ===== *)
theory Cluster_Run
  imports Guarantees "HOL-Library.Code_Target_Numeral"
begin

section \<open>Executing a cluster\<close>

text \<open>
  An executable counterpart of \<open>cluster_step\<close>: the event names what happens, a worker is the
  first one that can take it, and every Ack RPC to a client succeeds. Sound with respect to
  the relation, it is used to produce concrete reachable clusters. The sample addresses are
  those of src/config.json and src/config.crown.sample.json.
\<close>

definition rpc_up :: Rpc where
  "rpc_up = \<lparr>ack_call = (\<lambda>_ _. Status_OK),
     version_query_call = (\<lambda>_ _. (unavailable, VersionQueryResponse_default))\<rparr>"

fun find_worker :: "Worker \<Rightarrow> Worker list \<Rightarrow> nat option" where
  "find_worker w [] = None"
| "find_worker w (x # xs) = (if x = w then Some 0 else map_option Suc (find_worker w xs))"

lemma find_worker_Some: "find_worker w xs = Some i \<Longrightarrow> i < length xs \<and> xs ! i = w"
  by (induction xs arbitrary: i) (auto split: if_splits)

definition with_server :: "stub \<Rightarrow> Cluster \<Rightarrow> (Server \<Rightarrow> Cluster option) \<Rightarrow> Cluster option" where
  "with_server a c f = (case servers c a of None \<Rightarrow> None | Some sv \<Rightarrow> f sv)"

fun exec_event :: "cluster_event \<Rightarrow> Cluster \<Rightarrow> Cluster option" where
  "exec_event (Client_write a req) c = with_server a c (\<lambda>sv.
     (let ((st, resp), sv') = rpc_Write rpc_up req sv
      in Some ((put_server a sv' c)\<lparr>accepted := accepted c @ accepted_entry req resp\<rparr>)))"
| "exec_event (Worker_take a m t) c = with_server a c (\<lambda>sv.
     (let d = dispatchers sv m
      in case (queue d, find_worker Waiting (workers d)) of
           (t' # ts, Some i) \<Rightarrow>
             if t' = t
             then Some ((put_server a (put_dispatcher m
                    (d\<lparr>queue := ts, workers := (workers d)[i := Calling t]\<rparr>) sv) c)
                    \<lparr>prop_calls := prop_calls c @ [(task_successor t, task_req t)]\<rparr>)
             else None
         | _ \<Rightarrow> None))"
| "exec_event (Worker_complete a m t) c = with_server a c (\<lambda>sv.
     (let d = dispatchers sv m
      in case find_worker (Calling t) (workers d) of
           None \<Rightarrow> None
         | Some i \<Rightarrow> Some (put_server a (put_dispatcher m
                        (d\<lparr>workers := (workers d)[i := Waiting]\<rparr>) sv) c)))"
| "exec_event (Deliver_propagate b req) c =
     (if (b, req) \<in> set (prop_calls c)
      then with_server b c (\<lambda>sv.
        (let (res, sv') = rpc_Propagate rpc_up req sv
         in Some ((put_server b sv' c)\<lparr>prop_calls := remove1 (b, req) (prop_calls c)\<rparr>)))
      else None)"
| "exec_event (Lose_propagate b req) c =
     (if (b, req) \<in> set (prop_calls c)
      then Some (c\<lparr>prop_calls := remove1 (b, req) (prop_calls c)\<rparr>) else None)"
| "exec_event (Ack_turn a) c = with_server a c (\<lambda>sv.
     (case the_strategy sv of
        None \<Rightarrow> None
      | Some (m, s) \<Rightarrow>
          (let (turn, s') = ack_worker_turn s
           in Some ((put_server a (put_support m s' sv) c)
                \<lparr>ack_calls := ack_calls c @ turn_call turn\<rparr>))))"
| "exec_event (Deliver_ack b req) c =
     (if (b, req) \<in> set (ack_calls c)
      then with_server b c (\<lambda>sv.
        (let (res, sv') = rpc_Ack req sv
         in Some ((put_server b sv' c)\<lparr>ack_calls := remove1 (b, req) (ack_calls c)\<rparr>)))
      else None)"
| "exec_event (Configure_again a cfg) c = with_server a c (\<lambda>sv.
     (case the_strategy sv of
        None \<Rightarrow> None
      | Some (m, s) \<Rightarrow>
          if m = Node_mode (the_node sv) \<and> proto_to_config cfg = Inr (config (the_node sv))
          then Some (put_server a (snd (rpc_Configure cfg sv)) c) else None))"
| "exec_event (Lose_ack b req) c =
     (if (b, req) \<in> set (ack_calls c)
      then Some (c\<lparr>ack_calls := remove1 (b, req) (ack_calls c)\<rparr>) else None)"

fun exec_events :: "cluster_event list \<Rightarrow> Cluster \<Rightarrow> Cluster option" where
  "exec_events [] c = Some c"
| "exec_events (e # es) c = (case exec_event e c of None \<Rightarrow> None | Some c' \<Rightarrow> exec_events es c')"

lemma with_server_Some:
  "with_server a c f = Some c' \<longleftrightarrow> (\<exists>sv. servers c a = Some sv \<and> f sv = Some c')"
  by (simp add: with_server_def split: option.splits)

lemma exec_event_step: "exec_event e c = Some c' \<Longrightarrow> cluster_step c e c'"
proof (induction e c rule: exec_event.induct)
  case (1 a req c)
  then obtain sv where sv: "servers c a = Some sv" by (auto simp: with_server_Some)
  obtain st resp sv' where rpc: "rpc_Write rpc_up req sv = ((st, resp), sv')"
    by (metis surj_pair)
  show ?case
    using 1 client_write [OF sv rpc] by (auto simp: with_server_Some sv rpc)
next
  case (2 a m t c)
  then obtain sv where sv: "servers c a = Some sv" by (auto simp: with_server_Some)
  let ?d = "dispatchers sv m"
  obtain ts i where q: "queue ?d = t # ts" "find_worker Waiting (workers ?d) = Some i"
    and c': "c' = (put_server a (put_dispatcher m
        (?d\<lparr>queue := ts, workers := (workers ?d)[i := Calling t]\<rparr>) sv) c)
        \<lparr>prop_calls := prop_calls c @ [(task_successor t, task_req t)]\<rparr>"
    using 2 by (cases "queue ?d"; cases "find_worker Waiting (workers ?d)")
      (auto simp: with_server_Some sv Let_def split: if_splits)
  have "disp_step ?d (Take t) (?d\<lparr>queue := ts, workers := (workers ?d)[i := Calling t]\<rparr>)"
    using find_worker_Some [OF q(2)] q(1) by (intro take_task) auto
  from worker_take [OF sv this] show ?case unfolding c' .
next
  case (3 a m t c)
  then obtain sv where sv: "servers c a = Some sv" by (auto simp: with_server_Some)
  let ?d = "dispatchers sv m"
  obtain i where i: "find_worker (Calling t) (workers ?d) = Some i"
    and c': "c' = put_server a (put_dispatcher m (?d\<lparr>workers := (workers ?d)[i := Waiting]\<rparr>) sv) c"
    using 3 by (cases "find_worker (Calling t) (workers ?d)") (auto simp: with_server_Some sv Let_def)
  have "disp_step ?d (Complete t) (?d\<lparr>workers := (workers ?d)[i := Waiting]\<rparr>)"
    using find_worker_Some [OF i] by (intro complete_call) auto
  from worker_complete [OF sv this] show ?case unfolding c' .
next
  case (4 b req c)
  then obtain sv where call: "(b, req) \<in> set (prop_calls c)" and sv: "servers c b = Some sv"
    by (auto simp: with_server_Some split: if_splits)
  obtain res sv' where rpc: "rpc_Propagate rpc_up req sv = (res, sv')" by (metis surj_pair)
  show ?case
    using 4 deliver_propagate [OF call sv rpc] by (auto simp: with_server_Some sv rpc call)
next
  case (6 a c)
  then show ?case
    by (auto simp: with_server_Some split_beta split: option.splits intro!: ack_worker)
next
  case (7 b req c)
  then obtain sv where call: "(b, req) \<in> set (ack_calls c)" and sv: "servers c b = Some sv"
    by (auto simp: with_server_Some split: if_splits)
  obtain res sv' where rpc: "rpc_Ack req sv = (res, sv')" by (metis surj_pair)
  show ?case
    using 7 deliver_ack [OF call sv rpc] by (auto simp: with_server_Some sv rpc call)
next
  case (8 a cfg c)
  then obtain sv s where sv: "servers c a = Some sv" "the_strategy sv = Some (Node_mode (the_node sv), s)"
    "proto_to_config cfg = Inr (config (the_node sv))" "c' = put_server a (snd (rpc_Configure cfg sv)) c"
    by (auto simp: with_server_Some split: option.splits if_splits prod.splits)
  show ?case unfolding sv(4) by (rule configure_again [OF sv(1-3) surjective_pairing])
qed (auto split: if_splits intro: lose_propagate lose_ack)

lemma exec_events_reach:
  "exec_events es c = Some c' \<Longrightarrow> list_all allowed es \<Longrightarrow> cluster_reach allowed c0 c \<Longrightarrow>
    cluster_reach allowed c0 c'"
proof (induction es arbitrary: c)
  case (Cons e es)
  then obtain c1 where c1: "exec_event e c = Some c1" "exec_events es c1 = Some c'"
    by (auto split: option.splits)
  have "cluster_reach allowed c0 c1"
    using Cons.prems(2,3) exec_event_step [OF c1(1)] by (auto intro: reach_step)
  with Cons.IH [OF c1(2)] Cons.prems(2) show ?case by simp
qed simp

subsection \<open>A write that travels the whole chain\<close>

text \<open>The events that take the oldest task of a node's dispatcher and deliver its call.\<close>

definition pass_on :: "ReplicationMode \<Rightarrow> stub \<Rightarrow> Cluster \<Rightarrow> cluster_event list" where
  "pass_on m a c =
     (case servers c a of
        None \<Rightarrow> []
      | Some sv \<Rightarrow> (case queue (dispatchers sv m) of
          [] \<Rightarrow> []
        | t # _ \<Rightarrow> [Worker_take a m t, Deliver_propagate (task_successor t) (task_req t)]))"

fun pass_along :: "ReplicationMode \<Rightarrow> stub list \<Rightarrow> Cluster \<Rightarrow> Cluster option" where
  "pass_along m [] c = Some c"
| "pass_along m (a # as) c =
     (case exec_events (pass_on m a c) c of None \<Rightarrow> None | Some c' \<Rightarrow> pass_along m as c')"

lemma pass_along_reach:
  assumes "\<And>a m t. allowed (Worker_take a m t)" "\<And>b req. allowed (Deliver_propagate b req)"
  shows "pass_along m as c = Some c' \<Longrightarrow> cluster_reach allowed c0 c \<Longrightarrow> cluster_reach allowed c0 c'"
proof (induction as arbitrary: c)
  case (Cons a as)
  then obtain c1 where c1: "exec_events (pass_on m a c) c = Some c1" "pass_along m as c1 = Some c'"
    by (auto split: option.splits)
  have "list_all allowed (pass_on m a c)"
    using assms by (auto simp: pass_on_def split: option.splits list.splits)
  with exec_events_reach [OF c1(1)] Cons.IH [OF c1(2)] Cons.prems(2) show ?case by blast
qed simp

definition sample_addrs :: "pb_NodeAddress list" where
  "sample_addrs =
     [\<lparr>pb_host = ''127.0.0.1'', pb_port = 50051\<rparr>, \<lparr>pb_host = ''127.0.0.1'', pb_port = 50052\<rparr>,
      \<lparr>pb_host = ''127.0.0.1'', pb_port = 50053\<rparr>]"

definition sample_write :: "string \<Rightarrow> WriteRequest" where
  "sample_write x =
     \<lparr>wreq_key = ''k'', wreq_value = x, wreq_version = 0, wreq_client_addr = ''c:1'', wreq_request_id = 1\<rparr>"

text \<open>One write accepted by the head and passed on by the first \<open>hops\<close> nodes of its chain.\<close>

definition sample_run :: "ReplicationMode \<Rightarrow> nat \<Rightarrow> Cluster option" where
  "sample_run m hops =
     (case exec_event (Client_write (head_of m sample_addrs ''k'') (sample_write ''v''))
             (deployed 2 m False sample_addrs) of
        None \<Rightarrow> None
      | Some c \<Rightarrow> pass_along m (map (position m sample_addrs ''k'') [0..<hops]) c)"


lemma sample_reach:
  assumes "sample_run m hops = Some c"
    and "\<And>a m t. allowed (Worker_take a m t)" "\<And>b req. allowed (Deliver_propagate b req)"
    and "\<And>req. allowed (Client_write (head_of m sample_addrs (wreq_key req)) req)"
  shows "cluster_reach allowed (deployed 2 m False sample_addrs) c"
proof -
  let ?w = "Client_write (head_of m sample_addrs ''k'') (sample_write ''v'')"
  obtain c1 where c1: "exec_event ?w (deployed 2 m False sample_addrs) = Some c1"
    "pass_along m (map (position m sample_addrs ''k'') [0..<hops]) c1 = Some c"
    using assms(1) by (auto simp: sample_run_def split: option.splits)
  have "allowed ?w" using assms(4) [of "sample_write ''v''"] by (simp add: sample_write_def)
  then have "cluster_reach allowed (deployed 2 m False sample_addrs) c1"
    using reach_step [OF reach_start exec_event_step [OF c1(1)]] by blast
  then show ?thesis by (rule pass_along_reach [OF assms(2,3) c1(2)])
qed

subsection \<open>The sample deployment after one write\<close>

lemma sample_valid: "valid_addrs sample_addrs"
  by code_simp

definition sample_cluster :: "ReplicationMode \<Rightarrow> Cluster" where
  "sample_cluster m = the (sample_run m 2)"

definition sample_tail :: "ReplicationMode \<Rightarrow> Server" where
  "sample_tail m = the (servers (sample_cluster m) (tail_of m sample_addrs ''k''))"

definition sample_read :: ReadResponse where
  "sample_read = \<lparr>rresp_key = ''k'', rresp_value = ''v'', rresp_version = 1\<rparr>"

definition sample_ack :: AckRequest where
  "sample_ack = \<lparr>ack_key = ''k'', ack_version = 1, ack_client_addr = ''c:1'', ack_request_id = 1\<rparr>"

definition sample_outcome :: "ReplicationMode \<Rightarrow> bool" where
  "sample_outcome m =
     (case sample_run m 2 of
        None \<Rightarrow> False
      | Some c \<Rightarrow> (case servers c (tail_of m sample_addrs ''k'') of
          None \<Rightarrow> False
        | Some sv \<Rightarrow> accepted c = [(''k'', 1, ''v'')] \<and> ack_log sv = [(''c:1'', sample_ack)] \<and>
            rpc_Read rpc_up \<lparr>rreq_key = ''k''\<rparr> sv = (Status_OK, Some sample_read)))"

lemma sample_outcome: "sample_outcome m"
  by (cases m; (hypsubst, code_simp))

lemma sample_facts:
  "sample_run m 2 = Some (sample_cluster m)"
  "servers (sample_cluster m) (tail_of m sample_addrs ''k'') = Some (sample_tail m)"
  "accepted (sample_cluster m) = [(''k'', 1, ''v'')]"
  "ack_log (sample_tail m) = [(''c:1'', sample_ack)]"
  "rpc_Read rpc_up \<lparr>rreq_key = ''k''\<rparr> (sample_tail m) = (Status_OK, Some sample_read)"
  using sample_outcome [of m]
  by (auto simp: sample_outcome_def sample_cluster_def sample_tail_def split: option.splits)

lemma sample_cluster_reach:
  "cluster_reach (client_routes m sample_addrs) (deployed 2 m False sample_addrs) (sample_cluster m)"
  by (rule sample_reach [OF sample_facts(1)]) (simp_all add: client_routes_def routed_to_def)

lemma sample_length: "length (accepted (sample_cluster m)) + 1 < 2 ^ 64"
  by (simp add: sample_facts)

text \<open>The shipped addresses as an instance of the chain laws, for every mode and key.\<close>

interpretation sample: replication_chain "length sample_addrs" m "position m sample_addrs k" k
    "origin_text m sample_addrs k" "start_topo 2 m False sample_addrs" "client_routes m sample_addrs"
  for m k
  by (rule replication_chain_deployed [OF sample_valid])

lemma sample_position:
  assumes "i < length sample_addrs"
  obtains sv where "servers (sample_cluster m) (position m sample_addrs ''k'' i) = Some sv"
proof -
  obtain p where p: "cluster_sim (length sample_addrs) m (position m sample_addrs ''k'') ''k''
      (origin_text m sample_addrs ''k'') p (sample_cluster m)"
    by (rule deployed_refines [OF sample_valid sample_cluster_reach sample_length])
  with assms that show thesis by (auto simp: cluster_sim_def)
qed

lemma sample_middle_seen:
  "latest_seen_version (key_at (sample_cluster CHAIN) (position CHAIN sample_addrs ''k'' 1) ''k'') \<noteq> 0"
  unfolding sample_cluster_def by code_simp

end
