(* ===== verification/Component_Properties.thy ===== *)
theory Component_Properties
  imports Cluster_Run
begin

section \<open>Properties of the single components\<close>

text \<open>
  What each component guarantees on its own: the hash and the roles derived from it, the
  version store, the three strategies, the service, the dispatcher and the ack queue.
\<close>

subsection \<open>Strategies\<close>






text \<open>
  C23. Whatever requests a node handles, in whatever order (stale, repeated or reordered
  propagates and acks included), the committed version of a key never goes back, under each
  of the three strategies.
\<close>

theorem committed_version_never_goes_back:
  "committed_version (kstate r key) \<le> committed_version (kstate
      (fold (serve (\<lambda>w. chain_handle_write rpc w node) (\<lambda>p. chain_handle_propagate rpc p node)
         (\<lambda>a. chain_handle_ack a node)) qs r) key) \<and>
   committed_version (kstate r key) \<le> committed_version (kstate
      (fold (serve (\<lambda>w. craq_handle_write rpc w node) (\<lambda>p. craq_handle_propagate rpc p node)
         (\<lambda>a. craq_handle_ack a node)) qs r) key) \<and>
   committed_version (kstate r key) \<le> committed_version (kstate
      (fold (serve (\<lambda>w. crown_handle_write rpc w node) (\<lambda>p. crown_handle_propagate rpc p node)
         (\<lambda>a. crown_handle_ack a node)) qs r) key)"
  by (intro conjI chain.serve_all_committed craq.serve_all_committed crown.serve_all_committed)

text \<open>
  A CHAIN or CRAQ server that is not the head refuses a client's write with the
  strategy's message and changes nothing.
\<close>

lemma write_refused_off_head:
  assumes "the_strategy sv = Some (m, s)" "m \<noteq> CROWN" "\<not> Node_is_head (the_node sv)"
  shows "rpc_Write rpc req sv
    = ((\<lparr>code = INTERNAL, error_message = server_mode_name m @ '' write rejected: node is not head''\<rparr>,
        None), sv)"
  using assms put_replica_same [OF assms(1)]
  by (cases m) (simp_all add: rpc_Write_def strategy_handle_write_def chain_write_reject
      craq_write_reject status_of_def server_mode_name_def)

definition middle_server :: Server where
  "middle_server = configured 2 (node_proto CHAIN False sample_addrs 1)"

lemma middle_server:
  "\<exists>s. the_strategy middle_server = Some (CHAIN, s)" "\<not> Node_is_head (the_node middle_server)"
  using configured_server(1,3) [OF proto_to_config_node, of 2 CHAIN False sample_addrs 1]
  by (auto simp: middle_server_def node_config_mode topo_of_def Node_is_head_def node_config_line)

text \<open>
  A CROWN server accepts every write, also for a key it does not own as head: nothing in
  the handler looks at the ownership of the key.
\<close>

lemma crown_accepts_foreign_write:
  assumes "the_strategy sv = Some (CROWN, s)"
  shows "fst (rpc_Write rpc req sv) = (Status_OK,
    Some (accepted_response (next_version (key_state (by_key s) (wreq_key req)) + 1)))"
  using assms by (simp add: rpc_Write_def strategy_handle_write_def split_beta crown_write_result status_of_def)

text \<open>
  So a misrouted write breaks the numbering of a CROWN deployment, as this run shows: two nodes
  accept different values for one key under the same version.
\<close>

lemma crown_misrouted_writes_clash:
  "map_option accepted (exec_events
      [Client_write (pb_endpoint (sample_addrs ! 0)) (sample_write ''x''),
       Client_write (pb_endpoint (sample_addrs ! 1)) (sample_write ''y'')]
      (deployed 2 CROWN False sample_addrs))
    = Some [(''k'', 1, ''x''), (''k'', 1, ''y'')]"
  by code_simp

text \<open>
  A propagated CROWN write stops exactly at the node before the one that accepted it: on
  a ring of \<open>n\<close> nodes, with the origin's index in decimal text, the tail test holds at the
  index \<open>j\<close> whose clockwise neighbour is the origin, and the text never makes it throw.
\<close>

lemma crown_write_ends_before_origin:
  assumes "crown_node_count (config node) = n" "1 < n" "n \<le> int_max"
    and "prop_origin_id req = to_string_int i" "0 \<le> i" "i < n"
    and "0 \<le> Node_index node" "Node_index node < n"
  shows "is_request_tail_node node req = Inr ((Node_index node + 1) mod n = i)"
  using is_request_tail_origin [OF assms(1-6)] ring_pred_succ [of n i "Node_index node"] assms
  by (auto simp: eq_commute)

text \<open>
  A CROWN propagate with a bad \<open>origin_id\<close> is answered with an error after the write was
  recorded: the node keeps the value and raises its newest version, but neither forwards nor
  commits it.
\<close>

lemma crown_bad_origin_leaves_record:
  assumes "is_request_tail_node node req = Inl e" "prop_version req \<noteq> 0"
  shows "crown_handle_propagate rpc req node r = (Inl e, upd_store
    (record_local_write_if_newer (prop_key req) (prop_value req) (prop_version req)) r)"
  using assms by (simp add: crown_handle_propagate_def Let_def)

text \<open>
  Once a newer version is marked clean, an older one is gone from the replica: a CRAQ
  read that learned the older version from the tail just before can no longer materialize it.
\<close>

lemma cleaned_version_not_materializable:
  assumes "pending_versions (key_state m key) w = Some x" "v < w"
  shows "read_value_at_version key v (mark_version_clean key w m) = None"
  using assms by (auto simp: read_value_at_version_cases key_state_clean max_def not_le)

subsection \<open>Version store\<close>



subsection \<open>The service\<close>

text \<open>
  C22. The service's invariant (the strategy is of the configured mode, every key's state is
  well-formed, the two client caches agree) survives each state-changing RPC with any request,
  as long as the key written has not used up all 64-bit versions.
\<close>

theorem server_invariant_preserved:
  assumes "server_inv sv"
    and "\<And>m s. the_strategy sv = Some (m, s) \<Longrightarrow> next_version (key_state (by_key s) (wreq_key w)) \<noteq> -1"
  shows "server_inv (snd (rpc_Configure cfg sv)) \<and> server_inv (snd (rpc_Write rpc w sv)) \<and>
    server_inv (snd (rpc_Propagate rpc p sv)) \<and> server_inv (snd (rpc_Ack a sv))"
  by (intro conjI server_inv_Configure server_inv_Write server_inv_Propagate server_inv_Ack assms)

theorem server_invariant_preserved_witness:
  "server_inv (snd (rpc_Configure (node_proto CRAQ True sample_addrs 0) (Server_init 4)))"
  using server_invariant_preserved [OF server_inv_init, of 4 "sample_write ''v''"
      "node_proto CRAQ True sample_addrs 0"]
  by (simp add: Server_init_def)

text \<open>
  C24. Reconfiguring a server within its mode keeps the stored versions, the client cache and
  the queued acks, and gives it the stubs the new configuration names; a change of mode starts
  from an empty store. The dispatcher queues survive both.
\<close>

theorem configure_keeps_or_resets:
  assumes "proto_to_config p = Inr cfg" "the_strategy sv = Some (m, s)"
  shows "\<exists>s'. the_strategy (snd (rpc_Configure p sv))
      = Some (if mode cfg = Node_mode (the_node sv) then m else mode cfg, s') \<and>
    by_key s' = (if mode cfg = Node_mode (the_node sv) then by_key s else Map.empty) \<and>
    pred_ack_queue s' = (if mode cfg = Node_mode (the_node sv) then pred_ack_queue s else []) \<and>
    predecessor_stub s' = map_option addr_to_string (predecessor cfg) \<and>
    successor_stub s' = map_option addr_to_string (successor cfg) \<and>
    tail_stub s' = map_option addr_to_string (tail_addr cfg) \<and>
    config (the_node (snd (rpc_Configure p sv))) = cfg \<and>
    (\<forall>m'. dispatchers (snd (rpc_Configure p sv)) m' = dispatchers sv m')"
proof -
  define st where "st = (if mode cfg = Node_mode (the_node sv) then (m, s) else make_strategy (mode cfg))"
  define r where "r = strategy_on_config_change (fst st) \<lparr>config = cfg\<rparr>
    (replica_of (sv\<lparr>the_node := \<lparr>config = cfg\<rparr>\<rparr>) st)"
  have nd: "update_config cfg (the_node sv) = \<lparr>config = cfg\<rparr>" by (simp add: update_config_def)
  have sv': "snd (rpc_Configure p sv) = put_replica (fst st) r (sv\<lparr>the_node := \<lparr>config = cfg\<rparr>\<rparr>)"
    using assms by (simp add: rpc_Configure_def Let_def st_def r_def nd)
  have "predecessor_stub (support r) = map_option addr_to_string (predecessor cfg)"
    "successor_stub (support r) = map_option addr_to_string (successor cfg)"
    "tail_stub (support r) = map_option addr_to_string (tail_addr cfg)"
    unfolding r_def by (cases "fst st"; simp add: strategy_on_config_change_def chain_on_config_change_def
        craq_on_config_change_def crown_on_config_change_def support_on_config_change_stubs
        start_ack_workers_simps)+
  moreover note frame = strategy_on_config_change_frame [of "fst st" "\<lparr>config = cfg\<rparr>"
      "replica_of (sv\<lparr>the_node := \<lparr>config = cfg\<rparr>\<rparr>) st", folded r_def]
  ultimately show ?thesis
    unfolding sv' using frame(1,3,5)
    by (simp add: st_def make_strategy_def Support_init_def)
qed

theorem configure_keeps_or_resets_witness:
  "\<exists>s. the_strategy (snd (rpc_Configure (node_proto CRAQ False sample_addrs 1) middle_server)) = Some (CRAQ, s)
    \<and> by_key s = Map.empty"
proof -
  obtain s where s: "the_strategy middle_server = Some (CHAIN, s)" using middle_server(1) by blast
  have "Node_mode (the_node middle_server) = CHAIN"
    using configured_server(1) [OF proto_to_config_node, of 2 CHAIN False sample_addrs 1]
    by (simp add: middle_server_def topo_of_def Node_mode_def node_config_mode)
  with configure_keeps_or_resets [OF proto_to_config_node s, of CRAQ False sample_addrs 1]
  show ?thesis by (auto simp: node_config_mode)
qed

subsection \<open>Dispatcher and ack queue\<close>

text \<open>
  C31. The propagate queue is first-in first-out and loses nothing: after any run of the
  worker threads the tasks taken are, in order, a prefix of those enqueued, the rest is still
  queued, and every task taken has been completed or is in the hands of a worker.
\<close>

theorem dispatcher_fifo_no_loss:
  assumes "disp_run (dispatcher_init hw) ls d"
  shows "enqueued ls = taken ls @ queue d \<and>
    mset (taken ls) = calls_of (workers d) + mset (completed ls) \<and>
    length (workers d) = worker_count hw \<and> 1 \<le> worker_count hw \<and> worker_count hw \<le> 8"
  using disp_run_fifo [OF assms] disp_run_conserves [OF assms] disp_run_workers [OF assms]
    worker_count_bounds [of hw]
  by (simp add: dispatcher_init_def)

text \<open>Three tasks enqueued, two taken by the two workers, the second of them completed.\<close>

definition sample_task :: "string \<Rightarrow> PropagateTask" where
  "sample_task x = \<lparr>task_successor = ''n:1'', task_req = make_propagate (sample_write x) 1 ''0'', task_from = ''0''\<rparr>"

definition sample_history :: "disp_label list" where
  "sample_history = [Enqueue (sample_task ''u''), Enqueue (sample_task ''v''), Enqueue (sample_task ''w''),
     Take (sample_task ''u''), Take (sample_task ''v''), Complete (sample_task ''v'')]"

lemma sample_history_run:
  "disp_run (dispatcher_init 2) sample_history
    \<lparr>queue = [sample_task ''w''], workers = [Calling (sample_task ''u''), Waiting], stop = False\<rparr>"
proof -
  let ?d = "\<lambda>q ws. \<lparr>queue = map sample_task q, workers = ws, stop = False\<rparr>"
  have enq: "disp_step (?d q ws) (Enqueue (sample_task x)) (?d (q @ [x]) ws)" for q ws x
    using enqueue_task [of "?d q ws" "sample_task x"] by (simp add: enqueue_def sample_task_def)
  have "disp_run (dispatcher_init 2) [] (?d [] [Waiting, Waiting])"
    using run_nil [of "dispatcher_init 2"] by (simp add: dispatcher_init_def worker_count_def numeral_2_eq_2)
  from run_snoc [OF run_snoc [OF run_snoc [OF this enq [of _ _ "''u''"]] enq [of _ _ "''v''"]] enq [of _ _ "''w''"]]
  have "disp_run (dispatcher_init 2)
      [Enqueue (sample_task ''u''), Enqueue (sample_task ''v''), Enqueue (sample_task ''w'')]
      (?d [''u'', ''v'', ''w''] [Waiting, Waiting])" by simp
  moreover have "disp_step (?d [''u'', ''v'', ''w''] [Waiting, Waiting]) (Take (sample_task ''u''))
      (?d [''v'', ''w''] [Calling (sample_task ''u''), Waiting])"
    using take_task [of 0 "?d [''u'', ''v'', ''w''] [Waiting, Waiting]" "sample_task ''u''"] by simp
  moreover have "disp_step (?d [''v'', ''w''] [Calling (sample_task ''u''), Waiting]) (Take (sample_task ''v''))
      (?d [''w''] [Calling (sample_task ''u''), Calling (sample_task ''v'')])"
    using take_task [of 1 "?d [''v'', ''w''] [Calling (sample_task ''u''), Waiting]" "sample_task ''v''"] by simp
  moreover have "disp_step (?d [''w''] [Calling (sample_task ''u''), Calling (sample_task ''v'')])
      (Complete (sample_task ''v'')) (?d [''w''] [Calling (sample_task ''u''), Waiting])"
    using complete_call [of 1 "?d [''w''] [Calling (sample_task ''u''), Calling (sample_task ''v'')]" "sample_task ''v''"]
    by simp
  ultimately show ?thesis
    using run_snoc [OF run_snoc [OF run_snoc]] by (fastforce simp: sample_history_def)
qed

theorem dispatcher_fifo_no_loss_witness:
  "enqueued sample_history = taken sample_history @ [sample_task ''w''] \<and>
    mset (taken sample_history) = {#sample_task ''u''#} + mset (completed sample_history) \<and>
    length (taken sample_history) = 2"
  using dispatcher_fifo_no_loss [OF sample_history_run]
  by (simp add: sample_history_def history_defs)

text \<open>
  C32. Shutdown terminates and completes the work: after \<open>stop_\<close> is set and nothing more is
  enqueued, a step is possible until every worker has returned, every step uses up one unit
  of the remaining work, and once all workers have returned every task enqueued was completed.
\<close>

theorem dispatcher_shutdown:
  assumes "disp_run (dispatcher_init hw) ls d" "stop d" "drained d"
  shows "(\<not> set (workers d) \<subseteq> {Returned} \<longrightarrow>
      (\<exists>l d'. disp_step d l d' \<and> l \<noteq> Request_stop \<and> (\<forall>t. l \<noteq> Enqueue t))) \<and>
    (\<forall>l d'. disp_step d l d' \<and> l \<noteq> Request_stop \<and> (\<forall>t. l \<noteq> Enqueue t) \<longrightarrow>
      disp_work d = disp_work d' + 1 \<and> drained d') \<and>
    (set (workers d) \<subseteq> {Returned} \<longrightarrow> mset (completed ls) = mset (enqueued ls))"
proof (intro conjI allI impI)
  show "\<exists>l d'. disp_step d l d' \<and> l \<noteq> Request_stop \<and> (\<forall>t. l \<noteq> Enqueue t)"
    if "\<not> set (workers d) \<subseteq> {Returned}"
    using disp_progress [OF assms(2) that] .
  fix l d' assume *: "disp_step d l d' \<and> l \<noteq> Request_stop \<and> (\<forall>t. l \<noteq> Enqueue t)"
  then show "disp_work d = disp_work d' + 1" using disp_step_work by blast
  show "drained d'" using * disp_step_drained assms(3) by blast
next
  assume all: "set (workers d) \<subseteq> {Returned}"
  have "length (workers d) = worker_count hw" "1 \<le> worker_count hw"
    using disp_run_workers [OF assms(1)] worker_count_bounds [of hw] by (simp_all add: dispatcher_init_def)
  then have "Returned \<in> set (workers d)" using all by (cases "workers d") auto
  then have "queue d = []" using assms(3) by (simp add: drained_def)
  then show "mset (completed ls) = mset (enqueued ls)"
    using disp_run_fifo [OF assms(1)] disp_run_conserves [OF assms(1)] calls_of_Returned [OF all]
    by (simp add: dispatcher_init_def)
qed

theorem dispatcher_shutdown_witness:
  "\<exists>l d'. disp_step ((dispatcher_init 2)\<lparr>stop := True\<rparr>) l d' \<and> l \<noteq> Request_stop"
proof -
  have "disp_run (dispatcher_init 2) ([] @ [Request_stop]) ((dispatcher_init 2)\<lparr>stop := True\<rparr>)"
    by (intro run_snoc [OF run_nil] destructor_stop)
  from dispatcher_shutdown [OF this] show ?thesis
    by (auto simp: dispatcher_init_def drained_def worker_count_def)
qed

text \<open>
  The predecessor-ack worker sends the queued acks in order, each once, and with a
  running worker as many turns as there are acks empty the queue.
\<close>

lemma predecessor_acks_in_order:
  assumes "pred_ack_worker_running s" "length (pred_ack_queue s) \<le> n"
  shows "concat (map turn_taken (fst (ack_worker_turns n s))) = pred_ack_queue s \<and>
    pred_ack_queue (snd (ack_worker_turns n s)) = []"
  using ack_worker_turns_fifo [of n s] ack_worker_turns_drain [OF assms] by simp

text \<open>
  A client ack goes out once, to the address the request names, and none is sent without
  an address; afterwards the stub is cached exactly when the call succeeded, so a failed
  client is connected to afresh next time.
\<close>

lemma client_ack_sent_and_cached:
  assumes "wf_client_cache s"
  shows "snd (send_client_ack rpc req s)
      = (if ack_client_addr req = [] then [] else [(ack_client_addr req, req)]) \<and>
    wf_client_cache (fst (send_client_ack rpc req s)) \<and>
    (ack_client_addr req \<noteq> [] \<longrightarrow>
       client_stubs (fst (send_client_ack rpc req s)) (ack_client_addr req)
         = (if Status_ok (ack_call rpc (ack_client_addr req) req) then Some (ack_client_addr req) else None))"
  using send_client_ack_calls [OF assms] send_client_ack_wf [OF assms] send_client_ack_cached [OF assms]
  by blast

subsection \<open>Keys, tokens and roles\<close>



text \<open>
  The hash the client routes with and the hash the servers use are the same function, and
  it is FNV-1a: the published test vectors hold.
\<close>

lemma hash_copies_agree:
  "hash_key key = fnv1a64 key \<and> fnv1a64 '''' = 0xcbf29ce484222325 \<and>
    fnv1a64 ''a'' = 0xaf63dc4c8601ec8c \<and> fnv1a64 ''foobar'' = 0x85944171f73967e8"
  by (intro conjI hash_key_eq) code_simp+

text \<open>Keys that differ in one byte always get different tokens.\<close>

lemma changed_byte_changes_token:
  "fnv1a64 (p @ c # s) = fnv1a64 (p @ d # s) \<longleftrightarrow> c = d"
  by (rule fnv1a64_one_byte)

text \<open>
  A token printed in decimal parses back to itself, and the interval test on the ring is
  the comparison of clockwise distances modulo \<open>2 ^ 64\<close>.
\<close>

lemma tokens_on_the_ring:
  "parse_token (to_string_nat (unat t)) = Some t \<and> (token_in_range t s e \<longleftrightarrow> t - s \<le> e - s)"
  using parse_token_to_string [OF unat_lt_2_64, of t] by (simp add: token_in_range_distance)

subsection \<open>Command line of the server\<close>

text \<open>
  Server flags are read left to right and a later one overrides an earlier one: reading
  the arguments \<open>xs @ ys\<close> is reading \<open>ys\<close> with the settings \<open>xs\<close> gave as defaults.
\<close>

lemma server_flags_compose:
  assumes "server_args h p log xs = Serve h' p' log'"
  shows "server_args h p log (xs @ ys) = server_args h' p' log' ys"
  by (rule server_args_append [OF assms])

end
