(* ===== verification/Client_Json.thy ===== *)
theory Client_Json
  imports Messages
begin

section \<open>The configuration file as the clients read it\<close>

text \<open>
  Both clients read a JSON file through nlohmann::json, which is not part of the repository.
  The document is given by what its accessors return: \<open>at(..).get<T>()\<close> and
  \<open>value(.., false)\<close> a value, or the text of the exception they throw (\<open>Inl\<close>); a link
  (\<open>predecessor\<close>, \<open>successor\<close>) also whether the field is absent or null, because the code
  tests for both. \<open>operator[]\<close> on a constant object without the field is undefined behaviour
  in that library: \<open>Undefined\<close>.
\<close>

datatype json_link =
    Link_absent
  | Link_null
  | Link_text string
  | Link_other string

record json_node =
  jn_id :: "string + int"
  jn_host :: "string + string"
  jn_port :: "string + int"
  jn_is_head :: "string + bool"
  jn_is_tail :: "string + bool"
  jn_predecessor :: json_link
  jn_successor :: json_link

datatype json_nodes = Not_array | Node_array "json_node list"

record json_config =
  jc_mode :: "string + string"
  jc_nodes :: "json_nodes option"

datatype fault = Exn string | Undefined

type_synonym 'a fallible = "fault + 'a"

definition bind :: "'a fallible \<Rightarrow> ('a \<Rightarrow> 'b fallible) \<Rightarrow> 'b fallible" where
  "bind x f = (case x of Inl e \<Rightarrow> Inl e | Inr v \<Rightarrow> f v)"

lemma bind_simps [simp]: "bind (Inl e) f = Inl e" "bind (Inr v) f = f v"
  by (simp_all add: bind_def)

lemma bind_Inr: "bind x f = Inr y \<longleftrightarrow> (\<exists>v. x = Inr v \<and> f v = Inr y)"
  by (cases x) simp_all

definition get :: "string + 'a \<Rightarrow> 'a fallible" where
  "get x = (case x of Inl e \<Rightarrow> Inl (Exn e) | Inr v \<Rightarrow> Inr v)"

lemma get_simps [simp]: "get (Inl e) = Inl (Exn e)" "get (Inr v) = Inr v"
  by (simp_all add: get_def)

lemma get_Inr: "get x = Inr v \<longleftrightarrow> x = Inr v"
  by (cases x) simp_all

definition of_cxx :: "cxx_exn + 'a \<Rightarrow> 'a fallible" where
  "of_cxx x = (case x of Inl e \<Rightarrow> Inl (Exn (what e)) | Inr v \<Rightarrow> Inr v)"

lemma of_cxx_simps [simp]: "of_cxx (Inl e) = Inl (Exn (what e))" "of_cxx (Inr v) = Inr v"
  by (simp_all add: of_cxx_def)

text \<open>\<open>n.at("predecessor").get<string>()\<close>.\<close>

fun link_text :: "string \<Rightarrow> json_link \<Rightarrow> string fallible" where
  "link_text name (Link_text s) = Inr s"
| "link_text name (Link_other e) = Inl (Exn e)"
| "link_text name Link_null = Inl (Exn ''[json.exception.type_error.302] type must be string, but is null'')"
| "link_text name Link_absent =
     Inl (Exn (''[json.exception.out_of_range.403] key '' @ [CHR 0x27] @ name @ [CHR 0x27] @ '' not found''))"

text \<open>\<open>n["predecessor"].is_null()\<close> on a constant object.\<close>

fun link_is_null :: "json_link \<Rightarrow> bool fallible" where
  "link_is_null Link_absent = Inl Undefined"
| "link_is_null Link_null = Inr True"
| "link_is_null _ = Inr False"

subsection \<open>Addresses in text\<close>

definition rfind :: "char \<Rightarrow> string \<Rightarrow> nat option" where
  "rfind c s =
     (if c \<in> set s then Some (length s - Suc (length (takeWhile (\<lambda>x. x \<noteq> c) (rev s)))) else None)"

definition parse_addr :: "string \<Rightarrow> cxx_exn + pb_NodeAddress" where
  "parse_addr s =
     (case rfind CHR '':'' s of
        None \<Rightarrow> Inl (Invalid_argument (''Expected host:port, got: '' @ s))
      | Some colon \<Rightarrow>
          (case stoi (drop (colon + 1) s) of
             Inl e \<Rightarrow> Inl e
           | Inr p \<Rightarrow> Inr \<lparr>pb_host = take colon s, pb_port = p\<rparr>))"

lemma rfind_append:
  assumes "c \<notin> set t"
  shows "rfind c (s @ c # t) = Some (length s)"
proof -
  have "takeWhile (\<lambda>x. x \<noteq> c) (rev t @ c # rev s) = rev t"
    using assms by (subst takeWhile_append2) auto
  then show ?thesis by (simp add: rfind_def)
qed

lemma colon_not_in_to_string: "CHR '':'' \<notin> set (to_string_int i)"
proof -
  have "\<not> is_digit 10 (CHR '':'')" by (simp add: is_digit_def digit_value_def Let_def)
  then have "CHR '':'' \<notin> set (to_string_nat n)" for n using to_string_nat_digits by blast
  then show ?thesis by (simp add: to_string_int_def)
qed

text \<open>Printing an address and parsing it back gives the address, also for a host with colons.\<close>

lemma parse_addr_print:
  "fits_int p \<Longrightarrow> parse_addr (h @ CHR '':'' # to_string_int p) = Inr \<lparr>pb_host = h, pb_port = p\<rparr>"
  by (simp add: parse_addr_def rfind_append [OF colon_not_in_to_string] stoi_to_string)

end
