(* ===== verification/Client_Config.thy ===== *)
theory Client_Config
  imports Client_Json
begin

section \<open>Configuration and topology in the client (src/src/client/client.cpp)\<close>

text \<open>
  From the JSON document to the \<open>NodeConfig\<close> messages the client sends, to the topology it
  routes with, and the validation in between. A function that returns false with an error
  text has a value of type \<open>string option\<close> (\<open>None\<close> is true); exceptions that escape it, and
  the undefined access of a missing field, are the left summand of \<open>fallible\<close>. A pointer into
  \<open>topo.nodes\<close> is the index of the node.
\<close>

definition client_parse_mode :: "string \<Rightarrow> cxx_exn + pb_ReplicationMode" where
  "client_parse_mode s =
     (if s = ''chain'' then Inr PB_CHAIN else if s = ''craq'' then Inr PB_CRAQ
      else if s = ''crown'' then Inr PB_CROWN
      else Inl (Invalid_argument (''Unknown mode in config: '' @ s)))"

definition client_mode_name :: "pb_ReplicationMode \<Rightarrow> string" where
  "client_mode_name m =
     (case m of PB_CHAIN \<Rightarrow> ''chain'' | PB_CRAQ \<Rightarrow> ''craq'' | PB_CROWN \<Rightarrow> ''crown''
      | PB_unknown _ \<Rightarrow> ''unknown'')"

text \<open>\<open>host + ":" + to_string(port)\<close>, the target of a channel.\<close>

definition endpoint_text :: "string \<Rightarrow> int \<Rightarrow> stub" where
  "endpoint_text h p = h @ '':'' @ to_string_int p"

definition link_addr :: "string \<Rightarrow> json_link \<Rightarrow> pb_NodeAddress option fallible" where
  "link_addr name l =
     bind (link_is_null l) (\<lambda>null.
       if null then Inr None
       else bind (link_text name l) (\<lambda>s. bind (of_cxx (parse_addr s)) (\<lambda>a. Inr (Some a))))"

definition build_node_config ::
    "json_node \<Rightarrow> pb_ReplicationMode \<Rightarrow> int \<Rightarrow> string \<Rightarrow> pb_NodeConfig fallible" where
  "build_node_config node_json m crown_count craq_tail =
     bind (get (jn_id node_json)) (\<lambda>i.
     bind (get (jn_is_head node_json)) (\<lambda>head_flag.
     bind (get (jn_is_tail node_json)) (\<lambda>tail_flag.
     bind (if m = PB_CRAQ \<and> craq_tail \<noteq> [] then map_sum id Some (of_cxx (parse_addr craq_tail))
           else Inr None) (\<lambda>tail_address.
     bind (get (jn_host node_json)) (\<lambda>h.
     bind (get (jn_port node_json)) (\<lambda>p.
     bind (link_addr ''predecessor'' (jn_predecessor node_json)) (\<lambda>pred.
     bind (link_addr ''successor'' (jn_successor node_json)) (\<lambda>succ.
       Inr \<lparr>pb_node_id = i, pb_self_addr = \<lparr>pb_host = h, pb_port = p\<rparr>, pb_mode = m,
            pb_is_head = head_flag, pb_is_tail = tail_flag,
            pb_predecessor = pred, pb_successor = succ, pb_tail = tail_address,
            pb_head_ranges =
              (if m = PB_CROWN then replicate (nat crown_count) \<lparr>start_key = [], end_key = []\<rparr> else []),
            pb_tail_ranges = []\<rparr>))))))))"

subsection \<open>Validation\<close>

definition check_link :: "string \<Rightarrow> json_link \<Rightarrow> unit fallible" where
  "check_link name l =
     (if l = Link_absent \<or> l = Link_null then Inr ()
      else bind (link_text name l) (\<lambda>s. bind (of_cxx (parse_addr s)) (\<lambda>_. Inr ())))"

definition check_node :: "json_node \<Rightarrow> unit fallible" where
  "check_node n =
     bind (get (jn_id n)) (\<lambda>_. bind (get (jn_host n)) (\<lambda>_. bind (get (jn_port n)) (\<lambda>_.
       bind (check_link ''predecessor'' (jn_predecessor n)) (\<lambda>_.
         check_link ''successor'' (jn_successor n)))))"

fun fault_text :: "fault \<Rightarrow> string" where
  "fault_text (Exn e) = e"
| "fault_text Undefined = []"

fun check_nodes_from :: "nat \<Rightarrow> json_node list \<Rightarrow> string option" where
  "check_nodes_from i [] = None"
| "check_nodes_from i (n # ns) =
     (case check_node n of
        Inl e \<Rightarrow> Some (''invalid node at index '' @ to_string_nat i @ '': '' @ fault_text e)
      | Inr _ \<Rightarrow> check_nodes_from (Suc i) ns)"

definition validate_minimal_config :: "json_nodes \<Rightarrow> string option" where
  "validate_minimal_config nodes =
     (case nodes of
        Node_array (n # ns) \<Rightarrow> check_nodes_from 0 (n # ns)
      | _ \<Rightarrow> Some (CHR 0x27 # ''nodes'' @ CHR 0x27 # '' must be a non-empty array''))"

record CrownNodeView =
  cv_id :: int
  cv_endpoint :: string
  cv_predecessor :: string
  cv_successor :: string

text \<open>The loop that collects the views: \<open>Inr (Inl e)\<close> is \<open>return false\<close> with error \<open>e\<close>.\<close>

fun crown_views ::
    "CrownNodeView list \<Rightarrow> (string \<rightharpoonup> nat) \<Rightarrow> (int \<rightharpoonup> nat) \<Rightarrow> json_node list \<Rightarrow>
     (string + (CrownNodeView list \<times> (string \<rightharpoonup> nat) \<times> (int \<rightharpoonup> nat))) fallible" where
  "crown_views parsed by_endpoint by_id [] = Inr (Inr (parsed, by_endpoint, by_id))"
| "crown_views parsed by_endpoint by_id (n # ns) =
     bind (get (jn_id n)) (\<lambda>i. bind (get (jn_host n)) (\<lambda>h. bind (get (jn_port n)) (\<lambda>p.
     let endpoint = endpoint_text h p in
     if by_endpoint endpoint \<noteq> None
     then Inr (Inl (''duplicate endpoint in CROWN config: '' @ endpoint))
     else if by_id i \<noteq> None
     then Inr (Inl (''duplicate CROWN node id: '' @ to_string_int i))
     else bind (link_is_null (jn_predecessor n)) (\<lambda>no_pred.
          bind (if no_pred then Inr True else link_is_null (jn_successor n)) (\<lambda>no_link.
          if no_link
          then Inr (Inl (''CROWN node '' @ endpoint @ '' must have both predecessor and successor''))
          else bind (link_text ''predecessor'' (jn_predecessor n)) (\<lambda>pred.
               bind (link_text ''successor'' (jn_successor n)) (\<lambda>succ.
               crown_views
                 (parsed @ [\<lparr>cv_id = i, cv_endpoint = endpoint, cv_predecessor = pred, cv_successor = succ\<rparr>])
                 (by_endpoint(endpoint \<mapsto> length parsed)) (by_id(i \<mapsto> length parsed)) ns)))))))"

fun check_links ::
    "CrownNodeView list \<Rightarrow> (string \<rightharpoonup> nat) \<Rightarrow> CrownNodeView list \<Rightarrow> string option" where
  "check_links parsed by_endpoint [] = None"
| "check_links parsed by_endpoint (n # ns) =
     (case by_endpoint (cv_predecessor n) of
        None \<Rightarrow> Some (''predecessor '' @ cv_predecessor n @ '' not found'')
      | Some ip \<Rightarrow>
     (case by_endpoint (cv_successor n) of
        None \<Rightarrow> Some (''successor '' @ cv_successor n @ '' not found'')
      | Some is \<Rightarrow>
          if cv_successor (parsed ! ip) \<noteq> cv_endpoint n \<or> cv_predecessor (parsed ! is) \<noteq> cv_endpoint n
          then Some (''ring inconsistency at '' @ cv_endpoint n)
          else check_links parsed by_endpoint ns))"

text \<open>The walk along the successors: the number of steps left, the visited endpoints, the current one.\<close>

fun ring_walk ::
    "CrownNodeView list \<Rightarrow> (string \<rightharpoonup> nat) \<Rightarrow> nat \<Rightarrow> string set \<Rightarrow> string \<Rightarrow> string option" where
  "ring_walk parsed by_endpoint 0 visited current =
     (if current \<noteq> cv_endpoint (parsed ! 0) \<or> card visited \<noteq> length parsed
      then Some ''ring does not close or is disconnected'' else None)"
| "ring_walk parsed by_endpoint (Suc steps) visited current =
     (if current \<in> visited then Some ''ring cycle before covering all nodes''
      else ring_walk parsed by_endpoint steps (insert current visited)
             (cv_successor (parsed ! the (by_endpoint current))))"

definition ids_contiguous :: "nat \<Rightarrow> (int \<rightharpoonup> nat) \<Rightarrow> bool" where
  "ids_contiguous n by_id = list_all (\<lambda>expected. by_id (int expected) \<noteq> None) [0..<n]"

definition validate_crown_topology :: "json_node list \<Rightarrow> string option fallible" where
  "validate_crown_topology nodes =
     bind (crown_views [] Map.empty Map.empty nodes) (\<lambda>views.
       case views of
         Inl e \<Rightarrow> Inr (Some e)
       | Inr (parsed, by_endpoint, by_id) \<Rightarrow>
           if \<not> ids_contiguous (length parsed) by_id
           then Inr (Some (''CROWN node ids must be contiguous in [0, '' @ to_string_nat (length parsed - 1) @ '']''))
           else case check_links parsed by_endpoint parsed of
                  Some e \<Rightarrow> Inr (Some e)
                | None \<Rightarrow> Inr (ring_walk parsed by_endpoint (length parsed) {} (cv_endpoint (parsed ! 0))))"

definition validate_config_before_configure ::
    "json_config \<Rightarrow> pb_ReplicationMode \<Rightarrow> string option fallible" where
  "validate_config_before_configure cfg m =
     (case jc_nodes cfg of
        None \<Rightarrow> Inr (Some (''missing '' @ CHR 0x27 # ''nodes'' @ [CHR 0x27]))
      | Some nodes \<Rightarrow>
          (case validate_minimal_config nodes of
             Some e \<Rightarrow> Inr (Some e)
           | None \<Rightarrow> (case nodes of
                        Node_array ns \<Rightarrow> if m = PB_CROWN then validate_crown_topology ns else Inr None
                      | Not_array \<Rightarrow> Inr None)))"

subsection \<open>Topology\<close>

record NodeStub =
  ns_id :: int
  ns_endpoint :: stub

record Topology =
  topo_mode :: pb_ReplicationMode
  topo_head :: "nat option"
  topo_tail :: "nat option"
  topo_nodes :: "NodeStub list"
  crown_nodes_by_index :: "nat option list"

definition crown_head_slot :: "Topology \<Rightarrow> string \<Rightarrow> nat" where
  "crown_head_slot topo key = unat (hash_key key) mod length (crown_nodes_by_index topo)"

definition crown_head_for :: "Topology \<Rightarrow> string \<Rightarrow> nat option" where
  "crown_head_for topo key =
     (if crown_nodes_by_index topo = [] then None
      else crown_nodes_by_index topo ! crown_head_slot topo key)"

definition crown_tail_for :: "Topology \<Rightarrow> string \<Rightarrow> nat option" where
  "crown_tail_for topo key =
     (if crown_nodes_by_index topo = [] then None
      else let n = length (crown_nodes_by_index topo);
               tail_index = (crown_head_slot topo key + n - 1) mod n
           in crown_nodes_by_index topo ! tail_index)"

fun topology_nodes :: "json_node list \<Rightarrow> NodeStub list fallible" where
  "topology_nodes [] = Inr []"
| "topology_nodes (n # ns) =
     bind (get (jn_id n)) (\<lambda>i. bind (get (jn_host n)) (\<lambda>h. bind (get (jn_port n)) (\<lambda>p.
     bind (topology_nodes ns) (\<lambda>rest. Inr (\<lparr>ns_id = i, ns_endpoint = endpoint_text h p\<rparr> # rest)))))"

text \<open>The last node with the flag wins.\<close>

fun topology_roles ::
    "nat \<Rightarrow> nat option \<Rightarrow> nat option \<Rightarrow> json_node list \<Rightarrow> (nat option \<times> nat option) fallible" where
  "topology_roles i head_ptr tail_ptr [] = Inr (head_ptr, tail_ptr)"
| "topology_roles i head_ptr tail_ptr (n # ns) =
     bind (get (jn_is_head n)) (\<lambda>head_flag. bind (get (jn_is_tail n)) (\<lambda>tail_flag.
       topology_roles (Suc i) (if head_flag then Some i else head_ptr)
         (if tail_flag then Some i else tail_ptr) ns))"

fun topology_index :: "nat \<Rightarrow> nat option list \<Rightarrow> json_node list \<Rightarrow> nat option list fallible" where
  "topology_index i by_index [] = Inr by_index"
| "topology_index i by_index (n # ns) =
     bind (get (jn_id n)) (\<lambda>nid.
       if nid < 0 \<or> nid \<ge> int (length by_index)
       then Inl (Exn ''CROWN node id out of range while building topology'')
       else if by_index ! nat nid \<noteq> None
       then Inl (Exn ''duplicate CROWN node id while building topology'')
       else topology_index (Suc i) (by_index[nat nid := Some i]) ns)"

definition build_topology :: "json_node list \<Rightarrow> pb_ReplicationMode \<Rightarrow> Topology fallible" where
  "build_topology jnodes m =
     bind (topology_nodes jnodes) (\<lambda>nodes.
     bind (topology_roles 0 None None jnodes) (\<lambda>(head_ptr, tail_ptr).
     bind (if m = PB_CROWN then topology_index 0 (replicate (length jnodes) None) jnodes else Inr [])
       (\<lambda>by_index.
         Inr \<lparr>topo_mode = m, topo_head = head_ptr, topo_tail = tail_ptr, topo_nodes = nodes,
              crown_nodes_by_index = by_index\<rparr>)))"

text \<open>The first node with the id.\<close>

fun find_node :: "int \<Rightarrow> nat \<Rightarrow> NodeStub list \<Rightarrow> nat option" where
  "find_node nid i [] = None"
| "find_node nid i (n # ns) = (if ns_id n = nid then Some i else find_node nid (Suc i) ns)"

text \<open>\<open>random_index\<close> is what the uniform distribution on \<open>0 .. nodes.size() - 1\<close> returned.\<close>

definition resolve_read_target :: "nat \<Rightarrow> Topology \<Rightarrow> string \<Rightarrow> int \<Rightarrow> nat option" where
  "resolve_read_target random_index topo key wanted =
     (if topo_mode topo = PB_CROWN then crown_tail_for topo key
      else if topo_mode topo = PB_CRAQ
      then (if wanted \<noteq> -1 then find_node wanted 0 (topo_nodes topo)
            else if topo_nodes topo = [] then None else Some random_index)
      else topo_tail topo)"

definition resolve_write_target :: "Topology \<Rightarrow> string \<Rightarrow> nat option" where
  "resolve_write_target topo key =
     (if topo_mode topo = PB_CROWN then crown_head_for topo key else topo_head topo)"

subsection \<open>Start of the client: validate, configure, build the topology\<close>

datatype client_start =
    Terminated fault
  | Failed string
  | Not_configured nat
  | Ready Topology "(stub \<times> pb_NodeConfig) list"

fun craq_tail_endpoint :: "json_node list \<Rightarrow> string fallible" where
  "craq_tail_endpoint [] = Inr []"
| "craq_tail_endpoint (n # ns) =
     bind (get (jn_is_tail n)) (\<lambda>tail_flag.
       if tail_flag
       then bind (get (jn_host n)) (\<lambda>h. bind (get (jn_port n)) (\<lambda>p. Inr (endpoint_text h p)))
       else craq_tail_endpoint ns)"

fun configure_calls ::
    "pb_ReplicationMode \<Rightarrow> int \<Rightarrow> json_node list \<Rightarrow> (stub \<times> pb_NodeConfig) list fallible" where
  "configure_calls m crown_count [] = Inr []"
| "configure_calls m crown_count (n # ns) =
     bind (get (jn_host n)) (\<lambda>h. bind (get (jn_port n)) (\<lambda>p.
     bind (build_node_config n m crown_count []) (\<lambda>cfg.
     bind (configure_calls m crown_count ns) (\<lambda>rest. Inr ((endpoint_text h p, cfg) # rest)))))"

definition or_terminate :: "'a fallible \<Rightarrow> ('a \<Rightarrow> client_start) \<Rightarrow> client_start" where
  "or_terminate x f = (case x of Inl e \<Rightarrow> Terminated e | Inr v \<Rightarrow> f v)"

lemma or_terminate_simps [simp]: "or_terminate (Inl e) f = Terminated e" "or_terminate (Inr v) f = f v"
  by (simp_all add: or_terminate_def)

text \<open>The part of \<open>main\<close> that looks for the tail address: present only in CRAQ mode.\<close>

definition craq_tail_missing :: "pb_ReplicationMode \<Rightarrow> json_node list \<Rightarrow> bool fallible" where
  "craq_tail_missing m jnodes =
     (if m = PB_CRAQ then bind (craq_tail_endpoint jnodes) (\<lambda>craq_tail. Inr (craq_tail = []))
      else Inr False)"

text \<open>
  The part of \<open>main\<close> between reading the file and the run mode. \<open>configure_rpc\<close> gives the
  status of each Configure call; all calls are made before the failures are counted. The calls
  are part of the outcome \<open>Ready\<close> only: those sent before an exception ends the process are not
  recorded. The tail address found for CRAQ is not passed to \<open>build_node_config\<close>.
\<close>

definition client_prepare ::
    "(stub \<Rightarrow> pb_NodeConfig \<Rightarrow> Status) \<Rightarrow> bool \<Rightarrow> json_config \<Rightarrow> client_start" where
  "client_prepare configure_rpc should_configure cfg =
     or_terminate (get (jc_mode cfg)) (\<lambda>mode_text.
     or_terminate (of_cxx (client_parse_mode mode_text)) (\<lambda>m.
     or_terminate (if m = PB_CROWN \<and> jc_nodes cfg = None
                   then Inl (Exn (''[json.exception.out_of_range.403] key '' @ CHR 0x27 # ''nodes'' @ CHR 0x27 # '' not found''))
                   else Inr ()) (\<lambda>_.
     let jnodes = (case jc_nodes cfg of Some (Node_array ns) \<Rightarrow> ns | _ \<Rightarrow> []);
         crown_count = (if m = PB_CROWN then int (length jnodes) else 0)
     in or_terminate (validate_config_before_configure cfg m) (\<lambda>verdict.
        case verdict of
          Some e \<Rightarrow> Failed (''Config validation failed: '' @ e)
        | None \<Rightarrow>
     or_terminate (craq_tail_missing m jnodes) (\<lambda>missing.
     if missing
     then Failed ''CRAQ config must include a tail node with is_tail=true''
     else or_terminate (if should_configure then configure_calls m crown_count jnodes else Inr []) (\<lambda>calls.
     let failures = length (filter (\<lambda>(target, c). \<not> Status_ok (configure_rpc target c)) calls)
     in if failures > 0
        then Not_configured failures
        else or_terminate (build_topology jnodes m) (\<lambda>topo. Ready topo calls)))))))"

end
