(* ===== verification/Client_Requests.thy ===== *)
theory Client_Requests
  imports Client_Config
begin

section \<open>Writes the client waits for (src/src/client/client.cpp)\<close>

text \<open>
  The request bookkeeping of the client: the map of the writes that were issued and not yet
  acknowledged, the counter of request ids, and the metrics object of a benchmark run, which
  the notes \<open>benchmark_note_*\<close> change only while one is attached and enabled. The main thread
  issues writes, the listener's threads handle the acks of the tails; each locked body or
  atomic operation is one step, and the clock is an argument (\<open>now\<close>, in nanoseconds).
  \<open>ack_pending\<close> erases the request in one step and counts the ack in a later one: \<open>ack_threads\<close>
  are the requests whose thread stands between the two. The note of an ack is one step too: the
  code adds to \<open>acks_received\<close> and then, under the lock of the issue times, to the latency samples,
  so a reader between the two sees one sample less than acks.

  Lemmas: whatever the order of issues, acks (also repeated and unknown ones) and failed
  calls, the counters are exact (\<open>books\<close>), and every request that was issued is, by its id, pending,
  or acknowledged and not yet counted, or counted once, unless its own call failed (\<open>ledger\<close>).
\<close>

record PendingWrite =
  pw_request_id :: u64
  pw_key :: string
  pw_value :: string

record ThroughputMetricsState =
  enabled :: bool
  window_start :: int
  writes_sent :: u64
  acks_received :: u64
  reads_sent :: u64
  reads_ok :: u64
  read_failures :: u64
  write_rpc_failures :: u64
  ack_latency_samples :: u64
  ack_latency_total_us :: u64
  pending_write_times :: "u64 \<rightharpoonup> int"

definition ThroughputMetricsState_init :: "int \<Rightarrow> ThroughputMetricsState" where
  "ThroughputMetricsState_init now =
     \<lparr>enabled = False, window_start = now, writes_sent = 0, acks_received = 0, reads_sent = 0,
      reads_ok = 0, read_failures = 0, write_rpc_failures = 0, ack_latency_samples = 0,
      ack_latency_total_us = 0, pending_write_times = Map.empty\<rparr>"

record Client =
  next_request_id :: u64
  pending_writes :: "u64 \<rightharpoonup> PendingWrite"
  metrics :: "ThroughputMetricsState option"
  ack_threads :: "u64 list"

definition Client_init :: Client where
  "Client_init = \<lparr>next_request_id = 1, pending_writes = Map.empty, metrics = None, ack_threads = []\<rparr>"

subsection \<open>The metrics window\<close>

definition benchmark_attach_metrics_state :: "ThroughputMetricsState \<Rightarrow> Client \<Rightarrow> Client" where
  "benchmark_attach_metrics_state st c = c\<lparr>metrics := Some st\<rparr>"

definition benchmark_detach_metrics_state :: "Client \<Rightarrow> Client" where
  "benchmark_detach_metrics_state c = c\<lparr>metrics := None\<rparr>"

definition benchmark_start_metrics_window :: "int \<Rightarrow> ThroughputMetricsState \<Rightarrow> ThroughputMetricsState" where
  "benchmark_start_metrics_window start_time st =
     st\<lparr>window_start := start_time, writes_sent := 0, acks_received := 0, reads_sent := 0,
        reads_ok := 0, read_failures := 0, write_rpc_failures := 0, ack_latency_samples := 0,
        ack_latency_total_us := 0, pending_write_times := Map.empty, enabled := True\<rparr>"

definition benchmark_stop_metrics_window :: "ThroughputMetricsState \<Rightarrow> ThroughputMetricsState" where
  "benchmark_stop_metrics_window st = st\<lparr>enabled := False\<rparr>"

text \<open>\<open>if (!state || !state->enabled) return;\<close>\<close>

definition with_metrics :: "(ThroughputMetricsState \<Rightarrow> ThroughputMetricsState) \<Rightarrow> Client \<Rightarrow> Client" where
  "with_metrics f c =
     (case metrics c of
        None \<Rightarrow> c
      | Some st \<Rightarrow> if enabled st then c\<lparr>metrics := Some (f st)\<rparr> else c)"

definition benchmark_note_write_issued :: "u64 \<Rightarrow> int \<Rightarrow> Client \<Rightarrow> Client" where
  "benchmark_note_write_issued request_id now =
     with_metrics (\<lambda>st. st\<lparr>writes_sent := writes_sent st + 1,
       pending_write_times := (pending_write_times st)(request_id \<mapsto> now)\<rparr>)"

definition benchmark_note_write_ack :: "u64 \<Rightarrow> int \<Rightarrow> Client \<Rightarrow> Client" where
  "benchmark_note_write_ack request_id now =
     with_metrics (\<lambda>st.
       let st = st\<lparr>acks_received := acks_received st + 1\<rparr>
       in case pending_write_times st request_id of
            None \<Rightarrow> st
          | Some issued_at \<Rightarrow>
              let latency_us = (now - issued_at) div 1000
              in st\<lparr>pending_write_times := (pending_write_times st)(request_id := None),
                    ack_latency_total_us := ack_latency_total_us st + word_of_int (max 0 latency_us),
                    ack_latency_samples := ack_latency_samples st + 1\<rparr>)"

definition benchmark_note_write_rpc_failure :: "Client \<Rightarrow> Client" where
  "benchmark_note_write_rpc_failure =
     with_metrics (\<lambda>st. st\<lparr>write_rpc_failures := write_rpc_failures st + 1\<rparr>)"

definition benchmark_note_read_sent :: "Client \<Rightarrow> Client" where
  "benchmark_note_read_sent = with_metrics (\<lambda>st. st\<lparr>reads_sent := reads_sent st + 1\<rparr>)"

definition benchmark_note_read_success :: "Client \<Rightarrow> Client" where
  "benchmark_note_read_success = with_metrics (\<lambda>st. st\<lparr>reads_ok := reads_ok st + 1\<rparr>)"

definition benchmark_note_read_failure :: "Client \<Rightarrow> Client" where
  "benchmark_note_read_failure = with_metrics (\<lambda>st. st\<lparr>read_failures := read_failures st + 1\<rparr>)"

subsection \<open>The pending map\<close>

definition pending_write_count :: "Client \<Rightarrow> nat" where
  "pending_write_count c = card (dom (pending_writes c))"

definition remove_pending_request :: "u64 \<Rightarrow> Client \<Rightarrow> bool \<times> Client" where
  "remove_pending_request request_id c =
     (pending_writes c request_id \<noteq> None, c\<lparr>pending_writes := (pending_writes c)(request_id := None)\<rparr>)"

definition add_pending :: "string \<Rightarrow> string \<Rightarrow> Client \<Rightarrow> u64 \<times> Client" where
  "add_pending key value c =
     (let i = next_request_id c
      in (i, c\<lparr>next_request_id := i + 1,
              pending_writes := (pending_writes c)
                (i \<mapsto> \<lparr>pw_request_id = i, pw_key = key, pw_value = value\<rparr>)\<rparr>))"

text \<open>The two steps of \<open>ack_pending\<close>, and the whole body when no other thread gets in between.\<close>

definition ack_take :: "u64 \<Rightarrow> Client \<Rightarrow> Client" where
  "ack_take request_id c =
     (let (found, c) = remove_pending_request request_id c
      in if found then c\<lparr>ack_threads := ack_threads c @ [request_id]\<rparr> else c)"

definition ack_note :: "u64 \<Rightarrow> int \<Rightarrow> Client \<Rightarrow> Client" where
  "ack_note request_id now c =
     benchmark_note_write_ack request_id now (c\<lparr>ack_threads := remove1 request_id (ack_threads c)\<rparr>)"

definition ack_pending :: "u64 \<Rightarrow> int \<Rightarrow> Client \<Rightarrow> Client" where
  "ack_pending request_id now c =
     (let (found, c) = remove_pending_request request_id c
      in if found then benchmark_note_write_ack request_id now c else c)"

text \<open>The service the tails call; the other RPCs of the interface are refused.\<close>

datatype client_rpc =
    Client_Ack AckRequest
  | Client_Configure pb_NodeConfig
  | Client_Write WriteRequest
  | Client_Read ReadRequest
  | Client_Propagate PropagateRequest
  | Client_VersionQuery VersionQueryRequest

fun ClientAckServiceImpl :: "client_rpc \<Rightarrow> int \<Rightarrow> Client \<Rightarrow> Status \<times> Client" where
  "ClientAckServiceImpl (Client_Ack req) now c = (Status_OK, ack_pending (ack_request_id req) now c)"
| "ClientAckServiceImpl _ now c = (\<lparr>code = UNIMPLEMENTED, error_message = []\<rparr>, c)"

subsection \<open>One write, one read\<close>

text \<open>
  \<open>do_write\<close> up to the Write call: the index of the target in \<open>topo.nodes\<close> and the request,
  or nothing when there is no head. While the call is out the listener may handle acks, so
  the rest is a step of its own.
\<close>

definition write_request :: "string \<Rightarrow> string \<Rightarrow> string \<Rightarrow> u64 \<Rightarrow> WriteRequest" where
  "write_request key value client_addr request_id =
     \<lparr>wreq_key = key, wreq_value = value, wreq_version = 0, wreq_client_addr = client_addr,
      wreq_request_id = request_id\<rparr>"

definition issue_write :: "string \<Rightarrow> string \<Rightarrow> int \<Rightarrow> Client \<Rightarrow> u64 \<times> Client" where
  "issue_write key value now c =
     (let (request_id, c) = add_pending key value c
      in (request_id, benchmark_note_write_issued request_id now c))"

definition do_write_begin ::
    "Topology \<Rightarrow> string \<Rightarrow> string \<Rightarrow> string \<Rightarrow> int \<Rightarrow> Client \<Rightarrow> (nat \<times> WriteRequest) option \<times> Client" where
  "do_write_begin topo key value client_addr now c =
     (case resolve_write_target topo key of
        None \<Rightarrow> (None, c)
      | Some target_head \<Rightarrow>
          (let (request_id, c) = issue_write key value now c
           in (Some (target_head, write_request key value client_addr request_id), c)))"

definition write_failed :: "u64 \<Rightarrow> Client \<Rightarrow> Client" where
  "write_failed request_id c = snd (remove_pending_request request_id (benchmark_note_write_rpc_failure c))"

definition do_write_end :: "u64 \<Rightarrow> Status \<times> WriteResponse \<Rightarrow> Client \<Rightarrow> bool \<times> Client" where
  "do_write_end request_id reply c =
     (let (status, resp) = reply
      in if \<not> Status_ok status \<or> \<not> wresp_success resp then (False, write_failed request_id c)
         else (True, c))"

definition do_read ::
    "(stub \<Rightarrow> ReadRequest \<Rightarrow> Status \<times> ReadResponse) \<Rightarrow> nat \<Rightarrow> Topology \<Rightarrow> string \<Rightarrow> int \<Rightarrow> Client \<Rightarrow>
     (stub \<times> ReadResponse) option \<times> Client" where
  "do_read read_rpc random_index topo key wanted c =
     (case resolve_read_target random_index topo key wanted of
        None \<Rightarrow> (None, c)
      | Some target \<Rightarrow>
          (let c = benchmark_note_read_sent c;
               endpoint = ns_endpoint (topo_nodes topo ! target);
               (status, resp) = read_rpc endpoint \<lparr>rreq_key = key\<rparr>
           in if \<not> Status_ok status then (None, benchmark_note_read_failure c)
              else (Some (endpoint, resp), benchmark_note_read_success c)))"

subsection \<open>The results of a window\<close>

text \<open>The integer fields of the summary; the rates, which are doubles, are left out.\<close>

record ThroughputMetricsSummary =
  sum_writes_sent :: u64
  sum_acks_received :: u64
  sum_reads_sent :: u64
  sum_reads_ok :: u64
  sum_read_failures :: u64
  sum_write_rpc_failures :: u64

definition benchmark_build_summary :: "ThroughputMetricsState \<Rightarrow> ThroughputMetricsSummary" where
  "benchmark_build_summary st =
     \<lparr>sum_writes_sent = writes_sent st, sum_acks_received = acks_received st,
      sum_reads_sent = reads_sent st, sum_reads_ok = reads_ok st,
      sum_read_failures = read_failures st, sum_write_rpc_failures = write_rpc_failures st\<rparr>"

subsection \<open>Runs of issues, acks and failures\<close>

datatype client_event =
    Issue string string int
  | Ack_taken u64
  | Ack_noted u64 int
  | Call_fails u64

fun client_exec :: "client_event \<Rightarrow> Client \<Rightarrow> Client" where
  "client_exec (Issue key value now) c = snd (issue_write key value now c)"
| "client_exec (Ack_taken request_id) c = ack_take request_id c"
| "client_exec (Ack_noted request_id now) c =
     (if request_id \<in> set (ack_threads c) then ack_note request_id now c else c)"
| "client_exec (Call_fails request_id) c = write_failed request_id c"

definition client_run :: "client_event list \<Rightarrow> Client \<Rightarrow> Client" where
  "client_run es c = fold client_exec es c"

fun is_issue :: "client_event \<Rightarrow> bool" where
  "is_issue (Issue _ _ _) = True"
| "is_issue _ = False"

fun is_failure :: "client_event \<Rightarrow> bool" where
  "is_failure (Call_fails _) = True"
| "is_failure _ = False"

definition issues :: "client_event list \<Rightarrow> nat" where
  "issues es = length (filter is_issue es)"

definition failures :: "client_event list \<Rightarrow> nat" where
  "failures es = length (filter is_failure es)"

text \<open>
  The books of a client whose window was started with id counter \<open>N\<close> and nothing pending,
  after \<open>n\<close> issues and \<open>f\<close> failed calls. \<open>unsettled\<close> are the requests whose ack was not counted.
\<close>

definition unsettled :: "Client \<Rightarrow> nat" where
  "unsettled c = card (dom (pending_writes c)) + length (ack_threads c)"

definition books_of :: "u64 \<Rightarrow> nat \<Rightarrow> nat \<Rightarrow> Client \<Rightarrow> ThroughputMetricsState \<Rightarrow> bool" where
  "books_of N n f c st \<longleftrightarrow>
     metrics c = Some st \<and> enabled st \<and> next_request_id c = N + word_of_nat n \<and>
     dom (pending_writes c) \<union> set (ack_threads c) \<subseteq> (\<lambda>k. N + word_of_nat k) ` {..<n} \<and>
     dom (pending_writes c) \<inter> set (ack_threads c) = {} \<and> distinct (ack_threads c) \<and>
     dom (pending_writes c) \<union> set (ack_threads c) \<subseteq> dom (pending_write_times st) \<and>
     unat (writes_sent st) = n \<and> unat (write_rpc_failures st) = f \<and>
     ack_latency_samples st = acks_received st \<and>
     unat (acks_received st) + unsettled c \<le> n \<and> n \<le> unat (acks_received st) + unsettled c + f"

definition books :: "u64 \<Rightarrow> nat \<Rightarrow> nat \<Rightarrow> Client \<Rightarrow> bool" where
  "books N n f c \<longleftrightarrow> (\<exists>st. books_of N n f c st)"

lemma fresh_request_id:
  assumes "n < 2 ^ 64"
  shows "(N :: u64) + word_of_nat n \<notin> (\<lambda>k. N + word_of_nat k) ` {..<n}"
proof
  assume "N + word_of_nat n \<in> (\<lambda>k. N + word_of_nat k) ` {..<n}"
  then obtain k where k: "k < n" "(word_of_nat n :: u64) = word_of_nat k" by auto
  then have "unat (word_of_nat n :: u64) = unat (word_of_nat k :: u64)" by simp
  then show False using k(1) assms by (simp add: unat_of_nat_u64)
qed

lemma card_dom_upd_None:
  assumes "finite (dom m)"
  shows "card (dom (m(i := None))) = (if i \<in> dom m then card (dom m) - 1 else card (dom m))"
  using assms by (auto simp: dom_minus)

lemma books_finite: "books_of N n f c st \<Longrightarrow> finite (dom (pending_writes c))"
  by (auto simp: books_of_def intro: finite_subset)

lemma books_issue:
  assumes "books N n f c" "n + 1 < 2 ^ 64"
  shows "books N (Suc n) f (snd (issue_write key value now c))"
proof -
  obtain st where st: "books_of N n f c st" using assms(1) by (auto simp: books_def)
  let ?i = "N + word_of_nat n"
  let ?st = "st\<lparr>writes_sent := writes_sent st + 1,
    pending_write_times := (pending_write_times st)(?i \<mapsto> now)\<rparr>"
  have new: "?i \<notin> dom (pending_writes c)" "?i \<notin> set (ack_threads c)"
    using st fresh_request_id [of n N] assms(2) by (auto simp: books_of_def)
  then have card: "card (insert ?i (dom (pending_writes c))) = Suc (card (dom (pending_writes c)))"
    using books_finite [OF st] by simp
  have sent: "unat (writes_sent st + 1) = Suc n"
    using unat_inc_u64 [of "writes_sent st"] assms(2) st by (simp add: books_of_def)
  have "books_of N (Suc n) f (snd (issue_write key value now c)) ?st"
    using st card sent new
    by (auto simp: books_of_def issue_write_def add_pending_def Let_def benchmark_note_write_issued_def
        with_metrics_def unsettled_def lessThan_Suc add.assoc algebra_simps)
  then show ?thesis by (auto simp: books_def)
qed

lemma books_take:
  assumes "books N n f c"
  shows "books N n f (ack_take i c)"
proof (cases "pending_writes c i")
  case None
  then have "(pending_writes c)(i := None) = pending_writes c" by auto
  then show ?thesis using assms None by (simp add: ack_take_def remove_pending_request_def)
next
  case (Some w)
  obtain st where st: "books_of N n f c st" using assms by (auto simp: books_def)
  have mem: "i \<in> dom (pending_writes c)" using Some by auto
  then have "0 < card (dom (pending_writes c))"
    using books_finite [OF st] by (auto simp: card_gt_0_iff)
  then have same: "unsettled (ack_take i c) = unsettled c"
    using card_dom_upd_None [OF books_finite [OF st], of i] mem Some
    by (simp add: unsettled_def ack_take_def remove_pending_request_def)
  have "books_of N n f (ack_take i c) st"
    using st mem unfolding books_of_def same
    by (auto simp: ack_take_def remove_pending_request_def)
  then show ?thesis by (auto simp: books_def)
qed

lemma books_note:
  assumes "books N n f c" "n < 2 ^ 64" "i \<in> set (ack_threads c)"
  shows "books N n f (ack_note i now c)"
proof -
  obtain st where st: "books_of N n f c st" using assms(1) by (auto simp: books_def)
  obtain t where t: "pending_write_times st i = Some t" using st assms(3) by (auto simp: books_of_def)
  have len: "length (ack_threads c) = Suc (length (remove1 i (ack_threads c)))"
    using length_remove1 [of i "ack_threads c"] length_pos_if_in_set [OF assms(3)] assms(3) by simp
  have acks: "unat (acks_received st + 1) = Suc (unat (acks_received st))"
    using unat_inc_u64 [of "acks_received st"] st len assms(2) by (simp add: books_of_def unsettled_def)
  obtain st' where st': "metrics (ack_note i now c) = Some st'" "enabled st'"
    "pending_write_times st' = (pending_write_times st)(i := None)" "writes_sent st' = writes_sent st"
    "write_rpc_failures st' = write_rpc_failures st" "acks_received st' = acks_received st + 1"
    "ack_latency_samples st' = ack_latency_samples st + 1"
    using st t by (auto simp: books_of_def ack_note_def benchmark_note_write_ack_def with_metrics_def Let_def)
  have frame: "next_request_id (ack_note i now c) = next_request_id c"
    "pending_writes (ack_note i now c) = pending_writes c"
    "ack_threads (ack_note i now c) = remove1 i (ack_threads c)"
    by (simp_all add: ack_note_def benchmark_note_write_ack_def with_metrics_def split: option.split)
  have "books_of N n f (ack_note i now c) st'"
    using st st' len acks assms(3) unfolding books_of_def unsettled_def frame
    by (auto simp: distinct_remove1)
  then show ?thesis by (auto simp: books_def)
qed

lemma books_failure:
  assumes "books N n f c" "f + 1 < 2 ^ 64"
  shows "books N n (Suc f) (write_failed i c)"
proof -
  obtain st where st: "books_of N n f c st" using assms(1) by (auto simp: books_def)
  let ?st = "st\<lparr>write_rpc_failures := write_rpc_failures st + 1\<rparr>"
  have fails: "unat (write_rpc_failures st + 1) = Suc f"
    using unat_inc_u64 [of "write_rpc_failures st"] st assms(2) by (simp add: books_of_def)
  have card: "card (dom ((pending_writes c)(i := None))) \<le> card (dom (pending_writes c))"
    "card (dom (pending_writes c)) \<le> Suc (card (dom ((pending_writes c)(i := None))))"
    using card_dom_upd_None [OF books_finite [OF st], of i] by (auto split: if_splits)
  have sub: "dom ((pending_writes c)(i := None)) \<subseteq> dom (pending_writes c)" by auto
  have "write_failed i c = c\<lparr>metrics := Some ?st, pending_writes := (pending_writes c)(i := None)\<rparr>"
    using st by (simp add: books_of_def write_failed_def benchmark_note_write_rpc_failure_def
        with_metrics_def remove_pending_request_def)
  moreover have "books_of N n (Suc f)
      (c\<lparr>metrics := Some ?st, pending_writes := (pending_writes c)(i := None)\<rparr>) ?st"
    using st fails card sub by (auto simp: books_of_def unsettled_def)
  ultimately show ?thesis by (auto simp: books_def)
qed

lemma issues_Nil [simp]: "issues [] = 0" and issues_snoc: "issues (es @ [e]) = issues es + (if is_issue e then 1 else 0)"
  by (simp_all add: issues_def)

lemma failures_Nil [simp]: "failures [] = 0" and failures_snoc: "failures (es @ [e]) = failures es + (if is_failure e then 1 else 0)"
  by (simp_all add: failures_def)

lemma client_run_snoc: "client_run (es @ [e]) c = client_exec e (client_run es c)"
  by (simp add: client_run_def)

lemma books_run:
  assumes "books N 0 0 c" "length es < 2 ^ 64"
  shows "books N (issues es) (failures es) (client_run es c)"
  using assms(2)
proof (induction es rule: rev_induct)
  case Nil
  then show ?case using assms(1) by (simp add: client_run_def)
next
  case (snoc e es)
  have "issues es \<le> length es" "failures es \<le> length es" by (simp_all add: issues_def failures_def)
  then show ?case
    using snoc books_issue [of N "issues es" "failures es" "client_run es c"]
      books_take [of N "issues es" "failures es" "client_run es c"]
      books_note [of N "issues es" "failures es" "client_run es c"]
      books_failure [of N "issues es" "failures es" "client_run es c"]
    by (cases e) (auto simp: client_run_snoc issues_snoc failures_snoc)
qed

lemma books_start:
  assumes "pending_writes c = Map.empty" "ack_threads c = []"
  shows "books (next_request_id c) 0 0
    (benchmark_attach_metrics_state (benchmark_start_metrics_window t st) c)"
  using assms
  by (simp add: books_def books_of_def unsettled_def benchmark_attach_metrics_state_def
      benchmark_start_metrics_window_def)

text \<open>A repeated ack changes nothing.\<close>

lemma remove_pending_gone: "pending_writes c i = None \<Longrightarrow> remove_pending_request i c = (False, c)"
proof -
  assume "pending_writes c i = None"
  moreover from this have "(pending_writes c)(i := None) = pending_writes c" by auto
  ultimately show ?thesis by (simp add: remove_pending_request_def)
qed

lemma ack_pending_gone: "pending_writes c i = None \<Longrightarrow> ack_pending i now c = c"
  by (simp add: ack_pending_def remove_pending_gone)

lemma ack_pending_removes: "pending_writes (ack_pending i now c) = (pending_writes c)(i := None)"
  by (auto simp: ack_pending_def remove_pending_request_def benchmark_note_write_ack_def with_metrics_def
      fun_eq_iff split: option.splits)

lemma ack_pending_twice: "ack_pending i now' (ack_pending i now c) = ack_pending i now c"
  by (rule ack_pending_gone) (simp add: ack_pending_removes)

lemma write_failed_pending: "pending_writes (write_failed i c) = (pending_writes c)(i := None)"
  by (simp add: write_failed_def remove_pending_request_def benchmark_note_write_rpc_failure_def with_metrics_def
      split: option.split)

text \<open>What the acks handled by the listener leave pending.\<close>

definition listen :: "(client_rpc \<times> int) list \<Rightarrow> Client \<Rightarrow> Client" where
  "listen calls = fold (\<lambda>(call, now) c. snd (ClientAckServiceImpl call now c)) calls"

definition acked_ids :: "(client_rpc \<times> int) list \<Rightarrow> u64 set" where
  "acked_ids calls = {ack_request_id req | req now. (Client_Ack req, now) \<in> set calls}"

lemma acked_ids_simps [simp]:
  "acked_ids [] = {}"
  "acked_ids ((Client_Ack req, now) # calls) = insert (ack_request_id req) (acked_ids calls)"
  "(\<And>req. call \<noteq> Client_Ack req) \<Longrightarrow> acked_ids ((call, now) # calls) = acked_ids calls"
  by (auto simp: acked_ids_def)

lemma pending_after_listen: "pending_writes (listen calls c) = pending_writes c |` (- acked_ids calls)"
proof (induction calls arbitrary: c)
  case (Cons x calls)
  obtain call now where x: "x = (call, now)" by fastforce
  have step: "listen (x # calls) c = listen calls (snd (ClientAckServiceImpl call now c))"
    by (simp add: listen_def x)
  show ?case
    unfolding step Cons.IH by (cases call) (auto simp: x ack_pending_removes restrict_map_def fun_eq_iff)
qed (simp add: listen_def restrict_map_def)

text \<open>Undisturbed, the two steps are the whole body.\<close>

lemma ack_pending_steps:
  assumes "i \<notin> set (ack_threads c)" "pending_writes c i \<noteq> None"
  shows "ack_note i now (ack_take i c) = ack_pending i now c"
proof -
  have "remove1 i (ack_threads c @ [i]) = ack_threads c" using assms(1) by (simp add: remove1_append)
  then show ?thesis using assms(2) by (simp add: ack_note_def ack_take_def ack_pending_def remove_pending_request_def)
qed

subsection \<open>Every request by its id\<close>

text \<open>
  The requests whose ack a run counts, in the order of the counting; the ids it issues, from the
  counter \<open>N\<close> on, with what each write says; and the ids whose call fails.
\<close>

fun counted_acks :: "client_event list \<Rightarrow> Client \<Rightarrow> u64 list" where
  "counted_acks [] c = []"
| "counted_acks (e # es) c =
     (case e of Ack_noted i now \<Rightarrow> if i \<in> set (ack_threads c) then [i] else [] | _ \<Rightarrow> []) @
     counted_acks es (client_exec e c)"

fun issued_writes :: "client_event list \<Rightarrow> (string \<times> string) list" where
  "issued_writes [] = []"
| "issued_writes (Issue key value now # es) = (key, value) # issued_writes es"
| "issued_writes (_ # es) = issued_writes es"

definition issued_ids :: "u64 \<Rightarrow> client_event list \<Rightarrow> u64 set" where
  "issued_ids N es = (\<lambda>k. N + word_of_nat k) ` {..<issues es}"

definition failed_ids :: "client_event list \<Rightarrow> u64 set" where
  "failed_ids es = {i. Call_fails i \<in> set es}"

text \<open>Where each issued request is; \<open>counted\<close> are the ids whose ack was counted.\<close>

definition ledger :: "u64 \<Rightarrow> client_event list \<Rightarrow> u64 list \<Rightarrow> Client \<Rightarrow> bool" where
  "ledger N es counted c \<longleftrightarrow>
     next_request_id c = N + word_of_nat (issues es) \<and>
     distinct (ack_threads c @ counted) \<and> dom (pending_writes c) \<inter> set (ack_threads c @ counted) = {} \<and>
     dom (pending_writes c) \<union> set (ack_threads c @ counted) \<subseteq> issued_ids N es \<and>
     issued_ids N es - failed_ids es \<subseteq> dom (pending_writes c) \<union> set (ack_threads c @ counted) \<and>
     (\<forall>i w. pending_writes c i = Some w \<longrightarrow> (\<exists>k < issues es. i = N + word_of_nat k \<and>
        w = \<lparr>pw_request_id = i, pw_key = fst (issued_writes es ! k), pw_value = snd (issued_writes es ! k)\<rparr>))"

lemma counted_acks_snoc:
  "counted_acks (es @ [e]) c = counted_acks es c @
     (case e of Ack_noted i now \<Rightarrow> if i \<in> set (ack_threads (client_run es c)) then [i] else [] | _ \<Rightarrow> [])"
  by (induction es arbitrary: c) (simp_all add: client_run_def split: client_event.split)

lemma issued_writes_append: "issued_writes (es @ es') = issued_writes es @ issued_writes es'"
  by (induction es rule: issued_writes.induct) simp_all

lemma length_issued_writes: "length (issued_writes es) = issues es"
  by (induction es rule: issued_writes.induct) (simp_all add: issues_def)

lemma issued_ids_snoc: "issued_ids N (es @ [e])
    = (if is_issue e then insert (N + word_of_nat (issues es)) (issued_ids N es) else issued_ids N es)"
  by (simp add: issued_ids_def issues_snoc lessThan_Suc)

lemma failed_ids_snoc: "failed_ids (es @ [e]) = (case e of Call_fails i \<Rightarrow> insert i (failed_ids es) | _ \<Rightarrow> failed_ids es)"
  by (auto simp: failed_ids_def split: client_event.splits)

lemma ledger_issue:
  assumes "ledger N es counted c" "issues es < 2 ^ 64"
  shows "ledger N (es @ [Issue key value now]) counted (snd (issue_write key value now c))"
proof -
  let ?i = "N + word_of_nat (issues es)" and ?c = "snd (issue_write key value now c)"
  have new: "?i \<notin> issued_ids N es" unfolding issued_ids_def by (rule fresh_request_id [OF assms(2)])
  have c: "next_request_id ?c = ?i + 1" "ack_threads ?c = ack_threads c"
    "pending_writes ?c = (pending_writes c)(?i \<mapsto> \<lparr>pw_request_id = ?i, pw_key = key, pw_value = value\<rparr>)"
    using assms(1)
    by (simp_all add: ledger_def issue_write_def add_pending_def Let_def benchmark_note_write_issued_def
        with_metrics_def split: option.split)
  have here: "\<exists>k < Suc (issues es). ?i = N + word_of_nat k \<and>
      (key, value) = (issued_writes es @ [(key, value)]) ! k"
    by (rule exI [of _ "issues es"]) (simp add: nth_append length_issued_writes)
  have before: "\<exists>k < Suc (issues es). i = N + word_of_nat k \<and> w = \<lparr>pw_request_id = i,
      pw_key = fst ((issued_writes es @ [(key, value)]) ! k), pw_value = snd ((issued_writes es @ [(key, value)]) ! k)\<rparr>"
    if w: "pending_writes c i = Some w" for i w
  proof -
    obtain k where "k < issues es" "i = N + word_of_nat k" "w = \<lparr>pw_request_id = i,
        pw_key = fst (issued_writes es ! k), pw_value = snd (issued_writes es ! k)\<rparr>"
      using assms(1) w unfolding ledger_def by blast
    then show ?thesis by (intro exI [of _ k]) (simp add: nth_append length_issued_writes)
  qed
  have book: "distinct (ack_threads c @ counted)" "dom (pending_writes c) \<inter> set (ack_threads c @ counted) = {}"
    "dom (pending_writes c) \<union> set (ack_threads c @ counted) \<subseteq> issued_ids N es"
    "issued_ids N es - failed_ids es \<subseteq> dom (pending_writes c) \<union> set (ack_threads c @ counted)"
    using assms(1) unfolding ledger_def by blast+
  show ?thesis
    unfolding ledger_def c issued_ids_snoc failed_ids_snoc issues_snoc issued_writes_append
    using book new here before
    by (auto simp: algebra_simps)
qed

text \<open>The other events issue nothing; only a failed call takes a request off the ledger.\<close>

lemma ledger_entries:
  assumes "ledger N es counted c" "\<not> is_issue e" "next_request_id c' = next_request_id c"
    and "\<And>i w. pending_writes c' i = Some w \<Longrightarrow> pending_writes c i = Some w"
    and "distinct (ack_threads c' @ counted')" "dom (pending_writes c') \<inter> set (ack_threads c' @ counted') = {}"
    and "dom (pending_writes c') \<union> set (ack_threads c' @ counted')
      \<subseteq> dom (pending_writes c) \<union> set (ack_threads c @ counted)"
    and "dom (pending_writes c) \<union> set (ack_threads c @ counted) - failed_ids (es @ [e])
      \<subseteq> dom (pending_writes c') \<union> set (ack_threads c' @ counted')"
  shows "ledger N (es @ [e]) counted' c'"
proof -
  have same: "issued_writes (es @ [e]) = issued_writes es" "issues (es @ [e]) = issues es"
    "issued_ids N (es @ [e]) = issued_ids N es" "failed_ids es \<subseteq> failed_ids (es @ [e])"
    using assms(2) by (cases e; auto simp: issued_writes_append issues_snoc issued_ids_snoc failed_ids_snoc)+
  have book: "next_request_id c = N + word_of_nat (issues es)"
    "dom (pending_writes c) \<union> set (ack_threads c @ counted) \<subseteq> issued_ids N es"
    "issued_ids N es - failed_ids es \<subseteq> dom (pending_writes c) \<union> set (ack_threads c @ counted)"
    "\<And>i w. pending_writes c i = Some w \<Longrightarrow> \<exists>k < issues es. i = N + word_of_nat k \<and>
        w = \<lparr>pw_request_id = i, pw_key = fst (issued_writes es ! k), pw_value = snd (issued_writes es ! k)\<rparr>"
    using assms(1) unfolding ledger_def by blast+
  have "dom (pending_writes c') \<union> set (ack_threads c' @ counted') \<subseteq> issued_ids N es"
    using assms(7) book(2) by (rule subset_trans)
  moreover have "issued_ids N es - failed_ids (es @ [e]) \<subseteq> dom (pending_writes c') \<union> set (ack_threads c' @ counted')"
    using assms(8) book(3) same(4) by blast
  ultimately show ?thesis
    unfolding ledger_def same
    using assms(3,5,6) book(1,4) assms(4) by simp
qed

lemma ledger_take:
  assumes "ledger N es counted c"
  shows "ledger N (es @ [Ack_taken i]) counted (ack_take i c)"
proof (rule ledger_entries [OF assms])
  have book: "distinct (ack_threads c @ counted)" "dom (pending_writes c) \<inter> set (ack_threads c @ counted) = {}"
    using assms unfolding ledger_def by blast+
  note take = ack_take_def remove_pending_request_def
  show "distinct (ack_threads (ack_take i c) @ counted)"
    "dom (pending_writes (ack_take i c)) \<inter> set (ack_threads (ack_take i c) @ counted) = {}"
    using book by (auto simp: take)
qed (auto simp: ack_take_def remove_pending_request_def split: if_splits)

lemma ledger_note:
  assumes "ledger N es counted c" "i \<in> set (ack_threads c)"
  shows "ledger N (es @ [Ack_noted i now]) (counted @ [i]) (ack_note i now c)"
proof (rule ledger_entries [OF assms(1)])
  have book: "distinct (ack_threads c @ counted)" "dom (pending_writes c) \<inter> set (ack_threads c @ counted) = {}"
    using assms(1) unfolding ledger_def by blast+
  have c: "next_request_id (ack_note i now c) = next_request_id c"
    "pending_writes (ack_note i now c) = pending_writes c"
    "ack_threads (ack_note i now c) = remove1 i (ack_threads c)"
    by (simp_all add: ack_note_def benchmark_note_write_ack_def with_metrics_def split: option.split)
  have threads: "set (remove1 i (ack_threads c)) = set (ack_threads c) - {i}" using book(1) by simp
  show "next_request_id (ack_note i now c) = next_request_id c" by (rule c(1))
  show "distinct (ack_threads (ack_note i now c) @ counted @ [i])"
    "dom (pending_writes (ack_note i now c)) \<inter> set (ack_threads (ack_note i now c) @ counted @ [i]) = {}"
    unfolding c using book assms(2) by (auto simp: distinct_remove1)
  show "dom (pending_writes (ack_note i now c)) \<union> set (ack_threads (ack_note i now c) @ counted @ [i])
      \<subseteq> dom (pending_writes c) \<union> set (ack_threads c @ counted)"
    "dom (pending_writes c) \<union> set (ack_threads c @ counted) - failed_ids (es @ [Ack_noted i now])
      \<subseteq> dom (pending_writes (ack_note i now c)) \<union> set (ack_threads (ack_note i now c) @ counted @ [i])"
    unfolding c using threads assms(2) by auto
  show "\<And>j w. pending_writes (ack_note i now c) j = Some w \<Longrightarrow> pending_writes c j = Some w" by (simp add: c)
qed simp

lemma ledger_failure:
  assumes "ledger N es counted c"
  shows "ledger N (es @ [Call_fails i]) counted (write_failed i c)"
proof (rule ledger_entries [OF assms])
  have book: "distinct (ack_threads c @ counted)" "dom (pending_writes c) \<inter> set (ack_threads c @ counted) = {}"
    using assms unfolding ledger_def by blast+
  have c: "next_request_id (write_failed i c) = next_request_id c" "ack_threads (write_failed i c) = ack_threads c"
    "pending_writes (write_failed i c) = (pending_writes c)(i := None)"
    by (simp_all add: write_failed_def remove_pending_request_def benchmark_note_write_rpc_failure_def
        with_metrics_def split: option.split)
  show "next_request_id (write_failed i c) = next_request_id c" by (rule c(1))
  show "distinct (ack_threads (write_failed i c) @ counted)"
    "dom (pending_writes (write_failed i c)) \<inter> set (ack_threads (write_failed i c) @ counted) = {}"
    unfolding c using book by auto
  show "dom (pending_writes (write_failed i c)) \<union> set (ack_threads (write_failed i c) @ counted)
      \<subseteq> dom (pending_writes c) \<union> set (ack_threads c @ counted)"
    "dom (pending_writes c) \<union> set (ack_threads c @ counted) - failed_ids (es @ [Call_fails i])
      \<subseteq> dom (pending_writes (write_failed i c)) \<union> set (ack_threads (write_failed i c) @ counted)"
    unfolding c failed_ids_snoc by auto
  show "\<And>j w. pending_writes (write_failed i c) j = Some w \<Longrightarrow> pending_writes c j = Some w"
    by (simp add: c split: if_splits)
qed simp

lemma ledger_run:
  assumes "ledger (next_request_id c) [] [] c" "length es < 2 ^ 64"
  shows "ledger (next_request_id c) es (counted_acks es c) (client_run es c)"
  using assms(2)
proof (induction es rule: rev_induct)
  case Nil
  then show ?case using assms(1) by (simp add: client_run_def)
next
  case (snoc e es)
  have "issues es \<le> length es" by (simp add: issues_def)
  then have len: "issues es < 2 ^ 64" using snoc.prems by simp
  have led: "ledger (next_request_id c) es (counted_acks es c) (client_run es c)"
    using snoc by simp
  note steps = ledger_issue [OF led len] ledger_take [OF led] ledger_note [OF led] ledger_failure [OF led]
  show ?case
  proof (cases e)
    case (Ack_noted i now)
    show ?thesis
    proof (cases "i \<in> set (ack_threads (client_run es c))")
      case False
      have "ledger (next_request_id c) (es @ [e]) (counted_acks es c) (client_run es c)"
        by (rule ledger_entries [OF led]) (use led in \<open>auto simp: Ack_noted ledger_def\<close>)
      then show ?thesis using False by (simp add: Ack_noted client_run_snoc counted_acks_snoc)
    qed (use steps(3) in \<open>simp add: Ack_noted client_run_snoc counted_acks_snoc\<close>)
  qed (use steps in \<open>simp_all add: client_run_snoc counted_acks_snoc\<close>)
qed

text \<open>The counter of acks is the number of them.\<close>

lemma acks_counted:
  assumes "metrics c = Some st" "enabled st"
  shows "\<exists>st'. metrics (client_run es c) = Some st' \<and> enabled st' \<and>
    acks_received st' = acks_received st + word_of_nat (length (counted_acks es c))"
proof (induction es rule: rev_induct)
  case Nil
  then show ?case using assms by (simp add: client_run_def)
next
  case (snoc e es)
  then obtain st' where "metrics (client_run es c) = Some st'" "enabled st'"
    "acks_received st' = acks_received st + word_of_nat (length (counted_acks es c))" by blast
  then show ?case
    by (cases e) (auto simp: client_run_snoc counted_acks_snoc issue_write_def add_pending_def Let_def
        benchmark_note_write_issued_def ack_take_def ack_note_def remove_pending_request_def
        benchmark_note_write_ack_def write_failed_def benchmark_note_write_rpc_failure_def with_metrics_def
        split: option.splits)
qed

lemma length_counted_acks: "length (counted_acks es c) \<le> length es"
  by (induction es arbitrary: c) (auto split: client_event.split intro: le_SucI)

lemma ledger_start:
  assumes "pending_writes c = Map.empty" "ack_threads c = []"
    and "c0 = benchmark_attach_metrics_state (benchmark_start_metrics_window t st) c"
  shows "ledger (next_request_id c0) [] [] c0" "next_request_id c0 = next_request_id c"
    and "\<exists>st. metrics c0 = Some st \<and> enabled st \<and> acks_received st = 0"
  using assms(1,2)
  by (simp_all add: assms(3) ledger_def issued_ids_def benchmark_attach_metrics_state_def
      benchmark_start_metrics_window_def)

end
