(* ===== verification/Client_Args.thy ===== *)
theory Client_Args
  imports Numeric_Text Messages
begin

section \<open>Command line of the client (src/src/client/client.cpp)\<close>

text \<open>
  \<open>main\<close> takes a configuration file and a flag; what follows them (\<open>argv[3]\<close> on) selects the
  port of the ack server and the run mode and is read by \<open>parse_run_mode_args\<close>. A function that returns
  false and leaves its output alone is \<open>None\<close>; the error text of a rejected command line is the
  left summand.

  Lemmas: an accepted command line has every number in its range, and the arguments printed
  from a benchmark configuration are read back as that configuration.
\<close>

definition parse_int_text :: "string \<Rightarrow> int option" where
  "parse_int_text s =
     (if s = [] then None
      else case stoll s of
             Inl _ \<Rightarrow> None
           | Inr (parsed, consumed) \<Rightarrow>
               if consumed \<noteq> length s then None
               else if parsed < int_min \<or> parsed > int_max then None
               else Some parsed)"

definition parse_uint64_text :: "string \<Rightarrow> u64 option" where
  "parse_uint64_text s =
     (if s = [] then None
      else case stoull 10 s of
             Inl _ \<Rightarrow> None
           | Inr (out, consumed) \<Rightarrow> if consumed = length s then Some out else None)"

datatype ClientRunMode = INTERACTIVE | BENCH_WRITE | BENCH_READ

record BenchmarkRunConfig =
  total_ops :: u64
  key_count :: int
  client_index :: int
  num_clients :: int
  craq_node_id :: int
  key_prefix :: string
  value_prefix :: string
  crown_hot_head_pct :: int
  read_hot_key_pct :: int

definition BenchmarkRunConfig_default :: BenchmarkRunConfig where
  "BenchmarkRunConfig_default =
     \<lparr>total_ops = 0, key_count = 0, client_index = 0, num_clients = 1, craq_node_id = -1,
      key_prefix = ''bench-key-'', value_prefix = ''bench-value-'', crown_hot_head_pct = 0,
      read_hot_key_pct = 0\<rparr>"

text \<open>
  The two lambdas \<open>try_parse_hot_pct\<close>, which differ in the long prefix. They return false both when
  the token is no percentage (\<open>Not_hot\<close>) and when it is a bad one, then with the error set.
\<close>

datatype hot_arg = Not_hot | Bad_hot | Hot int

definition strip_prefix :: "string \<Rightarrow> string \<Rightarrow> string option" where
  "strip_prefix pre s = (if take (length pre) s = pre then Some (drop (length pre) s) else None)"

definition try_parse_hot_pct :: "string \<Rightarrow> string \<Rightarrow> hot_arg" where
  "try_parse_hot_pct long_prefix token =
     (case (case strip_prefix ''hot='' token of
              Some s \<Rightarrow> Some s | None \<Rightarrow> strip_prefix long_prefix token) of
        None \<Rightarrow> Not_hot
      | Some value_text \<Rightarrow>
          (case parse_int_text value_text of
             None \<Rightarrow> Bad_hot
           | Some parsed \<Rightarrow> if parsed < 0 \<or> parsed > 100 then Bad_hot else Hot parsed))"

text \<open>The two loops over the optional arguments, with the flags of what was already given.\<close>

fun parse_write_tokens ::
    "bool \<Rightarrow> bool \<Rightarrow> bool \<Rightarrow> BenchmarkRunConfig \<Rightarrow> string list \<Rightarrow> string + BenchmarkRunConfig" where
  "parse_write_tokens hot_pct_set key_prefix_set value_prefix_set cfg [] = Inr cfg"
| "parse_write_tokens hot_pct_set key_prefix_set value_prefix_set cfg (token # ts) =
     (case (if hot_pct_set then Not_hot else try_parse_hot_pct ''crown_hot_head_pct='' token) of
        Hot p \<Rightarrow> parse_write_tokens True key_prefix_set value_prefix_set (cfg\<lparr>crown_hot_head_pct := p\<rparr>) ts
      | Bad_hot \<Rightarrow> Inl ''crown_hot_head_pct must be in [0, 100]''
      | Not_hot \<Rightarrow>
          if \<not> key_prefix_set
          then parse_write_tokens hot_pct_set True value_prefix_set (cfg\<lparr>key_prefix := token\<rparr>) ts
          else if \<not> value_prefix_set
          then parse_write_tokens hot_pct_set key_prefix_set True (cfg\<lparr>value_prefix := token\<rparr>) ts
          else Inl ''too many arguments for benchmark write mode'')"

fun parse_read_tokens ::
    "bool \<Rightarrow> bool \<Rightarrow> BenchmarkRunConfig \<Rightarrow> string list \<Rightarrow> string + BenchmarkRunConfig" where
  "parse_read_tokens hot_pct_set key_prefix_set cfg [] = Inr cfg"
| "parse_read_tokens hot_pct_set key_prefix_set cfg (token # ts) =
     (case (if hot_pct_set then Not_hot else try_parse_hot_pct ''read_hot_key_pct='' token) of
        Hot p \<Rightarrow> parse_read_tokens True key_prefix_set (cfg\<lparr>read_hot_key_pct := p\<rparr>) ts
      | Bad_hot \<Rightarrow> Inl ''read_hot_key_pct must be in [0, 100]''
      | Not_hot \<Rightarrow>
          if \<not> key_prefix_set
          then parse_read_tokens hot_pct_set True (cfg\<lparr>key_prefix := token\<rparr>) ts
          else Inl ''too many arguments for benchmark read mode'')"

definition parse_read_args :: "BenchmarkRunConfig \<Rightarrow> string list \<Rightarrow> string + BenchmarkRunConfig" where
  "parse_read_args cfg args =
     (case args of
        [] \<Rightarrow> parse_read_tokens False False cfg []
      | a # rest \<Rightarrow>
          (case parse_int_text a of
             Some maybe_node_id \<Rightarrow> parse_read_tokens False False (cfg\<lparr>craq_node_id := maybe_node_id\<rparr>) rest
           | None \<Rightarrow> parse_read_tokens False False cfg args))"

text \<open>The four required numbers.\<close>

definition parse_bench_numbers ::
    "string \<Rightarrow> string \<Rightarrow> string \<Rightarrow> string \<Rightarrow> string + BenchmarkRunConfig" where
  "parse_bench_numbers ops keys index clients =
     (case parse_uint64_text ops of
        None \<Rightarrow> Inl ''total_ops must be > 0''
      | Some t \<Rightarrow> if t = 0 then Inl ''total_ops must be > 0'' else
     (case parse_int_text keys of
        None \<Rightarrow> Inl ''key_count must be > 0''
      | Some kc \<Rightarrow> if kc \<le> 0 then Inl ''key_count must be > 0'' else
     (case parse_int_text index of
        None \<Rightarrow> Inl ''client_index must be >= 0''
      | Some ci \<Rightarrow> if ci < 0 then Inl ''client_index must be >= 0'' else
     (case parse_int_text clients of
        None \<Rightarrow> Inl ''num_clients must be > 0''
      | Some nc \<Rightarrow> if nc \<le> 0 then Inl ''num_clients must be > 0''
          else if ci \<ge> nc then Inl ''client_index must be < num_clients''
          else Inr (BenchmarkRunConfig_default
                      \<lparr>total_ops := t, key_count := kc, client_index := ci, num_clients := nc\<rparr>)))))"

definition parse_run_mode_args ::
    "string list \<Rightarrow> string + (int \<times> ClientRunMode \<times> BenchmarkRunConfig)" where
  "parse_run_mode_args args =
     (let (ack_port, rest) =
        (case args of
           [] \<Rightarrow> (60000, [])
         | a # r \<Rightarrow> (case parse_int_text a of Some p \<Rightarrow> (p, r) | None \<Rightarrow> (60000, args)))
      in if ack_port < 1 \<or> ack_port > 65535 then Inl ''ack_port must be in [1, 65535]''
         else case rest of
           [] \<Rightarrow> Inr (ack_port, INTERACTIVE, BenchmarkRunConfig_default)
         | mode_arg # rest \<Rightarrow>
             if mode_arg \<noteq> ''bench-write'' \<and> mode_arg \<noteq> ''bench-read''
             then Inl (''unknown mode '' @ CHR 0x27 # mode_arg @ [CHR 0x27])
             else (case rest of
               ops # keys # index # clients # rest \<Rightarrow>
                 (case parse_bench_numbers ops keys index clients of
                    Inl e \<Rightarrow> Inl e
                  | Inr cfg \<Rightarrow>
                      if mode_arg = ''bench-write''
                      then map_sum id (\<lambda>cfg. (ack_port, BENCH_WRITE, cfg))
                             (parse_write_tokens False False False cfg rest)
                      else map_sum id (\<lambda>cfg. (ack_port, BENCH_READ, cfg)) (parse_read_args cfg rest))
             | _ \<Rightarrow> Inl ''benchmark mode requires: <total_ops> <key_count> <client_index> <num_clients>''))"

text \<open>
  \<open>main\<close> up to the start of the ack server: usage, or a configuration path, the configure
  flag and the run mode. \<open>argv\<close> without the program name.
\<close>

datatype cli_outcome = Cli_usage string | Cli_run string bool int ClientRunMode BenchmarkRunConfig

definition client_cli :: "string list \<Rightarrow> cli_outcome" where
  "client_cli argv =
     (case argv of
        config_path # configure_arg # rest \<Rightarrow>
          if configure_arg \<noteq> ''true'' \<and> configure_arg \<noteq> ''false''
          then Cli_usage (''Second argument must be '' @ CHR 0x27 # ''true'' @ CHR 0x27 # '' or ''
                 @ CHR 0x27 # ''false'' @ CHR 0x27 # ''.'')
          else (case parse_run_mode_args rest of
                  Inl e \<Rightarrow> Cli_usage (''Argument error: '' @ e)
                | Inr (ack_port, run, cfg) \<Rightarrow>
                    Cli_run config_path (configure_arg = ''true'') ack_port run cfg)
      | _ \<Rightarrow> Cli_usage [])"

subsection \<open>Accepted command lines\<close>

definition bench_ok :: "BenchmarkRunConfig \<Rightarrow> bool" where
  "bench_ok cfg \<longleftrightarrow>
     0 < total_ops cfg \<and> 0 < key_count cfg \<and> key_count cfg \<le> int_max \<and>
     0 \<le> client_index cfg \<and> client_index cfg < num_clients cfg \<and> num_clients cfg \<le> int_max \<and>
     0 \<le> crown_hot_head_pct cfg \<and> crown_hot_head_pct cfg \<le> 100 \<and>
     0 \<le> read_hot_key_pct cfg \<and> read_hot_key_pct cfg \<le> 100"

lemma parse_int_text_range: "parse_int_text s = Some i \<Longrightarrow> fits_int i"
  by (auto simp: parse_int_text_def fits_int_def split: if_splits sum.splits prod.splits)

lemma try_parse_hot_range: "try_parse_hot_pct pre s = Hot p \<Longrightarrow> 0 \<le> p \<and> p \<le> 100"
  by (auto simp: try_parse_hot_pct_def split: option.splits if_splits)

lemma parse_bench_numbers_ok: "parse_bench_numbers a b c d = Inr cfg \<Longrightarrow> bench_ok cfg"
  by (auto simp: parse_bench_numbers_def bench_ok_def BenchmarkRunConfig_default_def word_gt_0 fits_int_def
      dest!: parse_int_text_range split: option.splits if_splits)

lemma bench_ok_update [simp]:
  "bench_ok (cfg\<lparr>key_prefix := x\<rparr>) = bench_ok cfg" "bench_ok (cfg\<lparr>value_prefix := x\<rparr>) = bench_ok cfg"
  "bench_ok (cfg\<lparr>craq_node_id := i\<rparr>) = bench_ok cfg"
  by (simp_all add: bench_ok_def)

lemma bench_ok_hot:
  "bench_ok cfg \<Longrightarrow> 0 \<le> p \<Longrightarrow> p \<le> 100 \<Longrightarrow> bench_ok (cfg\<lparr>crown_hot_head_pct := p\<rparr>)"
  "bench_ok cfg \<Longrightarrow> 0 \<le> p \<Longrightarrow> p \<le> 100 \<Longrightarrow> bench_ok (cfg\<lparr>read_hot_key_pct := p\<rparr>)"
  by (simp_all add: bench_ok_def)

lemma parse_write_tokens_ok:
  "parse_write_tokens hs ks vs cfg ts = Inr cfg' \<Longrightarrow> bench_ok cfg \<Longrightarrow> bench_ok cfg'"
  by (induction hs ks vs cfg ts rule: parse_write_tokens.induct)
    (auto simp: bench_ok_hot split: hot_arg.splits if_splits dest!: try_parse_hot_range)

lemma parse_read_tokens_ok:
  "parse_read_tokens hs ks cfg ts = Inr cfg' \<Longrightarrow> bench_ok cfg \<Longrightarrow> bench_ok cfg'"
  by (induction hs ks cfg ts rule: parse_read_tokens.induct)
    (auto simp: bench_ok_hot split: hot_arg.splits if_splits dest!: try_parse_hot_range)

lemma parse_read_args_ok: "parse_read_args cfg args = Inr cfg' \<Longrightarrow> bench_ok cfg \<Longrightarrow> bench_ok cfg'"
  unfolding parse_read_args_def
  by (cases args)
    (auto simp del: parse_read_tokens.simps split: option.splits dest: parse_read_tokens_ok)

lemma map_sum_Inr: "map_sum f g x = Inr y \<longleftrightarrow> (\<exists>z. x = Inr z \<and> y = g z)"
  by (cases x) auto

lemma parse_run_mode_args_range:
  assumes "parse_run_mode_args args = Inr (p, run, cfg)"
  shows "1 \<le> p \<and> p \<le> 65535 \<and> (run \<noteq> INTERACTIVE \<longrightarrow> bench_ok cfg)"
  using assms
  by (auto simp: parse_run_mode_args_def map_sum_Inr split: list.splits option.splits if_splits sum.splits prod.splits
      dest!: parse_bench_numbers_ok parse_write_tokens_ok parse_read_args_ok)

subsection \<open>Printing a command line\<close>

definition bench_numbers :: "BenchmarkRunConfig \<Rightarrow> string list" where
  "bench_numbers cfg =
     [to_string_nat (unat (total_ops cfg)), to_string_int (key_count cfg),
      to_string_int (client_index cfg), to_string_int (num_clients cfg)]"

definition bench_write_args :: "int \<Rightarrow> BenchmarkRunConfig \<Rightarrow> string list" where
  "bench_write_args p cfg =
     to_string_int p # ''bench-write'' # bench_numbers cfg @
       [''hot='' @ to_string_int (crown_hot_head_pct cfg), key_prefix cfg, value_prefix cfg]"

definition bench_read_args :: "int \<Rightarrow> BenchmarkRunConfig \<Rightarrow> string list" where
  "bench_read_args p cfg =
     to_string_int p # ''bench-read'' # bench_numbers cfg @
       [to_string_int (craq_node_id cfg), ''hot='' @ to_string_int (read_hot_key_pct cfg), key_prefix cfg]"

lemma parse_int_text_print: "fits_int i \<Longrightarrow> parse_int_text (to_string_int i) = Some i"
  by (simp add: parse_int_text_def stoll_to_string int_range_defs)

lemma parse_uint64_text_print: "parse_uint64_text (to_string_nat (unat w)) = Some w"
proof -
  have "unat w < 2 ^ 64" using unat_u64_less [of w] by simp
  from stoull_to_string [OF this] show ?thesis by (simp add: parse_uint64_text_def)
qed

lemma try_parse_hot_print:
  "0 \<le> p \<Longrightarrow> p \<le> 100 \<Longrightarrow> try_parse_hot_pct pre (''hot='' @ to_string_int p) = Hot p"
  by (simp add: try_parse_hot_pct_def strip_prefix_def parse_int_text_print int_range_defs)

lemma parse_bench_numbers_print:
  assumes "bench_ok cfg"
  shows "parse_bench_numbers (to_string_nat (unat (total_ops cfg))) (to_string_int (key_count cfg))
      (to_string_int (client_index cfg)) (to_string_int (num_clients cfg))
    = Inr (BenchmarkRunConfig_default\<lparr>total_ops := total_ops cfg, key_count := key_count cfg,
        client_index := client_index cfg, num_clients := num_clients cfg\<rparr>)"
  using assms
  by (simp add: parse_bench_numbers_def parse_uint64_text_print parse_int_text_print bench_ok_def
      int_range_defs word_gt_0)

lemma bench_write_args_parse:
  assumes "bench_ok cfg" "craq_node_id cfg = -1" "read_hot_key_pct cfg = 0" "1 \<le> p" "p \<le> 65535"
  shows "parse_run_mode_args (bench_write_args p cfg) = Inr (p, BENCH_WRITE, cfg)"
proof -
  have pct: "0 \<le> crown_hot_head_pct cfg" "crown_hot_head_pct cfg \<le> 100"
    using assms(1) by (auto simp: bench_ok_def)
  have port: "parse_int_text (to_string_int p) = Some p"
    using assms(4,5) by (intro parse_int_text_print) (simp add: int_range_defs)
  show ?thesis
    using assms(2-5) parse_bench_numbers_print [OF assms(1)] try_parse_hot_print [OF pct]
    by (simp add: parse_run_mode_args_def bench_write_args_def bench_numbers_def port
        BenchmarkRunConfig_default_def)
qed

lemma bench_read_args_parse:
  assumes "bench_ok cfg" "fits_int (craq_node_id cfg)" "value_prefix cfg = ''bench-value-''"
    "crown_hot_head_pct cfg = 0" "1 \<le> p" "p \<le> 65535"
  shows "parse_run_mode_args (bench_read_args p cfg) = Inr (p, BENCH_READ, cfg)"
proof -
  have pct: "0 \<le> read_hot_key_pct cfg" "read_hot_key_pct cfg \<le> 100"
    using assms(1) by (auto simp: bench_ok_def)
  have port: "parse_int_text (to_string_int p) = Some p"
    using assms(5,6) by (intro parse_int_text_print) (simp add: int_range_defs)
  show ?thesis
    using assms(3-6) parse_bench_numbers_print [OF assms(1)] try_parse_hot_print [OF pct]
    by (simp add: parse_run_mode_args_def bench_read_args_def bench_numbers_def port parse_read_args_def
        parse_int_text_print [OF assms(2)] BenchmarkRunConfig_default_def)
qed

end
