(* ===== verification/Client_Batches.thy ===== *)
theory Client_Batches
  imports Client_Args Client_Config
begin

section \<open>The operations of a benchmark client (src/src/client/client.cpp)\<close>

text \<open>
  Before a benchmark starts, each client prepares the list of its writes or reads: client
  \<open>i\<close> of \<open>n\<close> takes the global operations \<open>i, i + n, i + 2n, ..\<close> below \<open>total_ops\<close>, computed in
  64 bits. The two loops have the same frame, \<open>batch_loop\<close>, with the loop body as an argument;
  a loop that does not end is \<open>None\<close>. The doubles printed afterwards are not modelled.

  Lemmas: the loop ends when \<open>total_ops + num_clients\<close> fits in 64 bits, and then runs its body
  on exactly the operations of \<open>batch_ops\<close>; the clients share out the operations without gap
  or overlap.
\<close>

definition benchmark_key_for_index :: "string \<Rightarrow> nat \<Rightarrow> string" where
  "benchmark_key_for_index prefix index = prefix @ to_string_nat index"

definition benchmark_build_keyset :: "string \<Rightarrow> nat \<Rightarrow> string list" where
  "benchmark_build_keyset prefix n = map (benchmark_key_for_index prefix) [0..<n]"

definition benchmark_select_key_round_robin :: "string list \<Rightarrow> u64 \<Rightarrow> cxx_exn + string" where
  "benchmark_select_key_round_robin keys operation_index =
     (if keys = [] then Inl (Invalid_argument ''benchmark keyset cannot be empty'')
      else Inr (keys ! (unat operation_index mod length keys)))"

definition global_op :: "BenchmarkRunConfig \<Rightarrow> u64 \<Rightarrow> u64" where
  "global_op cfg op_index = word_of_int (client_index cfg) + word_of_int (num_clients cfg) * op_index"

text \<open>\<open>body global_op op_index s\<close> is the prepared operation and the new loop state.\<close>

partial_function (option) batch_loop ::
    "BenchmarkRunConfig \<Rightarrow> (u64 \<Rightarrow> u64 \<Rightarrow> 's \<Rightarrow> cxx_exn + ('a \<times> 's)) \<Rightarrow> u64 \<Rightarrow> 's \<Rightarrow> 'a list \<Rightarrow>
     (cxx_exn + ('a list \<times> 's)) option" where
  "batch_loop cfg body op_index s prepared =
     (if global_op cfg op_index \<ge> total_ops cfg then Some (Inr (prepared, s))
      else case body (global_op cfg op_index) op_index s of
             Inl e \<Rightarrow> Some (Inl e)
           | Inr (x, s') \<Rightarrow> batch_loop cfg body (op_index + 1) s' (prepared @ [x]))"

definition want_hot :: "int \<Rightarrow> u64 \<Rightarrow> bool" where
  "want_hot pct g \<longleftrightarrow> pct \<ge> 100 \<or> unat g mod 100 < nat pct"

record Cursors =
  hot_cursor :: u64
  cold_cursor :: u64
  planned_hot_ops :: u64

definition Cursors_init :: Cursors where
  "Cursors_init = \<lparr>hot_cursor = 0, cold_cursor = 0, planned_hot_ops = 0\<rparr>"

subsection \<open>Writes\<close>

record PreparedBenchmarkWrite =
  target_head :: nat
  write_key :: string
  write_value :: string

definition take_hot :: "nat list \<Rightarrow> Cursors \<Rightarrow> nat \<times> Cursors" where
  "take_hot hot_key_indices s =
     (hot_key_indices ! (unat (hot_cursor s) mod length hot_key_indices),
      s\<lparr>hot_cursor := hot_cursor s + 1, planned_hot_ops := planned_hot_ops s + 1\<rparr>)"

definition take_cold :: "nat list \<Rightarrow> Cursors \<Rightarrow> nat \<times> Cursors" where
  "take_cold cold_key_indices s =
     (cold_key_indices ! (unat (cold_cursor s) mod length cold_key_indices),
      s\<lparr>cold_cursor := cold_cursor s + 1\<rparr>)"

definition mixed_key :: "bool \<Rightarrow> nat list \<Rightarrow> nat list \<Rightarrow> Cursors \<Rightarrow> cxx_exn + (nat \<times> Cursors)" where
  "mixed_key hot hot_key_indices cold_key_indices s =
     (if hot \<and> hot_key_indices \<noteq> [] then Inr (take_hot hot_key_indices s)
      else if \<not> hot \<and> cold_key_indices \<noteq> [] then Inr (take_cold cold_key_indices s)
      else if hot_key_indices \<noteq> [] then Inr (take_hot hot_key_indices s)
      else if cold_key_indices \<noteq> [] then Inr (take_cold cold_key_indices s)
      else Inl (Runtime_error ''bench-write prepare failed: no key candidates for CROWN hotspot mix''))"

definition write_target :: "Topology \<Rightarrow> string \<Rightarrow> cxx_exn + nat" where
  "write_target topo key =
     (if topo_mode topo = PB_CROWN
      then (case crown_head_for topo key of
              None \<Rightarrow> Inl (Runtime_error (''bench-write prepare failed: no CROWN head for key=''
                        @ CHR 0x27 # key @ [CHR 0x27]))
            | Some h \<Rightarrow> Inr h)
      else (case topo_head topo of
              None \<Rightarrow> Inl (Runtime_error ''bench-write prepare failed: no head node in topology'')
            | Some h \<Rightarrow> Inr h))"

definition bench_value :: "BenchmarkRunConfig \<Rightarrow> u64 \<Rightarrow> string" where
  "bench_value cfg op_index =
     value_prefix cfg @ to_string_int (client_index cfg) @ ''-'' @ to_string_nat (unat op_index)"

text \<open>\<open>mix\<close> is the pair of index lists when the hotspot is enabled.\<close>

definition write_body ::
    "Topology \<Rightarrow> BenchmarkRunConfig \<Rightarrow> string list \<Rightarrow> (nat list \<times> nat list) option \<Rightarrow>
     u64 \<Rightarrow> u64 \<Rightarrow> Cursors \<Rightarrow> cxx_exn + (PreparedBenchmarkWrite \<times> Cursors)" where
  "write_body topo cfg keys mix g op_index s =
     (case (case mix of
              Some (hot_key_indices, cold_key_indices) \<Rightarrow>
                map_sum id (\<lambda>(key_idx, s). (keys ! key_idx, s))
                  (mixed_key (want_hot (crown_hot_head_pct cfg) g) hot_key_indices cold_key_indices s)
            | None \<Rightarrow> map_sum id (\<lambda>key. (key, s)) (benchmark_select_key_round_robin keys g)) of
        Inl e \<Rightarrow> Inl e
      | Inr (key, s) \<Rightarrow>
          (case write_target topo key of
             Inl e \<Rightarrow> Inl e
           | Inr h \<Rightarrow> Inr (\<lparr>target_head = h, write_key = key, write_value = bench_value cfg op_index\<rparr>, s)))"

text \<open>The indices of the keys whose head has the id \<open>hot_head_id\<close>, and of the others that have a head.\<close>

definition node_id_at :: "Topology \<Rightarrow> nat option \<Rightarrow> int option" where
  "node_id_at topo ptr = map_option (\<lambda>i. ns_id (topo_nodes topo ! i)) ptr"

definition hotspot_mix :: "Topology \<Rightarrow> string list \<Rightarrow> cxx_exn + (nat list \<times> nat list)" where
  "hotspot_mix topo keys =
     (case node_id_at topo (crown_head_for topo (hd keys)) of
        None \<Rightarrow> Inl (Runtime_error ''bench-write prepare failed: unable to resolve CROWN hotspot head'')
      | Some hot_head_id \<Rightarrow>
          (let head_id = (\<lambda>i. node_id_at topo (crown_head_for topo (keys ! i)));
               hot = filter (\<lambda>i. head_id i = Some hot_head_id) [0..<length keys];
               cold = filter (\<lambda>i. head_id i \<noteq> None \<and> head_id i \<noteq> Some hot_head_id) [0..<length keys]
           in if hot = []
              then Inl (Runtime_error ''bench-write prepare failed: no keys map to selected CROWN hotspot head'')
              else Inr (hot, cold)))"

definition benchmark_prepare_write_batch ::
    "Topology \<Rightarrow> BenchmarkRunConfig \<Rightarrow> (cxx_exn + (PreparedBenchmarkWrite list \<times> Cursors)) option" where
  "benchmark_prepare_write_batch topo cfg =
     (let keys = benchmark_build_keyset (key_prefix cfg) (nat (key_count cfg));
          crown_hotspot_enabled = (topo_mode topo = PB_CROWN \<and> crown_hot_head_pct cfg > 0)
      in case (if crown_hotspot_enabled then map_sum id Some (hotspot_mix topo keys) else Inr None) of
           Inl e \<Rightarrow> Some (Inl e)
         | Inr mix \<Rightarrow> batch_loop cfg (write_body topo cfg keys mix) 0 Cursors_init [])"

subsection \<open>Reads\<close>

definition benchmark_select_craq_node_id :: "Topology \<Rightarrow> u64 \<Rightarrow> int \<Rightarrow> int" where
  "benchmark_select_craq_node_id topo operation_index preferred_node_id =
     (if topo_mode topo \<noteq> PB_CRAQ \<or> topo_nodes topo = [] then -1
      else if preferred_node_id \<noteq> -1
      then (if find_node preferred_node_id 0 (topo_nodes topo) \<noteq> None then preferred_node_id else -1)
      else ns_id (topo_nodes topo ! (unat operation_index mod length (topo_nodes topo))))"

record PreparedBenchmarkRead =
  read_node :: nat
  read_key :: string

text \<open>The key with index 0 is the hot one; \<open>cold\<close> are the indices of the others.\<close>

definition read_key_index :: "bool \<Rightarrow> nat list \<Rightarrow> Cursors \<Rightarrow> nat \<times> Cursors" where
  "read_key_index hot cold_key_indices s =
     (if hot \<or> cold_key_indices = [] then (0, s\<lparr>planned_hot_ops := planned_hot_ops s + 1\<rparr>)
      else take_cold cold_key_indices s)"

definition read_body ::
    "(u64 \<Rightarrow> nat) \<Rightarrow> Topology \<Rightarrow> BenchmarkRunConfig \<Rightarrow> string list \<Rightarrow> nat list \<Rightarrow>
     u64 \<Rightarrow> u64 \<Rightarrow> Cursors \<Rightarrow> cxx_exn + (PreparedBenchmarkRead \<times> Cursors)" where
  "read_body random_index topo cfg keys cold g op_index s =
     (case (if read_hot_key_pct cfg > 0
            then (let (i, s) = read_key_index (want_hot (read_hot_key_pct cfg) g) cold s
                  in Inr (keys ! i, s))
            else map_sum id (\<lambda>key. (key, s)) (benchmark_select_key_round_robin keys g)) of
        Inl e \<Rightarrow> Inl e
      | Inr (key, s) \<Rightarrow>
          (let wanted = (if topo_mode topo = PB_CRAQ
                         then benchmark_select_craq_node_id topo g (craq_node_id cfg) else -1)
           in case resolve_read_target (random_index op_index) topo key wanted of
                None \<Rightarrow> Inl (Runtime_error (''bench-read prepare failed: no target for key=''
                          @ CHR 0x27 # key @ [CHR 0x27]))
              | Some t \<Rightarrow> Inr (\<lparr>read_node = t, read_key = key\<rparr>, s)))"

definition benchmark_prepare_read_batch ::
    "(u64 \<Rightarrow> nat) \<Rightarrow> Topology \<Rightarrow> BenchmarkRunConfig \<Rightarrow>
     (cxx_exn + (PreparedBenchmarkRead list \<times> Cursors)) option" where
  "benchmark_prepare_read_batch random_index topo cfg =
     (let keys = benchmark_build_keyset (key_prefix cfg) (nat (key_count cfg));
          cold = (if read_hot_key_pct cfg > 0 then filter (\<lambda>i. i \<noteq> 0) [0..<length keys] else [])
      in batch_loop cfg (read_body random_index topo cfg keys cold) 0 Cursors_init [])"

subsection \<open>The operations of a client\<close>

definition batch_size :: "nat \<Rightarrow> nat \<Rightarrow> nat \<Rightarrow> nat" where
  "batch_size ops ci nc = (ops - ci + nc - 1) div nc"

text \<open>The global operation numbers of client \<open>ci\<close> of \<open>nc\<close>.\<close>

definition batch_ops :: "nat \<Rightarrow> nat \<Rightarrow> nat \<Rightarrow> nat list" where
  "batch_ops ops ci nc = map (\<lambda>j. ci + nc * j) [0..<batch_size ops ci nc]"

lemma batch_size_less:
  assumes "0 < nc" "ci < nc"
  shows "j < batch_size ops ci nc \<longleftrightarrow> ci + nc * j < ops"
proof -
  have "j < batch_size ops ci nc \<longleftrightarrow> Suc j \<le> (ops - ci + nc - 1) div nc" by (auto simp: batch_size_def)
  also have "\<dots> \<longleftrightarrow> Suc j * nc \<le> ops - ci + nc - 1"
    using assms(1) by (simp add: less_eq_div_iff_mult_less_eq)
  also have "\<dots> \<longleftrightarrow> ci + nc * j < ops" using assms by (auto simp: algebra_simps)
  finally show ?thesis .
qed

lemma batch_ops_set: "0 < nc \<Longrightarrow> ci < nc \<Longrightarrow> set (batch_ops ops ci nc) = {g. g < ops \<and> g mod nc = ci}"
proof -
  assume a: "0 < nc" "ci < nc"
  have "g \<in> set (batch_ops ops ci nc)" if g: "g < ops" "g mod nc = ci" for g
  proof -
    have "g = ci + nc * (g div nc)" using g(2) mod_mult_div_eq [of g nc] by simp
    then show ?thesis
      using batch_size_less [OF a, of "g div nc" ops] g(1) by (force simp: batch_ops_def)
  qed
  then show ?thesis using a by (auto simp: batch_ops_def batch_size_less [OF a])
qed

lemma batch_ops_distinct: "0 < nc \<Longrightarrow> distinct (batch_ops ops ci nc)"
  by (auto simp: batch_ops_def distinct_map inj_on_def)

subsection \<open>The loop runs its body on these operations\<close>

fun fold_ops ::
    "(u64 \<Rightarrow> u64 \<Rightarrow> 's \<Rightarrow> cxx_exn + ('a \<times> 's)) \<Rightarrow> (u64 \<times> u64) list \<Rightarrow> 's \<Rightarrow> 'a list \<Rightarrow>
     cxx_exn + ('a list \<times> 's)" where
  "fold_ops body [] s prepared = Inr (prepared, s)"
| "fold_ops body ((g, i) # ops) s prepared =
     (case body g i s of
        Inl e \<Rightarrow> Inl e
      | Inr (x, s') \<Rightarrow> fold_ops body ops s' (prepared @ [x]))"

definition cfg_ops :: "BenchmarkRunConfig \<Rightarrow> nat list" where
  "cfg_ops cfg = batch_ops (unat (total_ops cfg)) (nat (client_index cfg)) (nat (num_clients cfg))"

definition loop_ops :: "BenchmarkRunConfig \<Rightarrow> nat \<Rightarrow> (u64 \<times> u64) list" where
  "loop_ops cfg j =
     map (\<lambda>i. (word_of_nat (cfg_ops cfg ! i), word_of_nat i)) [j..<length (cfg_ops cfg)]"

definition ops_fit :: "BenchmarkRunConfig \<Rightarrow> bool" where
  "ops_fit cfg \<longleftrightarrow> 0 \<le> client_index cfg \<and> client_index cfg < num_clients cfg \<and>
     unat (total_ops cfg) + nat (num_clients cfg) \<le> 2 ^ 64"

lemma length_cfg_ops:
  "length (cfg_ops cfg) = batch_size (unat (total_ops cfg)) (nat (client_index cfg)) (nat (num_clients cfg))"
  by (simp add: cfg_ops_def batch_ops_def)

lemma cfg_ops_nth:
  "j < length (cfg_ops cfg) \<Longrightarrow> cfg_ops cfg ! j = nat (client_index cfg) + nat (num_clients cfg) * j"
  by (simp add: cfg_ops_def batch_ops_def)

lemma cfg_ops_less:
  assumes "ops_fit cfg"
  shows "j < length (cfg_ops cfg) \<longleftrightarrow>
    nat (client_index cfg) + nat (num_clients cfg) * j < unat (total_ops cfg)"
  unfolding length_cfg_ops using assms by (intro batch_size_less) (auto simp: ops_fit_def)

lemma global_op_nat:
  assumes "ops_fit cfg"
  shows "global_op cfg (word_of_nat j) = word_of_nat (nat (client_index cfg) + nat (num_clients cfg) * j)"
proof -
  have "word_of_int (client_index cfg) = (word_of_nat (nat (client_index cfg)) :: u64)"
    "word_of_int (num_clients cfg) = (word_of_nat (nat (num_clients cfg)) :: u64)"
    using assms by (simp_all add: ops_fit_def of_nat_nat)
  then show ?thesis by (simp add: global_op_def)
qed

lemma global_op_bound:
  assumes "ops_fit cfg" "j \<le> length (cfg_ops cfg)"
  shows "unat (global_op cfg (word_of_nat j)) = nat (client_index cfg) + nat (num_clients cfg) * j"
proof -
  have "nat (client_index cfg) + nat (num_clients cfg) * j < unat (total_ops cfg) + nat (num_clients cfg)"
  proof (cases j)
    case 0
    then show ?thesis using assms(1) by (auto simp: ops_fit_def)
  next
    case (Suc i)
    then show ?thesis using cfg_ops_less [OF assms(1), of i] assms(2) by simp
  qed
  then have "nat (client_index cfg) + nat (num_clients cfg) * j < 2 ^ 64"
    using assms(1) by (simp add: ops_fit_def)
  from unat_of_nat_u64 [OF this] show ?thesis by (simp only: global_op_nat [OF assms(1)])
qed

lemma batch_loop_ops:
  assumes "ops_fit cfg" "j \<le> length (cfg_ops cfg)"
  shows "batch_loop cfg body (word_of_nat j) s prepared = Some (fold_ops body (loop_ops cfg j) s prepared)"
  using assms(2)
proof (induction "length (cfg_ops cfg) - j" arbitrary: j s prepared)
  case 0
  then have j: "j = length (cfg_ops cfg)" by simp
  have "total_ops cfg \<le> global_op cfg (word_of_nat j)"
    using cfg_ops_less [OF assms(1), of j] j global_op_bound [OF assms(1), of j]
    by (simp add: word_le_nat_alt)
  then show ?case by (subst batch_loop.simps) (simp add: loop_ops_def j)
next
  case (Suc d)
  then have j: "j < length (cfg_ops cfg)" "d = length (cfg_ops cfg) - Suc j" "Suc j \<le> length (cfg_ops cfg)"
    by auto
  have less: "\<not> total_ops cfg \<le> global_op cfg (word_of_nat j)"
    using cfg_ops_less [OF assms(1), of j] j(1) global_op_bound [OF assms(1), of j]
    by (simp add: word_le_nat_alt)
  have ops: "loop_ops cfg j = (global_op cfg (word_of_nat j), word_of_nat j) # loop_ops cfg (Suc j)"
    using j(1) by (simp add: loop_ops_def upt_conv_Cons cfg_ops_nth global_op_nat [OF assms(1)])
  have next_op: "word_of_nat j + 1 = (word_of_nat (Suc j) :: u64)" by simp
  note ih = Suc.hyps(1) [OF j(2,3), folded next_op]
  show ?case
    unfolding ops fold_ops.simps
    by (subst batch_loop.simps)
      (simp add: less ih split: sum.split prod.split)
qed

text \<open>A body that never throws prepares one operation after the other.\<close>

lemma fold_ops_all:
  assumes "\<And>g i s. (g, i) \<in> set ops \<Longrightarrow> \<exists>x s'. body g i s = Inr (x, s') \<and> P g i x"
  shows "\<exists>xs s'. fold_ops body ops s prepared = Inr (prepared @ xs, s') \<and>
    list_all2 (\<lambda>(g, i) x. P g i x) ops xs"
  using assms
proof (induction ops arbitrary: s prepared)
  case (Cons op ops)
  obtain g i where op: "op = (g, i)" by force
  obtain x s' where body: "body g i s = Inr (x, s')" "P g i x"
    using Cons.prems [of g i s] op by auto
  obtain xs s'' where "fold_ops body ops s' (prepared @ [x]) = Inr ((prepared @ [x]) @ xs, s'')"
    "list_all2 (\<lambda>(g, i) x. P g i x) ops xs"
    using Cons.IH [of s' "prepared @ [x]"] Cons.prems by (meson list.set_intros(2))
  then show ?case using body op by auto
qed simp

lemma batch_loop_all:
  assumes fit: "ops_fit cfg"
    and body: "\<And>g i s. \<exists>x s'. body g i s = Inr (x, s') \<and> P g i x"
  shows "\<exists>xs s'. batch_loop cfg body 0 s [] = Some (Inr (xs, s')) \<and> length xs = length (cfg_ops cfg) \<and>
    (\<forall>j < length xs. P (word_of_nat (cfg_ops cfg ! j)) (word_of_nat j) (xs ! j))"
proof -
  obtain xs s' where xs: "fold_ops body (loop_ops cfg 0) s [] = Inr ([] @ xs, s')"
    "list_all2 (\<lambda>(g, i) x. P g i x) (loop_ops cfg 0) xs"
    using fold_ops_all [of "loop_ops cfg 0" body P s "[]"] body by blast
  have "batch_loop cfg body 0 s [] = Some (Inr (xs, s'))"
    using batch_loop_ops [OF fit, of 0 body s "[]"] xs(1) by simp
  moreover have len: "length xs = length (cfg_ops cfg)"
    using list_all2_lengthD [OF xs(2)] by (simp add: loop_ops_def)
  moreover have "P (word_of_nat (cfg_ops cfg ! j)) (word_of_nat j) (xs ! j)" if "j < length xs" for j
    using list_all2_nthD2 [OF xs(2) that] that len by (simp add: loop_ops_def)
  ultimately show ?thesis by blast
qed

subsection \<open>What is prepared\<close>

lemma cfg_ops_unat:
  assumes "ops_fit cfg" "j < length (cfg_ops cfg)"
  shows "unat (word_of_nat (cfg_ops cfg ! j) :: u64) = cfg_ops cfg ! j"
  using global_op_bound [OF assms(1), of j] assms(2)
  by (simp add: global_op_nat [OF assms(1)] cfg_ops_nth [OF assms(2)])

lemma cfg_index_unat:
  assumes "ops_fit cfg" "j < length (cfg_ops cfg)"
  shows "unat (word_of_nat j :: u64) = j"
proof (rule unat_of_nat_u64)
  have "0 < num_clients cfg" using assms(1) by (auto simp: ops_fit_def)
  then have "1 \<le> nat (num_clients cfg)" by simp
  then have "1 * j \<le> nat (num_clients cfg) * j" by (rule mult_le_mono1)
  moreover have "nat (client_index cfg) + nat (num_clients cfg) * j < unat (total_ops cfg)"
    using cfg_ops_less [OF assms(1)] assms(2) by simp
  moreover note unat_u64_less [of "total_ops cfg"]
  ultimately have "j < 18446744073709551616" by linarith
  then show "j < 2 ^ 64" by simp
qed

definition routable :: "Topology \<Rightarrow> bool" where
  "routable topo \<longleftrightarrow> (\<forall>key. resolve_write_target topo key \<noteq> None)"

lemma write_target_resolved:
  "resolve_write_target topo key = Some h \<Longrightarrow> write_target topo key = Inr h"
  by (auto simp: resolve_write_target_def write_target_def split: if_splits)

lemma length_keyset [simp]: "length (benchmark_build_keyset prefix n) = n"
  by (simp add: benchmark_build_keyset_def)

lemma nth_keyset [simp]: "i < n \<Longrightarrow> benchmark_build_keyset prefix n ! i = prefix @ to_string_nat i"
  by (simp add: benchmark_build_keyset_def benchmark_key_for_index_def)

definition prepared_write :: "Topology \<Rightarrow> BenchmarkRunConfig \<Rightarrow> u64 \<Rightarrow> PreparedBenchmarkWrite \<Rightarrow> bool" where
  "prepared_write topo cfg i w \<longleftrightarrow>
     resolve_write_target topo (write_key w) = Some (target_head w) \<and>
     write_key w \<in> set (benchmark_build_keyset (key_prefix cfg) (nat (key_count cfg))) \<and>
     write_value w = bench_value cfg i"

lemma write_body_round_robin:
  assumes "routable topo" "0 < key_count cfg"
  shows "\<exists>w s'. write_body topo cfg (benchmark_build_keyset (key_prefix cfg) (nat (key_count cfg))) None g i s
      = Inr (w, s') \<and> prepared_write topo cfg i w \<and>
    write_key w = key_prefix cfg @ to_string_nat (unat g mod nat (key_count cfg))"
proof -
  let ?keys = "benchmark_build_keyset (key_prefix cfg) (nat (key_count cfg))"
  let ?key = "key_prefix cfg @ to_string_nat (unat g mod nat (key_count cfg))"
  have n: "0 < nat (key_count cfg)" using assms(2) by simp
  then have ix: "unat g mod nat (key_count cfg) < nat (key_count cfg)" by simp
  have ne: "?keys \<noteq> []" using n by (simp flip: length_greater_0_conv)
  have sel: "benchmark_select_key_round_robin ?keys g = Inr ?key"
    using ne ix by (simp add: benchmark_select_key_round_robin_def)
  have mem: "?key \<in> set ?keys"
    using nth_mem [of "unat g mod nat (key_count cfg)" ?keys] ix by simp
  obtain h where "resolve_write_target topo ?key = Some h" using assms(1) by (auto simp: routable_def)
  then show ?thesis
    using sel mem write_target_resolved by (simp add: write_body_def prepared_write_def)
qed

lemma mixed_key_member:
  assumes "hot \<noteq> []"
  shows "\<exists>i s'. mixed_key b hot cold s = Inr (i, s') \<and>
    (if b \<or> cold = [] then i \<in> set hot else i \<in> set cold)"
proof -
  have hot: "hot ! (unat (hot_cursor s) mod length hot) \<in> set hot" using assms by simp
  have cold: "cold \<noteq> [] \<Longrightarrow> cold ! (unat (cold_cursor s) mod length cold) \<in> set cold" by simp
  show ?thesis
    by (cases "b \<or> cold = []") (use assms hot cold in \<open>auto simp: mixed_key_def take_hot_def take_cold_def\<close>)
qed

lemma hotspot_mix_Inr:
  assumes "hotspot_mix topo keys = Inr (hot, cold)"
  obtains hid where "node_id_at topo (crown_head_for topo (hd keys)) = Some hid" "hot \<noteq> []"
    "\<And>i. i \<in> set hot \<Longrightarrow> i < length keys \<and> node_id_at topo (crown_head_for topo (keys ! i)) = Some hid"
    "\<And>i. i \<in> set cold \<Longrightarrow> i < length keys \<and> node_id_at topo (crown_head_for topo (keys ! i)) \<noteq> Some hid"
proof -
  from assms obtain hid where hid: "node_id_at topo (crown_head_for topo (hd keys)) = Some hid"
    by (auto simp: hotspot_mix_def split: option.splits)
  show thesis
    by (rule that [OF hid]) (use assms hid in \<open>auto simp: hotspot_mix_def Let_def split: if_splits\<close>)
qed

text \<open>With a hotspot: the head of the first key takes exactly the operations that want it.\<close>

lemma write_body_hotspot:
  assumes rt: "routable topo" and crown: "topo_mode topo = PB_CROWN"
    and keys: "keys = benchmark_build_keyset (key_prefix cfg) (nat (key_count cfg))"
    and mix: "hotspot_mix topo keys = Inr (hot, cold)"
  shows "\<exists>w s'. write_body topo cfg keys (Some (hot, cold)) g i s = Inr (w, s') \<and> prepared_write topo cfg i w \<and>
    (node_id_at topo (Some (target_head w)) = node_id_at topo (crown_head_for topo (hd keys))
      \<longleftrightarrow> want_hot (crown_hot_head_pct cfg) g \<or> cold = [])"
proof -
  let ?b = "want_hot (crown_hot_head_pct cfg) g"
  obtain hid where hid: "node_id_at topo (crown_head_for topo (hd keys)) = Some hid" "hot \<noteq> []"
    "\<And>i. i \<in> set hot \<Longrightarrow> i < length keys \<and> node_id_at topo (crown_head_for topo (keys ! i)) = Some hid"
    "\<And>i. i \<in> set cold \<Longrightarrow> i < length keys \<and> node_id_at topo (crown_head_for topo (keys ! i)) \<noteq> Some hid"
    by (rule hotspot_mix_Inr [OF mix]) (rule that)
  obtain ix s' where ix: "mixed_key ?b hot cold s = Inr (ix, s')"
    "if ?b \<or> cold = [] then ix \<in> set hot else ix \<in> set cold"
    using mixed_key_member [OF hid(2)] by blast
  have len: "ix < length keys" using ix(2) hid(3,4) by (auto split: if_splits)
  obtain h where h: "resolve_write_target topo (keys ! ix) = Some h" using rt by (auto simp: routable_def)
  then have "crown_head_for topo (keys ! ix) = Some h" using crown by (simp add: resolve_write_target_def)
  then have "node_id_at topo (Some h) = Some hid \<longleftrightarrow> ?b \<or> cold = []"
    using ix(2) hid(3) [of ix] hid(4) [of ix] by (auto split: if_splits)
  then show ?thesis
    using ix(1) h write_target_resolved [OF h] nth_mem [OF len] hid(1)
    by (auto simp: write_body_def prepared_write_def keys)
qed

lemma write_batch_round_robin:
  assumes "ops_fit cfg" "0 < key_count cfg" "routable topo"
    "topo_mode topo \<noteq> PB_CROWN \<or> crown_hot_head_pct cfg \<le> 0"
  shows "\<exists>ws s. benchmark_prepare_write_batch topo cfg = Some (Inr (ws, s)) \<and>
    length ws = length (cfg_ops cfg) \<and>
    (\<forall>j < length ws. prepared_write topo cfg (word_of_nat j) (ws ! j) \<and>
      write_key (ws ! j) = key_prefix cfg @ to_string_nat (cfg_ops cfg ! j mod nat (key_count cfg)))"
proof -
  have plain: "\<not> (topo_mode topo = PB_CROWN \<and> 0 < crown_hot_head_pct cfg)" using assms(4) by auto
  obtain ws s where ws:
    "batch_loop cfg (write_body topo cfg (benchmark_build_keyset (key_prefix cfg) (nat (key_count cfg))) None)
      0 Cursors_init [] = Some (Inr (ws, s))" "length ws = length (cfg_ops cfg)"
    "\<forall>j < length ws. prepared_write topo cfg (word_of_nat j) (ws ! j) \<and>
      write_key (ws ! j) = key_prefix cfg @
        to_string_nat (unat (word_of_nat (cfg_ops cfg ! j) :: u64) mod nat (key_count cfg))"
    using batch_loop_all [OF assms(1), where P = "\<lambda>g i w. prepared_write topo cfg i w \<and>
        write_key w = key_prefix cfg @ to_string_nat (unat g mod nat (key_count cfg))"
        and s = Cursors_init and body = "write_body topo cfg
          (benchmark_build_keyset (key_prefix cfg) (nat (key_count cfg))) None"]
      write_body_round_robin [OF assms(3,2)] by blast
  have "benchmark_prepare_write_batch topo cfg = Some (Inr (ws, s))"
    using ws(1) plain by (auto simp: benchmark_prepare_write_batch_def Let_def)
  then show ?thesis using ws(2,3) cfg_ops_unat [OF assms(1)] by auto
qed

lemma write_batch_hotspot:
  assumes "ops_fit cfg" "routable topo" "topo_mode topo = PB_CROWN" "0 < crown_hot_head_pct cfg"
    and keys: "keys = benchmark_build_keyset (key_prefix cfg) (nat (key_count cfg))"
    and mix: "hotspot_mix topo keys = Inr (hot, cold)"
  shows "\<exists>ws s. benchmark_prepare_write_batch topo cfg = Some (Inr (ws, s)) \<and>
    length ws = length (cfg_ops cfg) \<and>
    (\<forall>j < length ws. prepared_write topo cfg (word_of_nat j) (ws ! j) \<and>
      (node_id_at topo (Some (target_head (ws ! j))) = node_id_at topo (crown_head_for topo (hd keys))
        \<longleftrightarrow> crown_hot_head_pct cfg \<ge> 100 \<or> cfg_ops cfg ! j mod 100 < nat (crown_hot_head_pct cfg) \<or> cold = []))"
proof -
  obtain ws s where ws:
    "batch_loop cfg (write_body topo cfg keys (Some (hot, cold))) 0 Cursors_init [] = Some (Inr (ws, s))"
    "length ws = length (cfg_ops cfg)"
    "\<forall>j < length ws. prepared_write topo cfg (word_of_nat j) (ws ! j) \<and>
      (node_id_at topo (Some (target_head (ws ! j))) = node_id_at topo (crown_head_for topo (hd keys))
        \<longleftrightarrow> want_hot (crown_hot_head_pct cfg) (word_of_nat (cfg_ops cfg ! j)) \<or> cold = [])"
    using batch_loop_all [OF assms(1), where P = "\<lambda>g i w. prepared_write topo cfg i w \<and>
        (node_id_at topo (Some (target_head w)) = node_id_at topo (crown_head_for topo (hd keys))
          \<longleftrightarrow> want_hot (crown_hot_head_pct cfg) g \<or> cold = [])"
        and s = Cursors_init and body = "write_body topo cfg keys (Some (hot, cold))"]
      write_body_hotspot [OF assms(2,3) keys mix] by blast
  have "benchmark_prepare_write_batch topo cfg = Some (Inr (ws, s))"
    using ws(1) assms(3,4) mix by (simp add: benchmark_prepare_write_batch_def Let_def keys)
  then show ?thesis
    using ws(2,3) cfg_ops_unat [OF assms(1)] by (auto simp: want_hot_def)
qed

text \<open>The values of a client carry its index and the number of the write: no two are equal.\<close>

lemma no_dash_in_digits: "CHR ''-'' \<notin> set (to_string_nat n)"
proof -
  have "\<not> is_digit 10 (CHR ''-'')" by (simp add: is_digit_def digit_value_def Let_def)
  then show ?thesis using to_string_nat_digits by blast
qed

lemma split_at_dash:
  "CHR ''-'' \<notin> set a \<Longrightarrow> CHR ''-'' \<notin> set b \<Longrightarrow> a @ CHR ''-'' # c = b @ CHR ''-'' # d \<Longrightarrow> a = b \<and> c = d"
  by (induction a arbitrary: b) (auto simp: Cons_eq_append_conv append_eq_Cons_conv)

lemma bench_value_inject:
  assumes "bench_value cfg i = bench_value cfg' i'" "value_prefix cfg = value_prefix cfg'"
    "0 \<le> client_index cfg" "0 \<le> client_index cfg'"
  shows "client_index cfg = client_index cfg' \<and> i = i'"
proof -
  from assms have "to_string_nat (nat (client_index cfg)) @ CHR ''-'' # to_string_nat (unat i)
    = to_string_nat (nat (client_index cfg')) @ CHR ''-'' # to_string_nat (unat i')"
    by (simp add: bench_value_def to_string_int_def)
  from split_at_dash [OF no_dash_in_digits no_dash_in_digits this]
  have "nat (client_index cfg) = nat (client_index cfg')" "unat i = unat i'"
    using inj_to_string_nat by (auto dest: injD)
  then show ?thesis using assms(3,4) by (simp add: word_unat_eq_iff)
qed

text \<open>
  With total_ops \<open>2^64 - 1\<close> (the text \<open>-1\<close> is accepted) and two clients, client 0 counts
  through the even numbers and wraps around: its loop never ends.
\<close>

lemma even_less_max:
  fixes w :: u64
  shows "2 * w < -1"
proof -
  have "2 * w \<noteq> -1"
  proof
    assume "2 * w = -1"
    then have "unat (2 * w) mod 2 = (2 ^ 64 - 1) mod 2" by (simp only: unat_minus_1_u64)
    then show False by (simp add: unat_word_ariths mod_mod_cancel)
  qed
  from order.not_eq_order_implies_strict [OF this word_order.extremum] show ?thesis .
qed

lemma batch_loop_returns_only:
  assumes "batch_loop cfg body i s prepared = Some r"
  shows "\<not> (total_ops cfg = -1 \<and> client_index cfg = 0 \<and> num_clients cfg = 2 \<and>
    (\<forall>g i s. \<exists>x s'. body g i s = Inr (x, s')))"
proof (induction cfg body i s prepared r rule: batch_loop.raw_induct)
  case 2
  show ?case by (rule assms)
next
  case (1 loop cfg body i s prepared r)
  show ?case
  proof
    assume a: "total_ops cfg = -1 \<and> client_index cfg = 0 \<and> num_clients cfg = 2 \<and>
      (\<forall>g i s. \<exists>x s'. body g i s = Inr (x, s'))"
    then have "\<not> total_ops cfg \<le> global_op cfg i"
      using even_less_max [of i] by (simp add: global_op_def)
    moreover obtain x s' where "body (global_op cfg i) i s = Inr (x, s')" using a by blast
    ultimately have "loop cfg body (i + 1) s' (prepared @ [x]) = Some r" using 1(2) by simp
    from 1(1) [OF this] a show False by blast
  qed
qed

lemma batch_loop_endless:
  assumes "total_ops cfg = -1" "client_index cfg = 0" "num_clients cfg = 2"
    "\<And>g i s. \<exists>x s'. body g i s = Inr (x, s')"
  shows "batch_loop cfg body i s prepared = None"
  using assms batch_loop_returns_only [of cfg body i s prepared]
  by (cases "batch_loop cfg body i s prepared") auto

end
