(* ===== verification/Client_Benchmark.thy ===== *)
theory Client_Benchmark
  imports Client_Requests Client_Batches
begin

section \<open>Benchmark runs (run\_bench\_write and run\_bench\_read of src/src/client/client.cpp)\<close>

text \<open>
  A run issues its prepared operations without waiting, collects one completion per call in
  any order, and a write run then waits until no write is pending; the listener handles acks
  all along, in the two steps of \<open>ack_pending\<close>. The state is what is left to issue, the calls in
  flight, the client and, once the run has returned, its summary; the steps of the threads are
  a relation. The loop of \<open>benchmark_wait_for_pending_acks\<close> only polls: it ends in a step that is
  enabled when nothing is pending.

  Lemmas: the counters of a finished run add up to the number of prepared operations, up to
  the acks that were taken and not counted before the window closed, and a write run cannot
  finish while one write is neither acknowledged nor failed.
\<close>

subsection \<open>Writes\<close>

record BenchWrite =
  bw_todo :: "PreparedBenchmarkWrite list"
  bw_calls :: "u64 list"
  bw_requests :: "(nat \<times> WriteRequest) list"
  bw_client :: Client
  bw_summary :: "ThroughputMetricsSummary option"

definition bench_write_start ::
    "int \<Rightarrow> PreparedBenchmarkWrite list \<Rightarrow> Client \<Rightarrow> BenchWrite" where
  "bench_write_start now prepared c =
     \<lparr>bw_todo = prepared, bw_calls = [], bw_requests = [],
      bw_client = benchmark_attach_metrics_state
        (benchmark_start_metrics_window now (ThroughputMetricsState_init now)) c,
      bw_summary = None\<rparr>"

text \<open>
  One turn of the issue loop. \<open>reader\<close> says whether \<open>AsyncWrite\<close> returned a reader; without one
  the write counts as failed at once.
\<close>

definition bench_issue :: "string \<Rightarrow> int \<Rightarrow> bool \<Rightarrow> PreparedBenchmarkWrite \<Rightarrow> BenchWrite \<Rightarrow> BenchWrite" where
  "bench_issue client_addr now reader w b =
     (let (request_id, c) = issue_write (write_key w) (write_value w) now (bw_client b);
          req = write_request (write_key w) (write_value w) client_addr request_id
      in if reader
         then b\<lparr>bw_client := c, bw_calls := bw_calls b @ [request_id],
                bw_requests := bw_requests b @ [(target_head w, req)]\<rparr>
         else b\<lparr>bw_client := write_failed request_id c\<rparr>)"

definition bench_complete :: "u64 \<Rightarrow> bool \<Rightarrow> Status \<Rightarrow> WriteResponse \<Rightarrow> BenchWrite \<Rightarrow> BenchWrite" where
  "bench_complete request_id ok status resp b =
     b\<lparr>bw_calls := remove1 request_id (bw_calls b),
       bw_client := (if \<not> ok \<or> \<not> Status_ok status \<or> \<not> wresp_success resp
                     then write_failed request_id (bw_client b) else bw_client b)\<rparr>"

text \<open>Stopping the window, summing up and detaching the metrics: the end of both runs.\<close>

definition close_window :: "Client \<Rightarrow> ThroughputMetricsSummary option \<times> Client" where
  "close_window c =
     (map_option (\<lambda>st. benchmark_build_summary (benchmark_stop_metrics_window st)) (metrics c),
      benchmark_detach_metrics_state c)"

inductive bench_write_step :: "string \<Rightarrow> BenchWrite \<Rightarrow> BenchWrite \<Rightarrow> bool" for client_addr :: string where
  bw_issue: "bw_todo b = w # ws \<Longrightarrow>
    bench_write_step client_addr b (bench_issue client_addr now reader w (b\<lparr>bw_todo := ws\<rparr>))"
| bw_complete: "bw_todo b = [] \<Longrightarrow> i \<in> set (bw_calls b) \<Longrightarrow>
    bench_write_step client_addr b (bench_complete i ok status resp b)"
| bw_ack: "bench_write_step client_addr b (b\<lparr>bw_client := ack_take i (bw_client b)\<rparr>)"
| bw_note: "i \<in> set (ack_threads (bw_client b)) \<Longrightarrow>
    bench_write_step client_addr b (b\<lparr>bw_client := ack_note i now (bw_client b)\<rparr>)"
| bw_return: "bw_summary b = None \<Longrightarrow> bw_todo b = [] \<Longrightarrow> bw_calls b = [] \<Longrightarrow>
    pending_write_count (bw_client b) = 0 \<Longrightarrow> close_window (bw_client b) = (summary, c) \<Longrightarrow>
    bench_write_step client_addr b (b\<lparr>bw_client := c, bw_summary := summary\<rparr>)"

inductive bench_write_reach :: "string \<Rightarrow> BenchWrite \<Rightarrow> BenchWrite \<Rightarrow> bool"
  for client_addr :: string and b0 :: BenchWrite where
  bw_start: "bench_write_reach client_addr b0 b0"
| bw_next: "bench_write_reach client_addr b0 b \<Longrightarrow> bench_write_step client_addr b b' \<Longrightarrow>
    bench_write_reach client_addr b0 b'"

text \<open>\<open>count\<close> writes were prepared; the books are kept until the run returns.\<close>

definition bench_books :: "u64 \<Rightarrow> nat \<Rightarrow> BenchWrite \<Rightarrow> bool" where
  "bench_books N count b \<longleftrightarrow>
     (\<exists>n f. books N n f (bw_client b) \<and> n + length (bw_todo b) = count \<and>
        f + length (bw_calls b) \<le> n)"

lemma bench_complete_frame [simp]:
  "bw_todo (bench_complete i ok status resp b) = bw_todo b"
  "bw_calls (bench_complete i ok status resp b) = remove1 i (bw_calls b)"
  "bw_summary (bench_complete i ok status resp b) = bw_summary b"
  by (simp_all add: bench_complete_def)

lemma bench_issue_summary [simp]: "bw_summary (bench_issue addr now reader w b) = bw_summary b"
  by (simp add: bench_issue_def split_beta)

lemma bench_booksI:
  "books N n f (bw_client b) \<Longrightarrow> n + length (bw_todo b) = count \<Longrightarrow> f + length (bw_calls b) \<le> n \<Longrightarrow>
    bench_books N count b"
  by (auto simp: bench_books_def)

lemma bench_booksE:
  assumes "bench_books N count b"
  obtains n f where "books N n f (bw_client b)" "n + length (bw_todo b) = count" "f + length (bw_calls b) \<le> n"
  using assms by (auto simp: bench_books_def)

lemma bench_books_issue:
  assumes "bench_books N count b" "bw_todo b = w # ws" "count < 2 ^ 64"
  shows "bench_books N count (bench_issue addr now reader w (b\<lparr>bw_todo := ws\<rparr>))"
proof -
  obtain n f where nf: "books N n f (bw_client b)" "n + length (bw_todo b) = count"
    "f + length (bw_calls b) \<le> n" by (rule bench_booksE [OF assms(1)])
  let ?c = "snd (issue_write (write_key w) (write_value w) now (bw_client b))"
  have ok: "books N (Suc n) f ?c"
    using books_issue [OF nf(1)] nf(2) assms(2,3) by simp
  have failed: "books N (Suc n) (Suc f) (write_failed i ?c)" for i
    using books_failure [OF ok] nf(2,3) assms(2,3) by simp
  show ?thesis
  proof (cases reader)
    case True
    then show ?thesis
      using ok nf(2,3) assms(2) by (intro bench_booksI [of N "Suc n" f]) (simp_all add: bench_issue_def split_beta)
  next
    case False
    then show ?thesis
      using failed nf(2,3) assms(2)
      by (intro bench_booksI [of N "Suc n" "Suc f"]) (simp_all add: bench_issue_def split_beta)
  qed
qed

lemma bench_books_complete:
  assumes "bench_books N count b" "i \<in> set (bw_calls b)" "count < 2 ^ 64"
  shows "bench_books N count (bench_complete i ok status resp b)"
proof -
  obtain n f where nf: "books N n f (bw_client b)" "n + length (bw_todo b) = count"
    "f + length (bw_calls b) \<le> n" by (rule bench_booksE [OF assms(1)])
  have len: "length (bw_calls b) = Suc (length (remove1 i (bw_calls b)))"
    using length_remove1 [of i "bw_calls b"] length_pos_if_in_set [OF assms(2)] assms(2) by simp
  have "f + 1 < 2 ^ 64" using nf(2,3) assms(3) len by linarith
  then have failed: "books N n (Suc f) (write_failed i (bw_client b))" by (rule books_failure [OF nf(1)])
  show ?thesis
  proof (cases "\<not> ok \<or> \<not> Status_ok status \<or> \<not> wresp_success resp")
    case True
    then show ?thesis
      using failed nf(2,3) len by (intro bench_booksI [of N n "Suc f"]) (auto simp: bench_complete_def)
  next
    case False
    then show ?thesis
      using nf len by (intro bench_booksI [of N n f]) (auto simp: bench_complete_def)
  qed
qed

lemma bench_books_client:
  assumes "bench_books N count b" "count < 2 ^ 64"
    and "\<And>n f. n < 2 ^ 64 \<Longrightarrow> books N n f (bw_client b) \<Longrightarrow> books N n f c"
  shows "bench_books N count (b\<lparr>bw_client := c\<rparr>)"
proof -
  obtain n f where nf: "books N n f (bw_client b)" "n + length (bw_todo b) = count"
    "f + length (bw_calls b) \<le> n" by (rule bench_booksE [OF assms(1)])
  then show ?thesis using assms(2,3) by (intro bench_booksI [of N n f]) simp_all
qed

text \<open>\<open>late\<close> acks were taken and not counted when the window closed.\<close>

definition bench_totals :: "nat \<Rightarrow> nat \<Rightarrow> ThroughputMetricsSummary \<Rightarrow> bool" where
  "bench_totals count late sm \<longleftrightarrow>
     unat (sum_writes_sent sm) = count \<and>
     unat (sum_acks_received sm) + late \<le> count \<and>
     count \<le> unat (sum_acks_received sm) + late + unat (sum_write_rpc_failures sm)"

lemma bench_write_return:
  assumes "bench_books N count b" "bw_todo b = []" "bw_calls b = []" "pending_write_count (bw_client b) = 0"
  obtains sm where "close_window (bw_client b) = (Some sm, benchmark_detach_metrics_state (bw_client b))"
    "bench_totals count (length (ack_threads (bw_client b))) sm" "pending_writes (bw_client b) = Map.empty"
proof -
  obtain n f where nf: "books N n f (bw_client b)" "n + length (bw_todo b) = count"
    "f + length (bw_calls b) \<le> n" by (rule bench_booksE [OF assms(1)])
  then obtain st where st: "books_of N n f (bw_client b) st" by (auto simp: books_def)
  have "unsettled (bw_client b) = length (ack_threads (bw_client b))"
    using assms(4) by (simp add: unsettled_def pending_write_count_def)
  then have "bench_totals count (length (ack_threads (bw_client b)))
      (benchmark_build_summary (benchmark_stop_metrics_window st))"
    using st nf(2) assms(2)
    by (simp add: bench_totals_def books_of_def benchmark_build_summary_def benchmark_stop_metrics_window_def)
  moreover have "pending_writes (bw_client b) = Map.empty"
    using assms(4) books_finite [OF st] by (auto simp: pending_write_count_def)
  ultimately show thesis using that st by (simp add: close_window_def books_of_def)
qed

lemma ack_frame:
  "pending_writes c = Map.empty \<Longrightarrow> ack_take i c = c"
  "pending_writes (ack_note i now c) = pending_writes c"
  by (simp_all add: ack_take_def ack_note_def remove_pending_request_def benchmark_note_write_ack_def
      with_metrics_def split: option.split)

definition bench_write_inv :: "u64 \<Rightarrow> nat \<Rightarrow> BenchWrite \<Rightarrow> bool" where
  "bench_write_inv N count b \<longleftrightarrow>
     (if bw_summary b = None then bench_books N count b
      else bw_todo b = [] \<and> bw_calls b = [] \<and> pending_writes (bw_client b) = Map.empty)"

lemma bench_write_reach_inv:
  assumes "bench_write_reach addr (bench_write_start now prepared c) b"
    "pending_writes c = Map.empty" "ack_threads c = []" "length prepared < 2 ^ 64"
  shows "bench_write_inv (next_request_id c) (length prepared) b"
  using assms(1)
proof induction
  case bw_start
  show ?case
    using books_start [OF assms(2,3)] unfolding bench_write_start_def bench_write_inv_def
    by (simp, intro bench_booksI [of _ 0 0]) simp_all
next
  case (bw_next b b')
  from bw_next(2) show ?case
  proof cases
    case (bw_issue w ws now reader)
    have "bw_summary b' = bw_summary b" by (simp add: bw_issue(1))
    then show ?thesis
      using bw_next(3) bench_books_issue [OF _ bw_issue(2) assms(4)] bw_issue
      by (auto simp: bench_write_inv_def split: if_splits)
  next
    case (bw_complete i ok status resp)
    have "bw_summary b' = bw_summary b" by (simp add: bw_complete(1))
    then show ?thesis
      using bw_next(3) bench_books_complete [OF _ bw_complete(3) assms(4)] bw_complete
      by (auto simp: bench_write_inv_def split: if_splits)
  next
    case (bw_ack i)
    then show ?thesis
      using bw_next(3) bench_books_client [OF _ assms(4) books_take, of _ b _ i] ack_frame(1)
      by (auto simp: bench_write_inv_def split: if_splits)
  next
    case (bw_note i now)
    then show ?thesis
      using bw_next(3) bench_books_client [OF _ assms(4) books_note] ack_frame(2)
      by (auto simp: bench_write_inv_def split: if_splits)
  next
    case (bw_return summary c')
    have books: "bench_books (next_request_id c) (length prepared) b"
      using bw_next(3) bw_return by (simp add: bench_write_inv_def)
    obtain sm where sm: "close_window (bw_client b) = (Some sm, benchmark_detach_metrics_state (bw_client b))"
      "pending_writes (bw_client b) = Map.empty" by (rule bench_write_return [OF books bw_return(3-5)])
    then show ?thesis
      using bw_return(1,3,4,6) by (simp add: bench_write_inv_def benchmark_detach_metrics_state_def)
  qed
qed

text \<open>The summary of a run that returns.\<close>

lemma bench_write_summary:
  assumes "bench_write_reach addr (bench_write_start now prepared c) b" "bench_write_step addr b b'"
    "bw_summary b = None" "bw_summary b' = Some sm"
    "pending_writes c = Map.empty" "ack_threads c = []" "length prepared < 2 ^ 64"
  shows "bench_totals (length prepared) (length (ack_threads (bw_client b'))) sm"
    and "bw_todo b' = []" "bw_calls b' = []" "pending_writes (bw_client b') = Map.empty"
proof -
  have inv: "bench_write_inv (next_request_id c) (length prepared) b"
    by (rule bench_write_reach_inv [OF assms(1,5-7)])
  have "bench_write_inv (next_request_id c) (length prepared) b'"
    by (rule bench_write_reach_inv [OF bench_write_reach.bw_next [OF assms(1,2)] assms(5-7)])
  then show "bw_todo b' = []" "bw_calls b' = []" "pending_writes (bw_client b') = Map.empty"
    using assms(4) by (simp_all add: bench_write_inv_def)
  show "bench_totals (length prepared) (length (ack_threads (bw_client b'))) sm"
    using assms(2)
  proof cases
    case (bw_return summary c')
    have "bench_books (next_request_id c) (length prepared) b"
      using inv assms(3) by (simp add: bench_write_inv_def)
    then obtain sm' where "close_window (bw_client b) = (Some sm', benchmark_detach_metrics_state (bw_client b))"
      "bench_totals (length prepared) (length (ack_threads (bw_client b))) sm'"
      by (rule bench_write_return [OF _ bw_return(3-5)])
    then show ?thesis
      using bw_return(1,6) assms(4) by (simp add: benchmark_detach_metrics_state_def)
  qed (use assms(3,4) in simp_all)
qed

subsection \<open>Reads\<close>

text \<open>
  First one write per key, each waiting for its reply (\<open>br_seed_call\<close> is the one that is out), and
  a wait for their acks; then the measured reads.
\<close>

record BenchRead =
  br_seeds :: "(string \<times> string) list"
  br_seed_call :: "u64 option"
  br_measuring :: bool
  br_todo :: "PreparedBenchmarkRead list"
  br_calls :: "PreparedBenchmarkRead list"
  br_client :: Client
  br_summary :: "ThroughputMetricsSummary option"

definition bench_seeds :: "BenchmarkRunConfig \<Rightarrow> (string \<times> string) list" where
  "bench_seeds cfg =
     (let keys = benchmark_build_keyset (key_prefix cfg) (nat (key_count cfg))
      in map (\<lambda>i. (keys ! i, value_prefix cfg @ ''seed-'' @ to_string_int (client_index cfg) @ ''-''
                  @ to_string_nat i)) [0..<length keys])"

definition bench_read_start :: "BenchmarkRunConfig \<Rightarrow> Client \<Rightarrow> BenchRead" where
  "bench_read_start cfg c =
     \<lparr>br_seeds = bench_seeds cfg, br_seed_call = None, br_measuring = False, br_todo = [],
      br_calls = [], br_client = c, br_summary = None\<rparr>"

definition bench_seed :: "Topology \<Rightarrow> string \<Rightarrow> int \<Rightarrow> string \<Rightarrow> string \<Rightarrow> BenchRead \<Rightarrow> BenchRead" where
  "bench_seed topo client_addr now key value b =
     (let (call, c) = do_write_begin topo key value client_addr now (br_client b)
      in b\<lparr>br_client := c, br_seed_call := map_option (\<lambda>(h, req). wreq_request_id req) call\<rparr>)"

definition bench_measure :: "int \<Rightarrow> PreparedBenchmarkRead list \<Rightarrow> BenchRead \<Rightarrow> BenchRead" where
  "bench_measure now prepared b =
     b\<lparr>br_measuring := True, br_todo := prepared,
       br_client := benchmark_attach_metrics_state
         (benchmark_start_metrics_window now (ThroughputMetricsState_init now)) (br_client b)\<rparr>"

definition bench_read_issue :: "bool \<Rightarrow> PreparedBenchmarkRead \<Rightarrow> BenchRead \<Rightarrow> BenchRead" where
  "bench_read_issue reader r b =
     (let c = benchmark_note_read_sent (br_client b)
      in if reader then b\<lparr>br_client := c, br_calls := br_calls b @ [r]\<rparr>
         else b\<lparr>br_client := benchmark_note_read_failure c\<rparr>)"

definition bench_read_complete :: "PreparedBenchmarkRead \<Rightarrow> bool \<Rightarrow> Status \<Rightarrow> BenchRead \<Rightarrow> BenchRead" where
  "bench_read_complete r ok status b =
     b\<lparr>br_calls := remove1 r (br_calls b),
       br_client := (if \<not> ok \<or> \<not> Status_ok status then benchmark_note_read_failure (br_client b)
                     else benchmark_note_read_success (br_client b))\<rparr>"

inductive bench_read_step ::
    "Topology \<Rightarrow> string \<Rightarrow> PreparedBenchmarkRead list \<Rightarrow> BenchRead \<Rightarrow> BenchRead \<Rightarrow> bool"
  for topo :: Topology and client_addr :: string and prepared :: "PreparedBenchmarkRead list" where
  br_seed: "br_seeds b = (key, value) # ss \<Longrightarrow> br_seed_call b = None \<Longrightarrow>
    bench_read_step topo client_addr prepared b
      (bench_seed topo client_addr now key value (b\<lparr>br_seeds := ss\<rparr>))"
| br_seed_reply: "br_seed_call b = Some i \<Longrightarrow>
    bench_read_step topo client_addr prepared b
      (b\<lparr>br_seed_call := None, br_client := snd (do_write_end i reply (br_client b))\<rparr>)"
| br_ack: "bench_read_step topo client_addr prepared b (b\<lparr>br_client := ack_take i (br_client b)\<rparr>)"
| br_note: "i \<in> set (ack_threads (br_client b)) \<Longrightarrow>
    bench_read_step topo client_addr prepared b (b\<lparr>br_client := ack_note i now (br_client b)\<rparr>)"
| br_measure: "\<not> br_measuring b \<Longrightarrow> br_seeds b = [] \<Longrightarrow> br_seed_call b = None \<Longrightarrow>
    pending_write_count (br_client b) = 0 \<Longrightarrow>
    bench_read_step topo client_addr prepared b (bench_measure now prepared b)"
| br_issue: "br_todo b = r # rs \<Longrightarrow>
    bench_read_step topo client_addr prepared b (bench_read_issue reader r (b\<lparr>br_todo := rs\<rparr>))"
| br_complete: "br_measuring b \<Longrightarrow> br_todo b = [] \<Longrightarrow> r \<in> set (br_calls b) \<Longrightarrow>
    bench_read_step topo client_addr prepared b (bench_read_complete r ok status b)"
| br_return: "br_measuring b \<Longrightarrow> br_summary b = None \<Longrightarrow> br_todo b = [] \<Longrightarrow> br_calls b = [] \<Longrightarrow>
    close_window (br_client b) = (summary, c) \<Longrightarrow>
    bench_read_step topo client_addr prepared b (b\<lparr>br_client := c, br_summary := summary\<rparr>)"

inductive bench_read_reach ::
    "Topology \<Rightarrow> string \<Rightarrow> PreparedBenchmarkRead list \<Rightarrow> BenchRead \<Rightarrow> BenchRead \<Rightarrow> bool"
  for topo :: Topology and client_addr :: string and prepared :: "PreparedBenchmarkRead list"
    and b0 :: BenchRead where
  br_start: "bench_read_reach topo client_addr prepared b0 b0"
| br_next: "bench_read_reach topo client_addr prepared b0 b \<Longrightarrow>
    bench_read_step topo client_addr prepared b b' \<Longrightarrow>
    bench_read_reach topo client_addr prepared b0 b'"

text \<open>The counters of the reads; \<open>left\<close> reads are still to be issued and \<open>out\<close> calls in flight.\<close>

definition read_books :: "nat \<Rightarrow> nat \<Rightarrow> nat \<Rightarrow> Client \<Rightarrow> bool" where
  "read_books count left out c \<longleftrightarrow>
     (\<exists>st. metrics c = Some st \<and> enabled st \<and> unat (reads_sent st) + left = count \<and>
        unat (reads_ok st) + unat (read_failures st) + out = unat (reads_sent st))"

lemma read_books_ack:
  "read_books count left out c \<Longrightarrow> read_books count left out (ack_take i c)"
  "read_books count left out c \<Longrightarrow> read_books count left out (ack_note i now c)"
  by (auto simp: read_books_def ack_take_def ack_note_def remove_pending_request_def
      benchmark_note_write_ack_def with_metrics_def Let_def split: option.split)

lemma read_books_sent:
  assumes "read_books count (Suc left) out c" "count < 2 ^ 64"
  shows "read_books count left (Suc out) (benchmark_note_read_sent c)"
proof -
  obtain st where st: "metrics c = Some st" "enabled st" "unat (reads_sent st) + Suc left = count"
    "unat (reads_ok st) + unat (read_failures st) + out = unat (reads_sent st)"
    using assms(1) by (auto simp: read_books_def)
  have "unat (reads_sent st + 1) = unat (reads_sent st) + 1"
    using st(3) assms(2) by (intro unat_inc_u64) linarith
  then show ?thesis using st by (simp add: read_books_def benchmark_note_read_sent_def with_metrics_def)
qed

lemma read_books_done:
  assumes "read_books count left (Suc out) c" "count < 2 ^ 64"
  shows "read_books count left out (benchmark_note_read_success c)"
    and "read_books count left out (benchmark_note_read_failure c)"
proof -
  obtain st where st: "metrics c = Some st" "enabled st" "unat (reads_sent st) + left = count"
    "unat (reads_ok st) + unat (read_failures st) + Suc out = unat (reads_sent st)"
    using assms(1) by (auto simp: read_books_def)
  have "unat (reads_ok st + 1) = unat (reads_ok st) + 1"
    "unat (read_failures st + 1) = unat (read_failures st) + 1"
    using st(3,4) assms(2) by (intro unat_inc_u64; linarith)+
  then show "read_books count left out (benchmark_note_read_success c)"
    "read_books count left out (benchmark_note_read_failure c)"
    using st by (simp_all add: read_books_def benchmark_note_read_success_def
        benchmark_note_read_failure_def with_metrics_def)
qed

definition read_totals :: "nat \<Rightarrow> ThroughputMetricsSummary \<Rightarrow> bool" where
  "read_totals count sm \<longleftrightarrow> unat (sum_reads_sent sm) = count \<and>
     unat (sum_reads_ok sm) + unat (sum_read_failures sm) = count"

definition bench_read_inv :: "nat \<Rightarrow> BenchRead \<Rightarrow> bool" where
  "bench_read_inv count b \<longleftrightarrow>
     (case br_summary b of
        Some sm \<Rightarrow> br_measuring b \<and> br_seeds b = [] \<and> br_seed_call b = None \<and>
          br_todo b = [] \<and> br_calls b = [] \<and> read_totals count sm
      | None \<Rightarrow>
          if br_measuring b
          then br_seeds b = [] \<and> br_seed_call b = None \<and>
            read_books count (length (br_todo b)) (length (br_calls b)) (br_client b)
          else br_todo b = [] \<and> br_calls b = [])"

lemma bench_read_inv_issue:
  assumes "bench_read_inv count b" "br_todo b = r # rs" "count < 2 ^ 64"
  shows "bench_read_inv count (bench_read_issue reader r (b\<lparr>br_todo := rs\<rparr>))"
proof -
  have on: "br_measuring b" "br_summary b = None"
    using assms(1,2) by (auto simp: bench_read_inv_def split: if_splits option.splits)
  then have "read_books count (Suc (length rs)) (length (br_calls b)) (br_client b)"
    using assms(1,2) by (simp add: bench_read_inv_def)
  from read_books_sent [OF this assms(3)]
  have sent: "read_books count (length rs) (Suc (length (br_calls b))) (benchmark_note_read_sent (br_client b))" .
  show ?thesis
    using sent read_books_done(2) [OF sent assms(3)] assms(1) on
    by (cases reader) (simp_all add: bench_read_inv_def bench_read_issue_def Let_def)
qed

lemma bench_read_inv_complete:
  assumes "bench_read_inv count b" "br_measuring b" "r \<in> set (br_calls b)" "count < 2 ^ 64"
  shows "bench_read_inv count (bench_read_complete r ok status b)"
proof -
  have on: "br_summary b = None" using assms(1-3) by (auto simp: bench_read_inv_def split: option.splits)
  have len: "length (br_calls b) = Suc (length (remove1 r (br_calls b)))"
    using length_remove1 [of r "br_calls b"] length_pos_if_in_set [OF assms(3)] assms(3) by simp
  have "read_books count (length (br_todo b)) (Suc (length (remove1 r (br_calls b)))) (br_client b)"
    using assms(1,2) on len by (simp add: bench_read_inv_def)
  from read_books_done [OF this assms(4)] show ?thesis
    using assms(1,2) on by (simp add: bench_read_inv_def bench_read_complete_def)
qed

lemma bench_read_reach_inv:
  assumes "bench_read_reach topo addr prepared (bench_read_start cfg c) b" "length prepared < 2 ^ 64"
  shows "bench_read_inv (length prepared) b"
  using assms(1)
proof induction
  case br_start
  show ?case by (simp add: bench_read_start_def bench_read_inv_def)
next
  case (br_next b b')
  from br_next(2) show ?case
  proof cases
    case (br_seed key x ss now)
    then show ?thesis
      using br_next(3) by (auto simp: bench_read_inv_def bench_seed_def split_beta split: option.splits)
  next
    case (br_seed_reply i reply)
    then show ?thesis using br_next(3) by (auto simp: bench_read_inv_def split: option.splits)
  next
    case (br_ack i)
    then show ?thesis using br_next(3) by (auto simp: bench_read_inv_def read_books_ack split: option.splits)
  next
    case (br_note i now)
    then show ?thesis using br_next(3) by (auto simp: bench_read_inv_def read_books_ack split: option.splits)
  next
    case (br_measure now)
    then show ?thesis
      using br_next(3)
      by (simp add: bench_read_inv_def bench_measure_def read_books_def benchmark_attach_metrics_state_def
          benchmark_start_metrics_window_def split: option.splits)
  next
    case (br_issue r rs reader)
    then show ?thesis using bench_read_inv_issue [OF br_next(3) _ assms(2)] by simp
  next
    case (br_complete r ok status)
    then show ?thesis using bench_read_inv_complete [OF br_next(3) _ _ assms(2)] by simp
  next
    case (br_return summary c)
    then show ?thesis
      using br_next(3)
      by (auto simp: bench_read_inv_def read_books_def read_totals_def close_window_def
          benchmark_build_summary_def benchmark_stop_metrics_window_def)
  qed
qed

end
