(* ===== verification/Client_Commands.thy ===== *)
theory Client_Commands
  imports Client_Requests
begin

section \<open>The command loop of the client (src/src/client/client.cpp)\<close>

text \<open>
  One line of input is one command; words are separated by white space and the value of a
  write is the rest of the line. \<open>do_write\<close> is composed of its two halves: \<open>during\<close> is what the ack
  listener does to the client while the call is out. A line that makes the loop print a
  message only is \<open>Cmd_print\<close>.
\<close>

definition next_word :: "string \<Rightarrow> string \<times> string" where
  "next_word s =
     (let s = dropWhile is_space s
      in (takeWhile (\<lambda>c. \<not> is_space c) s, dropWhile (\<lambda>c. \<not> is_space c) s))"

datatype command =
    Cmd_none
  | Cmd_quit
  | Cmd_print
  | Cmd_write string string
  | Cmd_read string int

definition read_node_id :: "pb_ReplicationMode \<Rightarrow> string \<Rightarrow> int" where
  "read_node_id m s =
     (if m = PB_CRAQ \<and> fst (next_word s) \<noteq> []
      then (case stoi (fst (next_word s)) of Inl _ \<Rightarrow> -1 | Inr i \<Rightarrow> i)
      else -1)"

definition parse_command :: "pb_ReplicationMode \<Rightarrow> string \<Rightarrow> command" where
  "parse_command m line =
     (let (cmd, rest) = next_word line
      in if cmd = [] then Cmd_none
         else if cmd = ''quit'' \<or> cmd = ''exit'' then Cmd_quit
         else if cmd = ''help'' then Cmd_print
         else if cmd = ''write''
         then (let (key, rest) = next_word rest; text = dropWhile is_space rest
               in if key = [] \<or> text = [] then Cmd_print else Cmd_write key text)
         else if cmd = ''read''
         then (let (key, rest) = next_word rest
               in if key = [] then Cmd_print else Cmd_read key (read_node_id m rest))
         else Cmd_print)"

definition do_write ::
    "(stub \<Rightarrow> WriteRequest \<Rightarrow> Status \<times> WriteResponse) \<Rightarrow> (Client \<Rightarrow> Client) \<Rightarrow> Topology \<Rightarrow> string \<Rightarrow>
     string \<Rightarrow> string \<Rightarrow> int \<Rightarrow> Client \<Rightarrow> bool \<times> Client" where
  "do_write write_rpc during topo key text client_addr now c =
     (case do_write_begin topo key text client_addr now c of
        (None, c) \<Rightarrow> (False, c)
      | (Some (h, req), c) \<Rightarrow>
          do_write_end (wreq_request_id req) (write_rpc (ns_endpoint (topo_nodes topo ! h)) req) (during c))"

record Environment =
  env_write :: "stub \<Rightarrow> WriteRequest \<Rightarrow> Status \<times> WriteResponse"
  env_read :: "stub \<Rightarrow> ReadRequest \<Rightarrow> Status \<times> ReadResponse"
  env_during :: "Client \<Rightarrow> Client"
  env_random :: nat
  env_now :: int

definition run_command :: "Environment \<Rightarrow> Topology \<Rightarrow> string \<Rightarrow> command \<Rightarrow> Client \<Rightarrow> Client" where
  "run_command env topo client_addr cmd c =
     (case cmd of
        Cmd_write key text \<Rightarrow>
          snd (do_write (env_write env) (env_during env) topo key text client_addr (env_now env) c)
      | Cmd_read key wanted \<Rightarrow> snd (do_read (env_read env) (env_random env) topo key wanted c)
      | _ \<Rightarrow> c)"

text \<open>\<open>lines\<close> is the input; each line comes with what its environment does.\<close>

fun run_interactive_loop :: "Topology \<Rightarrow> string \<Rightarrow> (string \<times> Environment) list \<Rightarrow> Client \<Rightarrow> Client" where
  "run_interactive_loop topo client_addr [] c = c"
| "run_interactive_loop topo client_addr ((line, env) # lines) c =
     (case parse_command (topo_mode topo) line of
        Cmd_quit \<Rightarrow> c
      | cmd \<Rightarrow> run_interactive_loop topo client_addr lines (run_command env topo client_addr cmd c))"

subsection \<open>Typed commands\<close>

definition word_text :: "string \<Rightarrow> bool" where
  "word_text w \<longleftrightarrow> w \<noteq> [] \<and> list_all (\<lambda>c. \<not> is_space c) w"

lemma next_word_append:
  assumes "word_text w" "is_space c"
  shows "next_word (w @ c # s) = (w, c # s)"
proof -
  obtain x xs where w: "w = x # xs" "\<not> is_space x" using assms(1) by (cases w) (auto simp: word_text_def)
  have all: "\<forall>y \<in> set w. \<not> is_space y" using assms(1) by (simp add: word_text_def list_all_iff)
  have "dropWhile is_space (w @ c # s) = w @ c # s" using w by simp
  moreover have "takeWhile (\<lambda>c. \<not> is_space c) (w @ c # s) = w" "dropWhile (\<lambda>c. \<not> is_space c) (w @ c # s) = c # s"
    using all assms(2) by (simp_all add: takeWhile_append2 dropWhile_append2)
  ultimately show ?thesis by (simp add: next_word_def)
qed

lemma next_word_skip: "is_space c \<Longrightarrow> next_word (c # s) = next_word s"
  by (simp add: next_word_def)

lemma space_is_space [simp]: "is_space (CHR '' '')"
  by (simp add: is_space_def)

lemma word_text_simps [simp]: "word_text ''write''" "word_text ''read''"
  by (simp_all add: word_text_def is_space_def)

lemma parse_write_command:
  assumes "word_text key" "x \<noteq> []" "\<not> is_space (hd x)"
  shows "parse_command m (''write'' @ '' '' @ key @ '' '' @ x) = Cmd_write key x"
proof -
  have x: "dropWhile is_space x = x" using assms(2,3) by (cases x) auto
  have cmd: "next_word (''write'' @ '' '' @ key @ '' '' @ x) = (''write'', CHR '' '' # key @ '' '' @ x)"
    using next_word_append [OF word_text_simps(1) space_is_space] by simp
  have key: "next_word (CHR '' '' # key @ '' '' @ x) = (key, CHR '' '' # x)" "key \<noteq> []"
    using next_word_append [OF assms(1) space_is_space] assms(1) by (simp_all add: next_word_skip word_text_def)
  show ?thesis
    unfolding parse_command_def cmd using key x assms(2) by (simp del: dropWhile_eq_Nil_conv)
qed

end
