(* ===== verification/Client_Topology.thy ===== *)
theory Client_Topology
  imports Client_Config
begin

section \<open>Pointers of a topology\<close>

text \<open>
  The client keeps raw pointers into its vector of nodes: the head, the tail and, for CROWN,
  one per id. \<open>topology_ok\<close> says that none dangles and that the CROWN table is complete and in
  order of the ids; every topology \<open>build_topology\<close> returns has it, so routing never follows a
  null or dangling pointer and in CROWN mode always finds a node.
\<close>

definition topology_ok :: "Topology \<Rightarrow> bool" where
  "topology_ok topo \<longleftrightarrow>
     (\<forall>i. topo_head topo = Some i \<or> topo_tail topo = Some i \<longrightarrow> i < length (topo_nodes topo)) \<and>
     (if topo_mode topo = PB_CROWN
      then length (crown_nodes_by_index topo) = length (topo_nodes topo) \<and>
        (\<forall>k < length (topo_nodes topo). \<exists>i < length (topo_nodes topo).
           crown_nodes_by_index topo ! k = Some i \<and> ns_id (topo_nodes topo ! i) = int k)
      else crown_nodes_by_index topo = [])"

lemma topology_nodes_ids:
  "topology_nodes js = Inr ns \<Longrightarrow> list_all2 (\<lambda>j n. jn_id j = Inr (ns_id n)) js ns"
  by (induction js arbitrary: ns) (auto simp: bind_Inr get_Inr)

lemma topology_roles_range:
  "topology_roles i hp tp js = Inr (hp', tp') \<Longrightarrow> hp' = Some k \<or> tp' = Some k \<Longrightarrow>
    hp = Some k \<or> tp = Some k \<or> i \<le> k \<and> k < i + length js"
  by (induction i hp tp js rule: topology_roles.induct) (fastforce simp: bind_Inr split: if_splits)+

text \<open>The table after the nodes before \<open>i\<close>: as many entries as nodes, each under its id.\<close>

definition table_ok :: "(nat \<Rightarrow> int) \<Rightarrow> nat \<Rightarrow> nat option list \<Rightarrow> bool" where
  "table_ok id_of i t \<longleftrightarrow> length (filter (\<lambda>x. x \<noteq> None) t) = i \<and>
     (\<forall>k < length t. \<forall>j. t ! k = Some j \<longrightarrow> j < i \<and> id_of j = int k)"

lemma filter_fill:
  "k < length t \<Longrightarrow> t ! k = None \<Longrightarrow>
    length (filter (\<lambda>x. x \<noteq> None) (t[k := Some j])) = Suc (length (filter (\<lambda>x. x \<noteq> None) t))"
  by (induction t arbitrary: k) (auto simp: nth_Cons split: nat.splits)

lemma table_ok_fill:
  assumes "table_ok id_of i t" "k < length t" "t ! k = None" "id_of i = int k"
  shows "table_ok id_of (Suc i) (t[k := Some i])"
  unfolding table_ok_def
proof (intro conjI allI impI)
  show "length (filter (\<lambda>x. x \<noteq> None) (t[k := Some i])) = Suc i"
    using assms(1) filter_fill [OF assms(2,3)] by (simp add: table_ok_def)
  fix l j assume "l < length (t[k := Some i])" "t[k := Some i] ! l = Some j"
  then show "j < Suc i" "id_of j = int l"
    using assms by (cases "l = k"; fastforce simp: table_ok_def)+
qed

lemma topology_index_table:
  assumes "topology_index i t js = Inr t'" "table_ok id_of i t"
    and "\<And>j. j < length js \<Longrightarrow> jn_id (js ! j) = Inr (id_of (i + j))"
  shows "length t' = length t \<and> table_ok id_of (i + length js) t'"
  using assms
proof (induction i t js rule: topology_index.induct)
  case (2 i t n ns)
  obtain nid where nid: "jn_id n = Inr nid" "0 \<le> nid" "nid < int (length t)" "t ! nat nid = None"
    "topology_index (Suc i) (t[nat nid := Some i]) ns = Inr t'"
    using 2(2) by (auto simp: bind_Inr get_Inr split: if_splits)
  have "id_of i = nid" using 2(4) [of 0] nid(1) by simp
  then have "table_ok id_of (Suc i) (t[nat nid := Some i])"
    using nid 2(3) by (intro table_ok_fill) auto
  moreover have "jn_id (ns ! j) = Inr (id_of (Suc i + j))" if "j < length ns" for j
    using 2(4) [of "Suc j"] that by simp
  ultimately show ?case using 2(1) [of nid] nid by auto
qed simp

lemma table_full:
  assumes "table_ok id_of (length t) t" "k < length t"
  shows "\<exists>i < length t. t ! k = Some i \<and> id_of i = int k"
proof -
  have "x \<noteq> None" if "x \<in> set t" for x
    using assms(1) length_filter_less [OF that, of "\<lambda>x. x \<noteq> None"] by (fastforce simp: table_ok_def)
  then obtain i where "t ! k = Some i" using nth_mem [OF assms(2)] by auto
  then show ?thesis using assms by (auto simp: table_ok_def)
qed

lemma build_topology_ok:
  assumes "build_topology js m = Inr topo"
  shows "topology_ok topo \<and> topo_mode topo = m \<and> length (topo_nodes topo) = length js"
proof -
  obtain ns hp tp t where b: "topology_nodes js = Inr ns" "topology_roles 0 None None js = Inr (hp, tp)"
    "(if m = PB_CROWN then topology_index 0 (replicate (length js) None) js else Inr []) = Inr t"
    "topo = \<lparr>topo_mode = m, topo_head = hp, topo_tail = tp, topo_nodes = ns, crown_nodes_by_index = t\<rparr>"
    using assms by (auto simp: build_topology_def bind_Inr)
  note ids = topology_nodes_ids [OF b(1)]
  have len: "length ns = length js" using list_all2_lengthD [OF ids] by simp
  have roles: "k < length ns" if "hp = Some k \<or> tp = Some k" for k
    using topology_roles_range [OF b(2) that] len by simp
  have table: "length t = length ns \<and> (\<forall>k < length ns. \<exists>i < length ns. t ! k = Some i \<and> ns_id (ns ! i) = int k)"
    if m: "m = PB_CROWN"
  proof -
    have "topology_index 0 (replicate (length js) None) js = Inr t" using b(3) m by simp
    moreover have "table_ok (\<lambda>j. ns_id (ns ! j)) 0 (replicate (length js) None)" by (simp add: table_ok_def)
    ultimately have "length t = length js \<and> table_ok (\<lambda>j. ns_id (ns ! j)) (length js) t"
      using topology_index_table [of 0 "replicate (length js) None" js t "\<lambda>j. ns_id (ns ! j)"]
        list_all2_nthD [OF ids] by simp
    then show ?thesis using table_full [of "\<lambda>j. ns_id (ns ! j)" t] len by simp
  qed
  show ?thesis using b(3,4) roles table len by (auto simp: topology_ok_def split: if_splits)
qed

lemma find_node_range: "find_node nid j ns = Some i \<Longrightarrow> j \<le> i \<and> i < j + length ns \<and> ns_id (ns ! (i - j)) = nid"
  by (induction nid j ns rule: find_node.induct) (fastforce simp: nth_Cons' split: if_splits)+

text \<open>Every node that routing picks is one of the topology.\<close>

lemma routes_in_range:
  assumes "topology_ok topo"
  shows "resolve_write_target topo key = Some i \<Longrightarrow> i < length (topo_nodes topo)"
    and "resolve_read_target random_index topo key wanted = Some i \<Longrightarrow>
      random_index < length (topo_nodes topo) \<Longrightarrow> i < length (topo_nodes topo)"
    and "topo_mode topo = PB_CROWN \<Longrightarrow> topo_nodes topo \<noteq> [] \<Longrightarrow>
      resolve_write_target topo key \<noteq> None \<and> resolve_read_target random_index topo key wanted \<noteq> None"
proof -
  let ?n = "length (topo_nodes topo)" let ?t = "crown_nodes_by_index topo"
  have ends: "topo_head topo = Some i \<or> topo_tail topo = Some i \<Longrightarrow> i < ?n" for i
    using assms unfolding topology_ok_def by blast
  have table: "length ?t = ?n" "\<And>k. k < ?n \<Longrightarrow> \<exists>i < ?n. ?t ! k = Some i" if "topo_mode topo = PB_CROWN"
    using assms that by (auto simp: topology_ok_def)
  have crown: "(topo_nodes topo \<noteq> [] \<longrightarrow> (\<exists>i < ?n. crown_head_for topo key = Some i) \<and>
      (\<exists>i < ?n. crown_tail_for topo key = Some i)) \<and>
      (topo_nodes topo = [] \<longrightarrow> crown_head_for topo key = None \<and> crown_tail_for topo key = None)"
    if m: "topo_mode topo = PB_CROWN"
  proof (cases "topo_nodes topo = []")
    case True
    then show ?thesis using table(1) [OF m] by (simp add: crown_head_for_def crown_tail_for_def)
  next
    case False
    then have pos: "0 < ?n" and ne: "?t \<noteq> []" using table(1) [OF m] by auto
    obtain i where i: "i < ?n" "?t ! (unat (hash_key key) mod ?n) = Some i"
      using table(2) [OF m, of "unat (hash_key key) mod ?n"] pos by auto
    obtain j where "j < ?n" "?t ! ((unat (hash_key key) mod ?n + ?n - 1) mod ?n) = Some j"
      using table(2) [OF m, of "(unat (hash_key key) mod ?n + ?n - 1) mod ?n"] pos by auto
    then show ?thesis
      using i False ne table(1) [OF m]
      by (simp add: crown_head_for_def crown_tail_for_def crown_head_slot_def Let_def)
  qed
  show "i < ?n" if "resolve_write_target topo key = Some i"
    using that ends crown by (auto simp: resolve_write_target_def split: if_splits)
  show "i < ?n" if "resolve_read_target random_index topo key wanted = Some i" "random_index < ?n"
    using that ends crown find_node_range [of wanted 0 "topo_nodes topo" i]
    by (auto simp: resolve_read_target_def split: if_splits)
  show "resolve_write_target topo key \<noteq> None \<and> resolve_read_target random_index topo key wanted \<noteq> None"
    if "topo_mode topo = PB_CROWN" "topo_nodes topo \<noteq> []"
    using that crown by (auto simp: resolve_write_target_def resolve_read_target_def)
qed

end
