(* ===== verification/Kv_Client.thy ===== *)
theory Kv_Client
  imports Client_Json
begin

section \<open>The command line client (src/src/client/kv\_client.cpp)\<close>

text \<open>
  One write or one read: the configuration is loaded, the node to talk to is chosen from the
  mode and the key, and one RPC is made, whose outcome is the argument \<open>rpc\<close>. A pointer to a
  node is an \<open>option\<close>; the caller's \<open>error\<close> string is the left summand. The file system and
  the JSON parser are the argument \<open>doc\<close>: the parsed document, or the text of the failure.

  Lemmas: the id table of a CROWN ring is complete when it is built, so a CROWN route is
  never null and names the owner of the key; a CHAIN or CRAQ route is the only node with the
  flag.
\<close>

record NodeInfo =
  ni_id :: int
  ni_host :: string
  ni_port :: int
  ni_is_head :: bool
  ni_is_tail :: bool

definition NodeInfo_endpoint :: "NodeInfo \<Rightarrow> stub" where
  "NodeInfo_endpoint n = ni_host n @ '':'' @ to_string_int (ni_port n)"

definition kv_parse_mode :: "string \<Rightarrow> cxx_exn + ReplicationMode" where
  "kv_parse_mode s =
     (if s = ''chain'' then Inr CHAIN else if s = ''craq'' then Inr CRAQ
      else if s = ''crown'' then Inr CROWN
      else Inl (Invalid_argument (''Unknown mode in config: '' @ s)))"

definition kv_mode_name :: "ReplicationMode \<Rightarrow> string" where
  "kv_mode_name m = (case m of CHAIN \<Rightarrow> ''chain'' | CRAQ \<Rightarrow> ''craq'' | CROWN \<Rightarrow> ''crown'')"

definition parse_node :: "json_node \<Rightarrow> string + NodeInfo" where
  "parse_node n =
     (case jn_id n of Inl e \<Rightarrow> Inl e | Inr i \<Rightarrow>
      case jn_host n of Inl e \<Rightarrow> Inl e | Inr h \<Rightarrow>
      case jn_port n of Inl e \<Rightarrow> Inl e | Inr p \<Rightarrow>
      case jn_is_head n of Inl e \<Rightarrow> Inl e | Inr head_flag \<Rightarrow>
      case jn_is_tail n of Inl e \<Rightarrow> Inl e | Inr tail_flag \<Rightarrow>
        Inr \<lparr>ni_id = i, ni_host = h, ni_port = p, ni_is_head = head_flag, ni_is_tail = tail_flag\<rparr>)"

fun parse_nodes_from :: "nat \<Rightarrow> json_node list \<Rightarrow> string + NodeInfo list" where
  "parse_nodes_from i [] = Inr []"
| "parse_nodes_from i (n # ns) =
     (case parse_node n of
        Inl e \<Rightarrow> Inl (''invalid node at index '' @ to_string_nat i @ '': '' @ e)
      | Inr node \<Rightarrow>
          (case parse_nodes_from (Suc i) ns of Inl e \<Rightarrow> Inl e | Inr nodes \<Rightarrow> Inr (node # nodes)))"

definition parse_nodes :: "json_nodes \<Rightarrow> string + NodeInfo list" where
  "parse_nodes nodes_json =
     (case nodes_json of
        Node_array (n # ns) \<Rightarrow> parse_nodes_from 0 (n # ns)
      | _ \<Rightarrow> Inl (CHR 0x27 # ''nodes'' @ CHR 0x27 # '' must be a non-empty array''))"

fun find_role_loop ::
    "(NodeInfo \<Rightarrow> bool) \<Rightarrow> string \<Rightarrow> NodeInfo option \<Rightarrow> NodeInfo list \<Rightarrow> string + NodeInfo option" where
  "find_role_loop flag role selected [] = Inr selected"
| "find_role_loop flag role selected (n # ns) =
     (if flag n
      then (case selected of
              Some s \<Rightarrow> Inl (''multiple nodes marked as '' @ role @ '' ('' @ NodeInfo_endpoint s @ '', ''
                             @ NodeInfo_endpoint n @ '')'')
            | None \<Rightarrow> find_role_loop flag role (Some n) ns)
      else find_role_loop flag role selected ns)"

definition find_global_role :: "NodeInfo list \<Rightarrow> (NodeInfo \<Rightarrow> bool) \<Rightarrow> string \<Rightarrow> string + NodeInfo" where
  "find_global_role nodes flag role =
     (case find_role_loop flag role None nodes of
        Inl e \<Rightarrow> Inl e
      | Inr None \<Rightarrow> Inl (''no node marked as '' @ role)
      | Inr (Some n) \<Rightarrow> Inr n)"

fun build_crown_loop ::
    "nat \<Rightarrow> NodeInfo option list \<Rightarrow> NodeInfo list \<Rightarrow> string + NodeInfo option list" where
  "build_crown_loop count by_id [] = Inr by_id"
| "build_crown_loop count by_id (n # ns) =
     (if ni_id n < 0 \<or> ni_id n \<ge> int count
      then Inl (''CROWN node id out of range [0,'' @ to_string_nat (count - 1) @ '']: id=''
                @ to_string_int (ni_id n))
      else if by_id ! nat (ni_id n) \<noteq> None
      then Inl (''duplicate CROWN node id: '' @ to_string_int (ni_id n))
      else build_crown_loop count (by_id[nat (ni_id n) := Some n]) ns)"

definition build_crown_by_id :: "NodeInfo list \<Rightarrow> string + NodeInfo option list" where
  "build_crown_by_id nodes = build_crown_loop (length nodes) (replicate (length nodes) None) nodes"

definition load_config :: "string + json_config \<Rightarrow> string + (ReplicationMode \<times> NodeInfo list)" where
  "load_config doc =
     (case doc of Inl e \<Rightarrow> Inl e | Inr json \<Rightarrow>
      case jc_mode json of Inl e \<Rightarrow> Inl e | Inr s \<Rightarrow>
      case kv_parse_mode s of Inl ex \<Rightarrow> Inl (what ex) | Inr m \<Rightarrow>
      case jc_nodes json of
        None \<Rightarrow> Inl (''missing required top-level field '' @ CHR 0x27 # ''nodes'' @ [CHR 0x27])
      | Some ns \<Rightarrow> (case parse_nodes ns of Inl e \<Rightarrow> Inl e | Inr nodes \<Rightarrow> Inr (m, nodes)))"

subsection \<open>The two RPCs\<close>

record Kv_rpc =
  write_call :: "stub \<Rightarrow> WriteRequest \<Rightarrow> Status \<times> WriteResponse"
  read_call :: "stub \<Rightarrow> ReadRequest \<Rightarrow> Status \<times> ReadResponse"

definition do_write_rpc :: "Kv_rpc \<Rightarrow> NodeInfo \<Rightarrow> string \<Rightarrow> string \<Rightarrow> string + u64" where
  "do_write_rpc rpc target key value =
     (let req = \<lparr>wreq_key = key, wreq_value = value, wreq_version = 0, wreq_client_addr = [],
                 wreq_request_id = 0\<rparr>;
          (status, resp) = write_call rpc (NodeInfo_endpoint target) req
      in if \<not> Status_ok status
         then Inl (''Write RPC failed at '' @ NodeInfo_endpoint target @ '': '' @ error_message status)
         else if \<not> wresp_success resp
         then Inl (''Write RPC returned success=false at '' @ NodeInfo_endpoint target)
         else Inr (wresp_version resp))"

definition do_read_rpc :: "Kv_rpc \<Rightarrow> NodeInfo \<Rightarrow> string \<Rightarrow> string + (string \<times> u64)" where
  "do_read_rpc rpc target key =
     (let (status, resp) = read_call rpc (NodeInfo_endpoint target) \<lparr>rreq_key = key\<rparr>
      in if \<not> Status_ok status
         then Inl (''Read RPC failed at '' @ NodeInfo_endpoint target @ '': '' @ error_message status)
         else Inr (rresp_value resp, rresp_version resp))"

subsection \<open>Routing and main\<close>

text \<open>\<open>crown_by_id[..]\<close>, a pointer that is null (\<open>error\<close> still empty) when the slot is.\<close>

definition kv_crown_slot :: "NodeInfo option list \<Rightarrow> nat \<Rightarrow> string + NodeInfo" where
  "kv_crown_slot by_id i = (case by_id ! i of None \<Rightarrow> Inl [] | Some n \<Rightarrow> Inr n)"

definition kv_head_index :: "NodeInfo option list \<Rightarrow> string \<Rightarrow> nat" where
  "kv_head_index by_id key = unat (fnv1a64 key) mod length by_id"

definition kv_write_target ::
    "ReplicationMode \<Rightarrow> NodeInfo list \<Rightarrow> NodeInfo option list \<Rightarrow> string \<Rightarrow> string + NodeInfo" where
  "kv_write_target m nodes by_id key =
     (if m = CHAIN \<or> m = CRAQ then find_global_role nodes ni_is_head ''head''
      else kv_crown_slot by_id (kv_head_index by_id key))"

definition kv_read_target ::
    "ReplicationMode \<Rightarrow> NodeInfo list \<Rightarrow> NodeInfo option list \<Rightarrow> string \<Rightarrow> string + NodeInfo" where
  "kv_read_target m nodes by_id key =
     (if m = CHAIN then find_global_role nodes ni_is_tail ''tail''
      else if m = CRAQ then find_global_role nodes ni_is_head ''head''
      else let head_index = kv_head_index by_id key;
               tail_index = (head_index + length by_id - 1) mod length by_id
           in kv_crown_slot by_id tail_index)"

datatype kv_exit =
    Kv_usage
  | Kv_error string
  | Kv_wrote stub u64
  | Kv_read stub u64 string

definition kv_client_main :: "Kv_rpc \<Rightarrow> (string \<Rightarrow> string + json_config) \<Rightarrow> string list \<Rightarrow> kv_exit" where
  "kv_client_main rpc files args =
     (case args of
        op # config_path # key # rest \<Rightarrow>
          if op = ''write'' \<and> length rest \<noteq> 1 \<or> op = ''read'' \<and> rest \<noteq> [] \<or> op \<notin> {''write'', ''read''}
          then Kv_usage
          else (case load_config (files config_path) of
                  Inl e \<Rightarrow> Kv_error (''Config load failed: '' @ e)
                | Inr (m, nodes) \<Rightarrow>
            (case (if m = CROWN then build_crown_by_id nodes else Inr []) of
               Inl e \<Rightarrow> Kv_error (''Route resolution failed: '' @ e)
             | Inr by_id \<Rightarrow>
               if op = ''write''
               then (case kv_write_target m nodes by_id key of
                       Inl e \<Rightarrow> Kv_error (''Route resolution failed: '' @ e)
                     | Inr target \<Rightarrow>
                         (case do_write_rpc rpc target key (hd rest) of
                            Inl e \<Rightarrow> Kv_error e
                          | Inr version \<Rightarrow> Kv_wrote (NodeInfo_endpoint target) version))
               else (case kv_read_target m nodes by_id key of
                       Inl e \<Rightarrow> Kv_error (''Route resolution failed: '' @ e)
                     | Inr target \<Rightarrow>
                         (case do_read_rpc rpc target key of
                            Inl e \<Rightarrow> Kv_error e
                          | Inr (value, version) \<Rightarrow> Kv_read (NodeInfo_endpoint target) version value))))
      | _ \<Rightarrow> Kv_usage)"

subsection \<open>The id table\<close>

definition slots_ok :: "NodeInfo option list \<Rightarrow> bool" where
  "slots_ok by_id \<longleftrightarrow> (\<forall>i n. i < length by_id \<and> by_id ! i = Some n \<longrightarrow> ni_id n = int i)"

definition filled :: "NodeInfo option list \<Rightarrow> nat" where
  "filled by_id = length (filter (\<lambda>x. x \<noteq> None) by_id)"

lemma filled_update: "i < length xs \<Longrightarrow> xs ! i = None \<Longrightarrow> filled (xs[i := Some n]) = Suc (filled xs)"
  by (induction xs arbitrary: i) (auto simp: filled_def less_Suc_eq_0_disj)

lemma filled_full: "filled xs = length xs \<Longrightarrow> i < length xs \<Longrightarrow> xs ! i \<noteq> None"
  using length_filter_less [of "xs ! i" xs "\<lambda>x. x \<noteq> None"] by (auto simp: filled_def)

lemma build_crown_loop_table:
  assumes "build_crown_loop (length by_id) by_id ns = Inr t" "slots_ok by_id"
  shows "length t = length by_id \<and> slots_ok t \<and> filled t = filled by_id + length ns"
  using assms
proof (induction ns arbitrary: by_id)
  case (Cons n ns)
  let ?i = "nat (ni_id n)"
  from Cons.prems(1) have i: "0 \<le> ni_id n" "ni_id n < int (length by_id)" "by_id ! ?i = None"
    and rest: "build_crown_loop (length (by_id[?i := Some n])) (by_id[?i := Some n]) ns = Inr t"
    by (auto split: if_splits)
  have "slots_ok (by_id[?i := Some n])"
    unfolding slots_ok_def
  proof (intro allI impI)
    fix j x assume j: "j < length (by_id[?i := Some n]) \<and> by_id[?i := Some n] ! j = Some x"
    show "ni_id x = int j"
      using j i(1) Cons.prems(2) by (cases "j = ?i") (auto simp: slots_ok_def)
  qed
  from Cons.IH [OF rest this] show ?case
    using filled_update [of ?i by_id n] i by simp
qed simp

lemma build_crown_by_id_table:
  assumes "build_crown_by_id nodes = Inr t"
  shows "length t = length nodes" "i < length nodes \<Longrightarrow> \<exists>n. t ! i = Some n \<and> ni_id n = int i"
proof -
  have z: "slots_ok (replicate (length nodes) None)" "filled (replicate (length nodes) None) = 0"
    by (auto simp: slots_ok_def filled_def)
  have "build_crown_loop (length (replicate (length nodes) (None :: NodeInfo option)))
      (replicate (length nodes) None) nodes = Inr t"
    using assms by (simp only: build_crown_by_id_def length_replicate)
  from build_crown_loop_table [OF this z(1)]
  have t: "length t = length nodes" "slots_ok t" "filled t = length nodes"
    using z(2) by simp_all
  show "length t = length nodes" by (rule t(1))
  show "\<exists>n. t ! i = Some n \<and> ni_id n = int i" if "i < length nodes"
    using t that filled_full [of t i] by (auto simp: slots_ok_def)
qed

lemma parse_nodes_nonempty: "parse_nodes j = Inr nodes \<Longrightarrow> nodes \<noteq> []"
  by (auto simp: parse_nodes_def split: json_nodes.splits list.splits sum.splits)

lemma load_config_nonempty: "load_config doc = Inr (m, nodes) \<Longrightarrow> nodes \<noteq> []"
  by (auto simp: load_config_def parse_nodes_nonempty split: sum.splits option.splits)

subsection \<open>Routes\<close>

text \<open>The ids of the nodes a CROWN write and read of a key go to.\<close>

lemma kv_crown_routes:
  assumes "build_crown_by_id nodes = Inr by_id" "nodes \<noteq> []" "int (length nodes) \<le> int_max"
  defines "n \<equiv> int (length nodes)"
  shows "\<exists>t. kv_write_target CROWN nodes by_id key = Inr t \<and> ni_id t = crown_head_index n key"
    and "\<exists>t. kv_read_target CROWN nodes by_id key = Inr t \<and> ni_id t = (crown_head_index n key + n - 1) mod n"
proof -
  let ?h = "unat (fnv1a64 key) mod length nodes"
  have pos: "0 < length nodes" using assms(2) by simp
  have h: "crown_head_index n key = int ?h"
    using pos assms(3) by (simp add: n_def crown_head_index_mod zmod_int)
  have len: "length by_id = length nodes" by (rule build_crown_by_id_table [OF assms(1)])
  have t: "(crown_head_index n key + n - 1) mod n = int ((?h + length nodes - 1) mod length nodes)"
  proof -
    have "crown_head_index n key + n - 1 = int (?h + length nodes - 1)"
      unfolding h unfolding n_def using pos by linarith
    then show ?thesis by (simp only: zmod_int n_def)
  qed
  have "?h < length nodes" "(?h + length nodes - 1) mod length nodes < length nodes" using pos by simp_all
  from this [THEN build_crown_by_id_table(2) [OF assms(1)]]
  show "\<exists>t. kv_write_target CROWN nodes by_id key = Inr t \<and> ni_id t = crown_head_index n key"
    and "\<exists>t. kv_read_target CROWN nodes by_id key = Inr t \<and> ni_id t = (crown_head_index n key + n - 1) mod n"
    unfolding t unfolding h
    by (auto simp: kv_write_target_def kv_read_target_def kv_head_index_def kv_crown_slot_def len Let_def)
qed

lemma find_role_loop_Inr:
  "find_role_loop flag role sel nodes = Inr r \<Longrightarrow>
    filter flag nodes = (case (sel, r) of (None, Some n) \<Rightarrow> [n] | _ \<Rightarrow> []) \<and> (sel \<noteq> None \<longrightarrow> r = sel)"
  by (induction flag role sel nodes rule: find_role_loop.induct)
    (auto split: if_splits option.splits)

lemma find_global_role_iff: "find_global_role nodes flag role = Inr n \<longleftrightarrow> filter flag nodes = [n]"
proof
  assume "find_global_role nodes flag role = Inr n"
  then have "find_role_loop flag role None nodes = Inr (Some n)"
    by (auto simp: find_global_role_def split: sum.splits option.splits)
  from find_role_loop_Inr [OF this] show "filter flag nodes = [n]" by simp
next
  have found: "find_role_loop flag role (Some s) ns = Inr (Some s)" if "filter flag ns = []" for s ns
    using that by (induction ns) (auto split: if_splits)
  assume *: "filter flag nodes = [n]"
  then have "find_role_loop flag role None nodes = Inr (Some n)"
    by (induction nodes) (auto split: if_splits simp: found)
  then show "find_global_role nodes flag role = Inr n" by (simp add: find_global_role_def)
qed

end
