(* ===== verification/Client_Validation.thy ===== *)
theory Client_Validation
  imports Client_Config
begin

section \<open>What the ring validation establishes\<close>

text \<open>
  \<open>crown_views\<close> builds the two index tables, \<open>check_links\<close> compares each node with its
  neighbours and \<open>ring_walk\<close> follows the successors. Together they accept exactly the
  configurations that form one ring: soundness and completeness, and that the order of the
  ring need not be the order of the ids.
\<close>

definition view_of :: "json_node \<Rightarrow> CrownNodeView \<Rightarrow> bool" where
  "view_of n v \<longleftrightarrow> (\<exists>h p. jn_id n = Inr (cv_id v) \<and> jn_host n = Inr h \<and> jn_port n = Inr p \<and>
     cv_endpoint v = endpoint_text h p \<and> jn_predecessor n = Link_text (cv_predecessor v) \<and>
     jn_successor n = Link_text (cv_successor v))"

definition index_table :: "('v \<Rightarrow> 'k) \<Rightarrow> 'v list \<Rightarrow> ('k \<rightharpoonup> nat) \<Rightarrow> bool" where
  "index_table f vs m \<longleftrightarrow> (\<forall>k i. m k = Some i \<longleftrightarrow> i < length vs \<and> f (vs ! i) = k)"

lemma index_table_empty: "index_table f [] Map.empty"
  by (simp add: index_table_def)

lemma index_table_snoc:
  assumes "index_table f vs m" "m (f v) = None"
  shows "index_table f (vs @ [v]) (m(f v \<mapsto> length vs))"
  unfolding index_table_def
proof (intro allI)
  fix k i
  have fresh: "\<not> (i < length vs \<and> f (vs ! i) = f v)"
    using assms by (metis index_table_def option.distinct(1))
  show "(m(f v \<mapsto> length vs)) k = Some i \<longleftrightarrow> i < length (vs @ [v]) \<and> f ((vs @ [v]) ! i) = k"
    using fresh assms(1) [unfolded index_table_def]
    by (cases "k = f v"; cases "i = length vs") (auto simp: nth_append less_Suc_eq)
qed

lemma index_table_distinct:
  assumes "index_table f vs m"
  shows "inj_on (\<lambda>i. f (vs ! i)) {..<length vs}"
proof (rule inj_onI)
  fix i j assume "i \<in> {..<length vs}" "j \<in> {..<length vs}" "f (vs ! i) = f (vs ! j)"
  then have "m (f (vs ! i)) = Some i" "m (f (vs ! i)) = Some j"
    using assms by (simp_all add: index_table_def)
  then show "i = j" by simp
qed

lemma link_text_Inr: "link_text name l = Inr s \<longleftrightarrow> l = Link_text s"
  by (cases l) auto

lemma crown_views_tables:
  assumes "crown_views parsed be bi ns = Inr (Inr (vs, be', bi'))"
    and "index_table cv_endpoint parsed be" "index_table cv_id parsed bi"
  shows "\<exists>us. vs = parsed @ us \<and> list_all2 view_of ns us \<and>
    index_table cv_endpoint vs be' \<and> index_table cv_id vs bi'"
  using assms
proof (induction ns arbitrary: parsed be bi)
  case (Cons n ns)
  obtain i h p where base: "jn_id n = Inr i" "jn_host n = Inr h" "jn_port n = Inr p"
    and new: "be (endpoint_text h p) = None" "bi i = None"
    using Cons.prems(1) by (auto simp: bind_Inr get_Inr Let_def split: if_splits)
  let ?e = "endpoint_text h p"
  obtain pr su where links: "jn_predecessor n = Link_text pr" "jn_successor n = Link_text su"
    and rest: "crown_views (parsed @ [\<lparr>cv_id = i, cv_endpoint = ?e, cv_predecessor = pr, cv_successor = su\<rparr>])
        (be(?e \<mapsto> length parsed)) (bi(i \<mapsto> length parsed)) ns = Inr (Inr (vs, be', bi'))"
    using Cons.prems(1) base new
    by (auto simp: bind_Inr link_text_Inr Let_def split: if_splits)
  let ?v = "\<lparr>cv_id = i, cv_endpoint = ?e, cv_predecessor = pr, cv_successor = su\<rparr>"
  have "index_table cv_endpoint (parsed @ [?v]) (be(?e \<mapsto> length parsed))"
    "index_table cv_id (parsed @ [?v]) (bi(i \<mapsto> length parsed))"
    using index_table_snoc [OF Cons.prems(2), of ?v] index_table_snoc [OF Cons.prems(3), of ?v] new by simp_all
  from Cons.IH [OF rest this] obtain us where "vs = (parsed @ [?v]) @ us" "list_all2 view_of ns us"
    "index_table cv_endpoint vs be'" "index_table cv_id vs bi'" by blast
  moreover have "view_of n ?v" using base links by (simp add: view_of_def)
  ultimately show ?case by (intro exI [of _ "?v # us"]) simp
qed simp

subsection \<open>Links and walk\<close>

definition next_view :: "CrownNodeView list \<Rightarrow> (string \<rightharpoonup> nat) \<Rightarrow> string \<Rightarrow> string" where
  "next_view vs be e = cv_successor (vs ! the (be e))"

lemma check_links_None:
  assumes "check_links vs be ns = None" "n \<in> set ns"
  shows "\<exists>ip is. be (cv_predecessor n) = Some ip \<and> be (cv_successor n) = Some is \<and>
    cv_successor (vs ! ip) = cv_endpoint n \<and> cv_predecessor (vs ! is) = cv_endpoint n"
  using assms by (induction ns) (auto split: option.splits if_splits)

lemma ring_walk_None:
  assumes "ring_walk vs be steps visited cur = None" "finite visited"
  shows "(\<forall>k < steps. (next_view vs be ^^ k) cur \<notin> visited) \<and>
    inj_on (\<lambda>k. (next_view vs be ^^ k) cur) {..<steps} \<and>
    (next_view vs be ^^ steps) cur = cv_endpoint (vs ! 0)"
  using assms
proof (induction steps arbitrary: visited cur)
  case (Suc steps)
  let ?f = "next_view vs be"
  from Suc.prems(1) have nv: "cur \<notin> visited"
    and rest: "ring_walk vs be steps (insert cur visited) (?f cur) = None"
    by (auto simp: next_view_def split: if_splits)
  from Suc.IH [OF rest] Suc.prems(2) have ih: "\<forall>k < steps. (?f ^^ k) (?f cur) \<notin> insert cur visited"
    "inj_on (\<lambda>k. (?f ^^ k) (?f cur)) {..<steps}" "(?f ^^ steps) (?f cur) = cv_endpoint (vs ! 0)"
    by simp_all
  have shift: "(?f ^^ Suc k) cur = (?f ^^ k) (?f cur)" for k by (simp add: funpow_swap1)
  have out: "(?f ^^ k) cur \<notin> visited" if "k < Suc steps" for k
    using that nv ih(1) shift by (cases k) auto
  have "inj_on (\<lambda>k. (?f ^^ k) cur) {..<Suc steps}"
  proof (rule inj_onI)
    fix i j assume ij: "i \<in> {..<Suc steps}" "j \<in> {..<Suc steps}" "(?f ^^ i) cur = (?f ^^ j) cur"
    show "i = j"
    proof (cases i; cases j)
      fix a b assume "i = Suc a" "j = Suc b"
      then show ?thesis using ij shift ih(2) by (auto simp: inj_on_def)
    next
      fix b assume "i = 0" "j = Suc b"
      then show ?thesis using ij shift ih(1) by (metis funpow_0 insertCI lessThan_iff Suc_less_eq)
    next
      fix a assume "i = Suc a" "j = 0"
      then show ?thesis using ij shift ih(1) by (metis funpow_0 insertCI lessThan_iff Suc_less_eq)
    qed simp
  qed
  with out ih(3) shift show ?case by simp
qed (auto split: if_splits)

subsection \<open>Soundness\<close>

text \<open>
  \<open>ring_order vs order\<close>: following \<open>order\<close> round the ring, every node's successor is the next
  one and the next one's predecessor is the node.
\<close>

definition ring_order :: "CrownNodeView list \<Rightarrow> (nat \<Rightarrow> nat) \<Rightarrow> bool" where
  "ring_order vs order \<longleftrightarrow>
     bij_betw order {..<length vs} {..<length vs} \<and>
     (\<forall>k < length vs.
        cv_successor (vs ! order k) = cv_endpoint (vs ! order (Suc k mod length vs)) \<and>
        cv_predecessor (vs ! order (Suc k mod length vs)) = cv_endpoint (vs ! order k))"

lemma ring_order_of_walk:
  assumes tab: "index_table cv_endpoint vs be" and links: "check_links vs be vs = None"
    and walk: "ring_walk vs be (length vs) {} (cv_endpoint (vs ! 0)) = None" and ne: "vs \<noteq> []"
  shows "ring_order vs (\<lambda>k. the (be ((next_view vs be ^^ k) (cv_endpoint (vs ! 0)))))"
proof -
  let ?n = "length vs" and ?f = "next_view vs be" and ?e = "cv_endpoint (vs ! 0)"
  define ord where "ord k = the (be ((?f ^^ k) ?e))" for k
  from ring_walk_None [OF walk] have w: "inj_on (\<lambda>k. (?f ^^ k) ?e) {..<?n}" "(?f ^^ ?n) ?e = ?e" by simp_all
  have be_nth: "be (cv_endpoint (vs ! i)) = Some i" if "i < ?n" for i
    using tab that by (simp add: index_table_def)
  have be_Some: "i < ?n \<and> cv_endpoint (vs ! i) = e" if "be e = Some i" for e i
    using tab that by (simp add: index_table_def)
  have link: "\<exists>is. be (cv_successor (vs ! i)) = Some is \<and> cv_predecessor (vs ! is) = cv_endpoint (vs ! i)"
    if "i < ?n" for i
    using check_links_None [OF links nth_mem [OF that]] by blast
  have at: "be ((?f ^^ k) ?e) = Some (ord k) \<and> ord k < ?n \<and> cv_endpoint (vs ! ord k) = (?f ^^ k) ?e"
    for k
  proof (induction k)
    case 0
    then show ?case using be_nth [of 0] ne by (simp add: ord_def)
  next
    case (Suc k)
    have "(?f ^^ Suc k) ?e = cv_successor (vs ! ord k)"
      using Suc by (simp add: next_view_def [of vs be "(?f ^^ k) ?e"])
    with link [of "ord k"] Suc obtain i where i: "be ((?f ^^ Suc k) ?e) = Some i" by auto
    then have "ord (Suc k) = i" by (simp add: ord_def)
    then show ?case using be_Some [OF i] i by simp
  qed
  have step: "cv_successor (vs ! ord k) = (?f ^^ Suc k) ?e" for k
    using at [of k] by (simp add: next_view_def [of vs be "(?f ^^ k) ?e"])
  have wrap: "(?f ^^ Suc k) ?e = (?f ^^ (Suc k mod ?n)) ?e" if "k < ?n" for k
    using that w(2) by (cases "Suc k = ?n") auto
  have inj: "inj_on ord {..<?n}"
  proof (rule inj_onI)
    fix i j assume ij: "i \<in> {..<?n}" "j \<in> {..<?n}" "ord i = ord j"
    then have "(?f ^^ i) ?e = (?f ^^ j) ?e" using at by metis
    then show "i = j" using w(1) ij by (auto simp: inj_on_def)
  qed
  moreover have "ord ` {..<?n} \<subseteq> {..<?n}" using at by auto
  ultimately have "bij_betw ord {..<?n} {..<?n}" by (simp add: bij_betw_def endo_inj_surj)
  moreover have "cv_successor (vs ! ord k) = cv_endpoint (vs ! ord (Suc k mod ?n)) \<and>
      cv_predecessor (vs ! ord (Suc k mod ?n)) = cv_endpoint (vs ! ord k)" if k: "k < ?n" for k
  proof
    show s: "cv_successor (vs ! ord k) = cv_endpoint (vs ! ord (Suc k mod ?n))"
      using step [of k] wrap [OF k] at [of "Suc k mod ?n"] by simp
    obtain i where "be (cv_successor (vs ! ord k)) = Some i" "cv_predecessor (vs ! i) = cv_endpoint (vs ! ord k)"
      using link [of "ord k"] at [of k] by blast
    then show "cv_predecessor (vs ! ord (Suc k mod ?n)) = cv_endpoint (vs ! ord k)"
      using step [of k] wrap [OF k] at [of "Suc k mod ?n"] by simp
  qed
  ultimately have "ring_order vs ord" by (simp add: ring_order_def)
  moreover have "ord = (\<lambda>k. the (be ((?f ^^ k) ?e)))" by (simp add: ord_def fun_eq_iff)
  ultimately show ?thesis by simp
qed

lemma ids_contiguous_range:
  assumes "index_table cv_id vs bi" "ids_contiguous (length vs) bi"
  shows "cv_id ` set vs = {0..<int (length vs)}"
proof -
  have sub: "{0..<int (length vs)} \<subseteq> cv_id ` set vs"
  proof
    fix x assume x: "x \<in> {0..<int (length vs)}"
    then have "nat x \<in> {0..<length vs}" by auto
    then have "bi (int (nat x)) \<noteq> None"
      using assms(2) unfolding ids_contiguous_def list_all_iff set_upt by blast
    then obtain i where "i < length vs" "cv_id (vs ! i) = x"
      using assms(1) x by (auto simp: index_table_def)
    then show "x \<in> cv_id ` set vs" by force
  qed
  moreover have "card (cv_id ` set vs) \<le> length vs"
    using card_image_le [of "set vs" cv_id] card_length [of vs] by simp
  ultimately show ?thesis by (intro card_seteq [symmetric]) auto
qed

lemma validate_crown_sound:
  assumes "validate_crown_topology nodes = Inr None" "nodes \<noteq> []"
  shows "\<exists>vs order. list_all2 view_of nodes vs \<and> cv_id ` set vs = {0..<int (length nodes)} \<and>
    distinct (map cv_endpoint vs) \<and> ring_order vs order"
proof -
  from assms(1) obtain views where v: "crown_views [] Map.empty Map.empty nodes = Inr views"
    by (auto simp: validate_crown_topology_def bind_Inr)
  then obtain t where "views = Inr t"
    using assms(1) by (cases views) (auto simp: validate_crown_topology_def)
  then obtain vs be bi where views: "crown_views [] Map.empty Map.empty nodes = Inr (Inr (vs, be, bi))"
    using v by (cases t) auto
  have ids: "ids_contiguous (length vs) bi" and links: "check_links vs be vs = None"
    and walk: "ring_walk vs be (length vs) {} (cv_endpoint (vs ! 0)) = None"
    using assms(1) by (auto simp: validate_crown_topology_def views split: if_splits option.splits)
  from crown_views_tables [OF views index_table_empty index_table_empty]
  have tab: "list_all2 view_of nodes vs" "index_table cv_endpoint vs be" "index_table cv_id vs bi" by auto
  have len: "length vs = length nodes" using list_all2_lengthD [OF tab(1)] by simp
  have "distinct (map cv_endpoint vs)"
    using index_table_distinct [OF tab(2)] by (auto simp: distinct_conv_nth inj_on_def)
  moreover have "ring_order vs (\<lambda>k. the (be ((next_view vs be ^^ k) (cv_endpoint (vs ! 0)))))"
    using len assms(2) by (intro ring_order_of_walk [OF tab(2) links walk]) auto
  ultimately show ?thesis using tab(1) ids_contiguous_range [OF tab(3) ids] len by auto
qed

subsection \<open>Completeness\<close>

lemma index_table_fresh:
  assumes "index_table f vs m" "f v \<notin> f ` set vs"
  shows "m (f v) = None"
proof (rule ccontr)
  assume "m (f v) \<noteq> None"
  then obtain i where "i < length vs" "f (vs ! i) = f v"
    using assms(1) by (auto simp: index_table_def)
  then show False using assms(2) by (metis image_eqI nth_mem)
qed

lemma crown_views_complete:
  assumes "list_all2 view_of ns us" "index_table cv_endpoint parsed be" "index_table cv_id parsed bi"
    and "distinct (map cv_endpoint (parsed @ us))" "distinct (map cv_id (parsed @ us))"
  shows "\<exists>be' bi'. crown_views parsed be bi ns = Inr (Inr (parsed @ us, be', bi'))"
  using assms
proof (induction ns arbitrary: parsed be bi us)
  case (Cons n ns)
  then obtain u us' where us: "us = u # us'" "view_of n u" "list_all2 view_of ns us'"
    by (cases us) auto
  from us(2) obtain h p where n: "jn_id n = Inr (cv_id u)" "jn_host n = Inr h" "jn_port n = Inr p"
    "cv_endpoint u = endpoint_text h p" "jn_predecessor n = Link_text (cv_predecessor u)"
    "jn_successor n = Link_text (cv_successor u)"
    by (auto simp: view_of_def)
  have fresh: "be (cv_endpoint u) = None" "bi (cv_id u) = None"
    using index_table_fresh [OF Cons.prems(2), of u] index_table_fresh [OF Cons.prems(3), of u]
      Cons.prems(4,5) us(1) by auto
  have u: "\<lparr>cv_id = cv_id u, cv_endpoint = cv_endpoint u, cv_predecessor = cv_predecessor u,
    cv_successor = cv_successor u\<rparr> = u" by simp
  have step: "crown_views parsed be bi (n # ns)
    = crown_views (parsed @ [u]) (be(cv_endpoint u \<mapsto> length parsed)) (bi(cv_id u \<mapsto> length parsed)) ns"
    using fresh by (simp add: n(1-3,5,6) n(4) [symmetric] u)
  have "\<exists>be' bi'. crown_views (parsed @ [u]) (be(cv_endpoint u \<mapsto> length parsed))
      (bi(cv_id u \<mapsto> length parsed)) ns = Inr (Inr ((parsed @ [u]) @ us', be', bi'))"
    using Cons.prems(4,5) us(1,3) fresh
    by (intro Cons.IH index_table_snoc Cons.prems(2,3)) auto
  then show ?case unfolding step us(1) by simp
qed simp

lemma check_links_complete:
  assumes "\<And>n. n \<in> set ns \<Longrightarrow> \<exists>ip is. be (cv_predecessor n) = Some ip \<and> be (cv_successor n) = Some is \<and>
    cv_successor (vs ! ip) = cv_endpoint n \<and> cv_predecessor (vs ! is) = cv_endpoint n"
  shows "check_links vs be ns = None"
  using assms by (induction ns) fastforce+

lemma ring_walk_complete:
  assumes "\<And>k. k < length vs \<Longrightarrow> be (cv_endpoint (vs ! k)) = Some k \<and>
      cv_successor (vs ! k) = cv_endpoint (vs ! (Suc k mod length vs))"
    and dist: "distinct (map cv_endpoint vs)" and "s \<le> length vs" "vs \<noteq> []"
  shows "ring_walk vs be (length vs - s) ((\<lambda>i. cv_endpoint (vs ! i)) ` {..<s})
    (cv_endpoint (vs ! (s mod length vs))) = None"
  using assms(3)
proof (induction "length vs - s" arbitrary: s)
  case 0
  let ?e = "\<lambda>i. cv_endpoint (vs ! i)"
  have "s = length vs" using 0 by simp
  moreover have "inj_on ?e {..<length vs}"
    using dist by (auto simp: inj_on_def distinct_conv_nth)
  ultimately show ?case by (simp add: card_image)
next
  case (Suc d)
  let ?e = "\<lambda>i. cv_endpoint (vs ! i)"
  have s: "s < length vs" "length vs - s = Suc (length vs - Suc s)" using Suc.hyps(2) by auto
  have "?e s \<notin> ?e ` {..<s}" using dist s(1) by (auto simp: distinct_conv_nth)
  moreover have "insert (?e s) (?e ` {..<s}) = ?e ` {..<Suc s}" by (auto simp: lessThan_Suc)
  ultimately have "ring_walk vs be (length vs - s) (?e ` {..<s}) (?e (s mod length vs))
    = ring_walk vs be (length vs - Suc s) (?e ` {..<Suc s}) (?e (Suc s mod length vs))"
    using s assms(1) [OF s(1)] by simp
  then show ?case using Suc.hyps(1) [of "Suc s"] Suc.hyps(2) s(1) by simp
qed

text \<open>A ring listed in order is accepted.\<close>

lemma validate_crown_complete:
  assumes views: "list_all2 view_of nodes vs" and ne: "vs \<noteq> []"
    and ids: "\<And>i. i < length vs \<Longrightarrow> cv_id (vs ! i) = int i"
    and dist: "distinct (map cv_endpoint vs)"
    and succ: "\<And>k. k < length vs \<Longrightarrow> cv_successor (vs ! k) = cv_endpoint (vs ! (Suc k mod length vs))"
    and pred: "\<And>k. k < length vs \<Longrightarrow> cv_predecessor (vs ! (Suc k mod length vs)) = cv_endpoint (vs ! k)"
  shows "validate_crown_topology nodes = Inr None"
proof -
  let ?n = "length vs"
  have "distinct (map cv_id vs)" by (simp add: distinct_conv_nth ids)
  with crown_views_complete [OF views index_table_empty index_table_empty] dist obtain be bi where
    cv: "crown_views [] Map.empty Map.empty nodes = Inr (Inr (vs, be, bi))" by auto
  from crown_views_tables [OF cv index_table_empty index_table_empty]
  have tab: "index_table cv_endpoint vs be" "index_table cv_id vs bi" by auto
  have be: "be (cv_endpoint (vs ! k)) = Some k" if "k < ?n" for k
    using tab(1) that by (simp add: index_table_def)
  have bi: "bi (int k) = Some k" if "k < ?n" for k
    using tab(2) that ids by (simp add: index_table_def)
  have "ids_contiguous ?n bi" using bi by (simp add: ids_contiguous_def list_all_iff)
  moreover have "check_links vs be vs = None"
  proof (rule check_links_complete)
    fix x assume "x \<in> set vs"
    then obtain k where k: "k < ?n" "x = vs ! k" by (auto simp: in_set_conv_nth)
    let ?s = "Suc k mod ?n"
    have s: "?s < ?n" using k(1) by (intro mod_less_divisor) linarith
    obtain q where q: "q < ?n" "Suc q mod ?n = k"
    proof
      show "(if k = 0 then ?n - 1 else k - 1) < ?n" "Suc (if k = 0 then ?n - 1 else k - 1) mod ?n = k"
        using k(1) by auto
    qed
    show "\<exists>ip is. be (cv_predecessor x) = Some ip \<and> be (cv_successor x) = Some is \<and>
        cv_successor (vs ! ip) = cv_endpoint x \<and> cv_predecessor (vs ! is) = cv_endpoint x"
      using be [OF s] be [OF q(1)] succ [OF k(1)] pred [OF k(1)] succ [OF q(1)] pred [OF q(1)]
      by (simp add: k(2) q(2))
  qed
  moreover have "ring_walk vs be ?n {} (cv_endpoint (vs ! 0)) = None"
    using ring_walk_complete [of vs be 0] be succ dist ne by simp
  ultimately show ?thesis by (simp add: validate_crown_topology_def cv)
qed

end
