(* ===== verification/Client_Deployment.thy ===== *)
theory Client_Deployment
  imports Client_Validation Deployment
begin

section \<open>The client sets up the deployments the cluster theorems are about\<close>

text \<open>
  \<open>deployment_json\<close> is the configuration file of a deployment (src/config.json and
  src/config.crown.sample.json are of this form). The client accepts it, sends each node the
  message \<open>node_proto\<close>, and afterwards routes every write to the head of its key and every
  CHAIN or CROWN read to the tail.
\<close>

fun pb_mode_of :: "ReplicationMode \<Rightarrow> pb_ReplicationMode" where
  "pb_mode_of CHAIN = PB_CHAIN"
| "pb_mode_of CRAQ = PB_CRAQ"
| "pb_mode_of CROWN = PB_CROWN"

fun mode_text :: "ReplicationMode \<Rightarrow> string" where
  "mode_text CHAIN = ''chain''"
| "mode_text CRAQ = ''craq''"
| "mode_text CROWN = ''crown''"

definition node_json :: "ReplicationMode \<Rightarrow> pb_NodeAddress list \<Rightarrow> nat \<Rightarrow> json_node" where
  "node_json m as i =
     (let n = length as in
      \<lparr>jn_id = Inr (int i), jn_host = Inr (pb_host (as ! i)), jn_port = Inr (pb_port (as ! i)),
       jn_is_head = Inr (m \<noteq> CROWN \<and> i = 0), jn_is_tail = Inr (m \<noteq> CROWN \<and> Suc i = n),
       jn_predecessor =
         (if m = CROWN then Link_text (pb_endpoint (as ! ((i + n - 1) mod n)))
          else if i = 0 then Link_null else Link_text (pb_endpoint (as ! (i - 1)))),
       jn_successor =
         (if m = CROWN then Link_text (pb_endpoint (as ! (Suc i mod n)))
          else if Suc i < n then Link_text (pb_endpoint (as ! Suc i)) else Link_null)\<rparr>)"

definition deployment_nodes :: "ReplicationMode \<Rightarrow> pb_NodeAddress list \<Rightarrow> json_node list" where
  "deployment_nodes m as = map (node_json m as) [0..<length as]"

definition deployment_json :: "ReplicationMode \<Rightarrow> pb_NodeAddress list \<Rightarrow> json_config" where
  "deployment_json m as =
     \<lparr>jc_mode = Inr (mode_text m), jc_nodes = Some (Node_array (deployment_nodes m as))\<rparr>"

definition ports_fit :: "pb_NodeAddress list \<Rightarrow> bool" where
  "ports_fit as \<longleftrightarrow> (\<forall>a \<in> set as. fits_int (pb_port a))"

lemma endpoint_text_pb: "endpoint_text (pb_host a) (pb_port a) = pb_endpoint a"
  by (simp add: endpoint_text_def pb_endpoint_def addr_to_string_def addr_from_proto_def)

lemma parse_addr_endpoint: "fits_int (pb_port a) \<Longrightarrow> parse_addr (pb_endpoint a) = Inr a"
  using parse_addr_print [of "pb_port a" "pb_host a"]
  by (simp add: pb_endpoint_def addr_to_string_def addr_from_proto_def)

lemma parse_addr_nth: "ports_fit as \<Longrightarrow> i < length as \<Longrightarrow> parse_addr (pb_endpoint (as ! i)) = Inr (as ! i)"
  by (rule parse_addr_endpoint) (simp add: ports_fit_def)

subsection \<open>The Configure messages\<close>

lemma build_node_config_deployed:
  assumes "ports_fit as" "i < length as"
  shows "build_node_config (node_json m as i) (pb_mode_of m)
      (if m = CROWN then int (length as) else 0) [] = Inr (node_proto m False as i)"
proof -
  have "0 < length as" using assms(2) by linarith
  then have ix: "(i + length as - 1) mod length as < length as" "Suc i mod length as < length as"
    by (intro mod_less_divisor; simp)+
  note pa = parse_addr_nth [OF assms(1)]
  show ?thesis
    using assms(2) pa [OF ix(1)] pa [OF ix(2)] pa [of "i - 1"] pa [of "Suc i"]
    by (cases m) (auto simp: build_node_config_def node_json_def Let_def link_addr_def
        line_proto_def ring_proto_def)
qed

lemma configure_calls_deployed:
  assumes "ports_fit as" "set is \<subseteq> {..<length as}"
  shows "configure_calls (pb_mode_of m) (if m = CROWN then int (length as) else 0) (map (node_json m as) is)
    = Inr (map (\<lambda>i. (pb_endpoint (as ! i), node_proto m False as i)) is)"
  using assms(2)
proof (induction "is")
  case (Cons i "is")
  then show ?case
    using build_node_config_deployed [OF assms(1), of i m] endpoint_text_pb [of "as ! i"]
    by (simp add: node_json_def Let_def)
qed simp

subsection \<open>Validation\<close>

lemma check_node_deployed:
  assumes "ports_fit as" "i < length as"
  shows "check_node (node_json m as i) = Inr ()"
proof -
  have "0 < length as" using assms(2) by linarith
  then have ix: "(i + length as - 1) mod length as < length as" "Suc i mod length as < length as"
    by (intro mod_less_divisor; simp)+
  note pa = parse_addr_nth [OF assms(1)]
  show ?thesis
    using assms(2) pa [OF ix(1)] pa [OF ix(2)] pa [of "i - 1"] pa [of "Suc i"]
    by (auto simp: check_node_def node_json_def Let_def check_link_def)
qed

lemma check_nodes_deployed:
  assumes "ports_fit as" "set is \<subseteq> {..<length as}"
  shows "check_nodes_from j (map (node_json m as) is) = None"
  using assms(2) by (induction "is" arbitrary: j) (simp_all add: check_node_deployed [OF assms(1)])

lemma validate_minimal_deployed:
  assumes "ports_fit as" "as \<noteq> []"
  shows "validate_minimal_config (Node_array (deployment_nodes m as)) = None"
proof -
  have "check_nodes_from 0 (deployment_nodes m as) = None"
    unfolding deployment_nodes_def by (rule check_nodes_deployed [OF assms(1)]) auto
  moreover have "deployment_nodes m as \<noteq> []" using assms(2) by (simp add: deployment_nodes_def)
  ultimately show ?thesis
    by (cases "deployment_nodes m as") (simp_all add: validate_minimal_config_def)
qed

definition deployed_view :: "pb_NodeAddress list \<Rightarrow> nat \<Rightarrow> CrownNodeView" where
  "deployed_view as i =
     \<lparr>cv_id = int i, cv_endpoint = pb_endpoint (as ! i),
      cv_predecessor = pb_endpoint (as ! ((i + length as - 1) mod length as)),
      cv_successor = pb_endpoint (as ! (Suc i mod length as))\<rparr>"

lemma validate_crown_deployed:
  assumes "valid_addrs as"
  shows "validate_crown_topology (deployment_nodes CROWN as) = Inr None"
proof -
  let ?n = "length as" and ?vs = "map (deployed_view as) [0..<length as]"
  have pos: "0 < ?n" using valid_addrs_pos [OF assms] by linarith
  show ?thesis
  proof (rule validate_crown_complete [where vs = ?vs])
    show "list_all2 view_of (deployment_nodes CROWN as) ?vs"
      by (auto simp: deployment_nodes_def list_all2_map1 list_all2_map2 list_all2_same view_of_def
          deployed_view_def node_json_def Let_def endpoint_text_pb)
    have "map cv_endpoint ?vs = map pb_endpoint as"
      by (rule nth_equalityI) (auto simp: deployed_view_def)
    then show "distinct (map cv_endpoint ?vs)" using assms by (simp add: valid_addrs_def)
    show "cv_successor (?vs ! k) = cv_endpoint (?vs ! (Suc k mod length ?vs))" if "k < length ?vs" for k
      using that pos by (simp add: deployed_view_def)
    show "cv_predecessor (?vs ! (Suc k mod length ?vs)) = cv_endpoint (?vs ! k)" if k: "k < length ?vs" for k
    proof -
      have "(Suc k mod ?n + ?n - 1) mod ?n = k"
        using k by (cases "Suc k = ?n") (auto simp: mod_if)
      then show ?thesis using k pos by (simp add: deployed_view_def)
    qed
  qed (use pos in \<open>simp_all add: deployed_view_def\<close>)
qed

lemma validate_deployed:
  assumes "valid_addrs as" "ports_fit as"
  shows "validate_config_before_configure (deployment_json m as) (pb_mode_of m) = Inr None"
  using validate_minimal_deployed [OF assms(2), of m] validate_crown_deployed [OF assms(1)] assms(1)
  by (cases m) (auto simp: validate_config_before_configure_def deployment_json_def valid_addrs_def)

subsection \<open>The topology and the routes\<close>

definition deployed_topology :: "ReplicationMode \<Rightarrow> pb_NodeAddress list \<Rightarrow> Topology" where
  "deployed_topology m as =
     \<lparr>topo_mode = pb_mode_of m,
      topo_head = (if m = CROWN then None else Some 0),
      topo_tail = (if m = CROWN then None else Some (length as - 1)),
      topo_nodes = map (\<lambda>i. \<lparr>ns_id = int i, ns_endpoint = pb_endpoint (as ! i)\<rparr>) [0..<length as],
      crown_nodes_by_index = (if m = CROWN then map Some [0..<length as] else [])\<rparr>"

lemma topology_nodes_deployed:
  "topology_nodes (map (node_json m as) is)
    = Inr (map (\<lambda>i. \<lparr>ns_id = int i, ns_endpoint = pb_endpoint (as ! i)\<rparr>) is)"
  by (induction "is") (simp_all add: node_json_def Let_def endpoint_text_pb)

lemma topology_roles_deployed:
  "j \<le> length as \<Longrightarrow> topology_roles j hp tp (map (node_json m as) [j..<length as])
    = Inr (if m \<noteq> CROWN \<and> j = 0 \<and> as \<noteq> [] then Some 0 else hp,
           if m \<noteq> CROWN \<and> j < length as then Some (length as - 1) else tp)"
proof (induction "length as - j" arbitrary: j hp tp)
  case (Suc d)
  then have j: "j < length as" "[j..<length as] = j # [Suc j..<length as]"
    by (simp_all add: upt_conv_Cons)
  have "d = length as - Suc j" "Suc j \<le> length as" using Suc.hyps(2) j(1) by auto
  note ih = Suc.hyps(1) [OF this]
  show ?case unfolding j(2) using j(1) by (auto simp: node_json_def Let_def ih)
qed auto

lemma topology_index_deployed:
  "j \<le> length as \<Longrightarrow>
    topology_index j (map (\<lambda>i. if i < j then Some i else None) [0..<length as])
      (map (node_json m as) [j..<length as]) = Inr (map Some [0..<length as])"
proof (induction "length as - j" arbitrary: j)
  case 0
  then have "j = length as" by simp
  then show ?case by simp
next
  case (Suc d)
  then have j: "j < length as" "[j..<length as] = j # [Suc j..<length as]"
    by (simp_all add: upt_conv_Cons)
  have d: "d = length as - Suc j" "Suc j \<le> length as" using Suc.hyps(2) j(1) by auto
  let ?t = "\<lambda>j. map (\<lambda>i. if i < j then Some i else None) [0..<length as]"
  have "(?t j)[j := Some j] = ?t (Suc j)"
  proof (rule nth_equalityI)
    fix i assume "i < length ((?t j)[j := Some j])"
    then show "(?t j)[j := Some j] ! i = ?t (Suc j) ! i"
      by (cases "i = j") simp_all
  qed simp
  then have "topology_index j (?t j) (map (node_json m as) [j..<length as])
    = topology_index (Suc j) (?t (Suc j)) (map (node_json m as) [Suc j..<length as])"
    unfolding j(2) using j(1) by (simp add: node_json_def Let_def)
  then show ?case using Suc.hyps(1) [OF d] by simp
qed

lemma build_topology_deployed:
  assumes "as \<noteq> []"
  shows "build_topology (deployment_nodes m as) (pb_mode_of m) = Inr (deployed_topology m as)"
proof -
  have start: "map (\<lambda>i. if i < 0 then Some i else None) [0..<length as] = replicate (length as) None"
    by (rule nth_equalityI) auto
  note ix = topology_index_deployed [of 0 as m, unfolded start]
  show ?thesis
    using assms topology_nodes_deployed [of m as "[0..<length as]"] topology_roles_deployed [of 0 as None None m] ix
    by (cases m) (simp_all add: build_topology_def deployment_nodes_def deployed_topology_def)
qed

lemma craq_tail_endpoint_deployed:
  assumes "j < length as"
  shows "craq_tail_endpoint (map (node_json CRAQ as) [j..<length as]) = Inr (pb_endpoint (as ! (length as - 1)))"
  using assms
proof (induction "length as - j" arbitrary: j)
  case (Suc d)
  have j: "[j..<length as] = j # [Suc j..<length as]" using Suc.prems by (simp add: upt_conv_Cons)
  show ?case
  proof (cases "Suc j = length as")
    case True
    then have "j = length as - 1" by simp
    then show ?thesis unfolding j using True by (simp add: node_json_def Let_def endpoint_text_pb)
  next
    case False
    then have "Suc j < length as" "d = length as - Suc j" using Suc by auto
    with Suc.hyps(1) show ?thesis unfolding j using False by (simp add: node_json_def Let_def)
  qed
qed simp

lemma client_prepare_deployed:
  assumes "valid_addrs as" "ports_fit as" "\<And>target c. Status_ok (configure_rpc target c)"
  shows "client_prepare configure_rpc True (deployment_json m as) = Ready (deployed_topology m as)
    (map (\<lambda>i. (pb_endpoint (as ! i), node_proto m False as i)) [0..<length as])"
proof -
  have pos: "0 < length as" "as \<noteq> []" using valid_addrs_pos [OF assms(1)] by auto
  have mode: "client_parse_mode (mode_text m) = Inr (pb_mode_of m)" "pb_mode_of m = PB_CROWN \<longleftrightarrow> m = CROWN"
    by (cases m; simp add: client_parse_mode_def)+
  have calls: "configure_calls (pb_mode_of m)
      (if m = CROWN then int (length (deployment_nodes m as)) else 0) (deployment_nodes m as)
    = Inr (map (\<lambda>i. (pb_endpoint (as ! i), node_proto m False as i)) [0..<length as])"
    unfolding deployment_nodes_def length_map length_upt minus_nat.diff_0
    by (rule configure_calls_deployed [OF assms(2)]) (simp add: atLeast0LessThan)
  have "pb_endpoint a \<noteq> []" for a
    by (simp add: pb_endpoint_def addr_to_string_def)
  then have tail: "craq_tail_missing (pb_mode_of m) (deployment_nodes m as) = Inr False"
    using craq_tail_endpoint_deployed [OF pos(1)]
    by (cases m) (simp_all add: craq_tail_missing_def deployment_nodes_def)
  have none: "filter (\<lambda>(target, c). \<not> Status_ok (configure_rpc target c)) cs = []" for cs
    using assms(3) by (induction cs) auto
  show ?thesis
    unfolding client_prepare_def deployment_json_def
    using validate_deployed [OF assms(1,2), of m] build_topology_deployed [OF pos(2), of m]
    by (simp only: json_config.simps get_simps or_terminate_simps of_cxx_simps mode option.simps
        json_nodes.simps deployment_json_def calls tail Let_def simp_thms if_True if_False none
        list.size less_irrefl)
qed

text \<open>The endpoint behind a pointer into the nodes.\<close>

definition pointer_endpoint :: "Topology \<Rightarrow> nat option \<Rightarrow> stub option" where
  "pointer_endpoint topo ptr = map_option (\<lambda>i. ns_endpoint (topo_nodes topo ! i)) ptr"

lemma crown_slot_deployed:
  "crown_head_slot (deployed_topology CROWN as) key = unat (fnv1a64 key) mod length as"
  by (simp add: crown_head_slot_def deployed_topology_def hash_key_eq)

lemma head_position_crown:
  assumes "valid_addrs as"
  shows "head_position CROWN as key = unat (fnv1a64 key) mod length as"
proof -
  have "0 < int (length as)" "int (length as) \<le> int_max"
    using valid_addrs_pos [OF assms] assms by (auto simp: valid_addrs_def)
  from crown_head_index_mod [OF this, of key] show ?thesis
    by (simp only: head_position_def zmod_int [symmetric] nat_int refl if_True)
qed

lemma routes_deployed:
  assumes "valid_addrs as"
  shows "pointer_endpoint (deployed_topology m as) (resolve_write_target (deployed_topology m as) key)
      = Some (head_of m as key)"
    and "m \<noteq> CRAQ \<Longrightarrow>
      pointer_endpoint (deployed_topology m as) (resolve_read_target rnd (deployed_topology m as) key wanted)
      = Some (tail_of m as key)"
proof -
  let ?n = "length as"
  have pos: "0 < ?n" using valid_addrs_pos [OF assms] by linarith
  have h: "unat (fnv1a64 key) mod ?n < ?n" using pos by simp
  have t: "(unat (fnv1a64 key) mod ?n + ?n - 1) mod ?n < ?n" using pos by simp
  have add1: "unat (fnv1a64 key) mod ?n + ?n - Suc 0 = unat (fnv1a64 key) mod ?n + (?n - Suc 0)" using pos by linarith
  show "pointer_endpoint (deployed_topology m as) (resolve_write_target (deployed_topology m as) key)
      = Some (head_of m as key)"
  proof (cases "m = CROWN")
    case True
    then show ?thesis
      using h pos head_position_crown [OF assms, of key]
      by (simp add: pointer_endpoint_def resolve_write_target_def crown_head_for_def
          crown_slot_deployed head_of_def position_def) (simp add: deployed_topology_def)
  next
    case False
    then show ?thesis
      using pos by (cases m) (simp_all add: pointer_endpoint_def resolve_write_target_def head_of_def
          position_def head_position_def deployed_topology_def)
  qed
  show "pointer_endpoint (deployed_topology m as) (resolve_read_target rnd (deployed_topology m as) key wanted)
      = Some (tail_of m as key)" if "m \<noteq> CRAQ"
  proof (cases "m = CROWN")
    case True
    then show ?thesis
      using t pos head_position_crown [OF assms, of key]
      by (simp add: pointer_endpoint_def resolve_read_target_def crown_tail_for_def Let_def
          crown_slot_deployed tail_of_def position_def)
        (simp add: deployed_topology_def add1)
  next
    case False
    then show ?thesis
      using pos that by (cases m) (simp_all add: pointer_endpoint_def resolve_read_target_def tail_of_def
          position_def head_position_def deployed_topology_def)
  qed
qed

end
