(* ===== verification/Kv_Deployment.thy ===== *)
theory Kv_Deployment
  imports Kv_Client Client_Deployment
begin

section \<open>The command line client on a deployment\<close>

text \<open>
  Given the configuration file of a deployment, kv\_client sends a write to the head of its
  key and a read to the tail (CHAIN, CROWN) or to the head (CRAQ), the nodes the cluster
  theorems are about.
\<close>

definition kv_nodes :: "ReplicationMode \<Rightarrow> pb_NodeAddress list \<Rightarrow> NodeInfo list" where
  "kv_nodes m as =
     map (\<lambda>i. \<lparr>ni_id = int i, ni_host = pb_host (as ! i), ni_port = pb_port (as ! i),
               ni_is_head = (m \<noteq> CROWN \<and> i = 0), ni_is_tail = (m \<noteq> CROWN \<and> Suc i = length as)\<rparr>)
       [0..<length as]"

lemma length_kv_nodes [simp]: "length (kv_nodes m as) = length as"
  by (simp add: kv_nodes_def)

lemma kv_nodes_endpoint:
  "i < length as \<Longrightarrow> NodeInfo_endpoint (kv_nodes m as ! i) = pb_endpoint (as ! i)"
  using endpoint_text_pb [of "as ! i"] by (simp add: kv_nodes_def NodeInfo_endpoint_def endpoint_text_def)

lemma parse_nodes_deployed:
  "parse_nodes_from j (map (node_json m as) is) = Inr (map (\<lambda>i.
     \<lparr>ni_id = int i, ni_host = pb_host (as ! i), ni_port = pb_port (as ! i),
      ni_is_head = (m \<noteq> CROWN \<and> i = 0), ni_is_tail = (m \<noteq> CROWN \<and> Suc i = length as)\<rparr>) is)"
  by (induction "is" arbitrary: j) (simp_all add: parse_node_def node_json_def Let_def)

lemma load_config_deployed:
  assumes "as \<noteq> []"
  shows "load_config (Inr (deployment_json m as)) = Inr (m, kv_nodes m as)"
proof -
  obtain n ns where n: "deployment_nodes m as = n # ns"
    using assms by (cases "deployment_nodes m as") (simp_all add: deployment_nodes_def)
  have "parse_nodes (Node_array (deployment_nodes m as)) = parse_nodes_from 0 (deployment_nodes m as)"
    by (simp add: parse_nodes_def n)
  then have "parse_nodes (Node_array (deployment_nodes m as)) = Inr (kv_nodes m as)"
    by (simp add: deployment_nodes_def parse_nodes_deployed kv_nodes_def)
  moreover have "kv_parse_mode (mode_text m) = Inr m" by (cases m) (simp_all add: kv_parse_mode_def)
  ultimately show ?thesis by (simp add: load_config_def deployment_json_def)
qed

text \<open>The node of a CHAIN or CRAQ deployment with the flag.\<close>

lemma filter_upt_single: "i < n \<Longrightarrow> filter (\<lambda>j. j = i) [0..<n] = [i]"
  by (induction n) (auto simp: less_Suc_eq)

lemma kv_global_roles:
  assumes "m \<noteq> CROWN" "as \<noteq> []"
  shows "find_global_role (kv_nodes m as) ni_is_head ''head'' = Inr (kv_nodes m as ! 0)"
    and "find_global_role (kv_nodes m as) ni_is_tail ''tail'' = Inr (kv_nodes m as ! (length as - 1))"
proof -
  have pos: "0 < length as" using assms(2) by simp
  have last: "(\<lambda>i. Suc i = length as) = (\<lambda>i. i = length as - 1)" using pos by auto
  have "filter (\<lambda>i. i = 0) [0..<length as] = [0]"
    "filter (\<lambda>i. Suc i = length as) [0..<length as] = [length as - 1]"
    unfolding last using pos by (intro filter_upt_single; simp)+
  then show "find_global_role (kv_nodes m as) ni_is_head ''head'' = Inr (kv_nodes m as ! 0)"
    "find_global_role (kv_nodes m as) ni_is_tail ''tail'' = Inr (kv_nodes m as ! (length as - 1))"
    using assms pos by (simp_all add: find_global_role_iff kv_nodes_def filter_map o_def)
qed

text \<open>The id table of a CROWN deployment.\<close>

lemma build_crown_deployed:
  "build_crown_by_id (kv_nodes CROWN as) = Inr (map Some (kv_nodes CROWN as))"
proof -
  let ?ns = "kv_nodes CROWN as" let ?n = "length as"
  let ?t = "\<lambda>j. map (\<lambda>i. if i < j then Some (?ns ! i) else None) [0..<?n]"
  have loop: "j \<le> ?n \<Longrightarrow> build_crown_loop ?n (?t j) (drop j ?ns) = Inr (map Some ?ns)" for j
  proof (induction "?n - j" arbitrary: j)
    case 0
    then have "j = ?n" by simp
    moreover have "?t ?n = map Some ?ns" by (rule nth_equalityI) simp_all
    ultimately show ?case by simp
  next
    case (Suc d)
    then have j: "j < ?n" "d = ?n - Suc j" "Suc j \<le> ?n" by auto
    have "drop j ?ns = ?ns ! j # drop (Suc j) ?ns" using j(1) by (simp add: Cons_nth_drop_Suc)
    moreover have "ni_id (?ns ! j) = int j" using j(1) by (simp add: kv_nodes_def)
    moreover have "(?t j)[j := Some (?ns ! j)] = ?t (Suc j)"
    proof (rule nth_equalityI)
      fix i assume "i < length ((?t j)[j := Some (?ns ! j)])"
      then show "(?t j)[j := Some (?ns ! j)] ! i = ?t (Suc j) ! i" by (cases "i = j") simp_all
    qed simp
    ultimately show ?case using Suc.hyps(1) [OF j(2,3)] j(1) by simp
  qed
  have "?t 0 = replicate ?n None" by (rule nth_equalityI) simp_all
  with loop [of 0] show ?thesis by (simp add: build_crown_by_id_def)
qed

subsection \<open>Targets\<close>

definition kv_by_id :: "ReplicationMode \<Rightarrow> pb_NodeAddress list \<Rightarrow> NodeInfo option list" where
  "kv_by_id m as = (if m = CROWN then map Some (kv_nodes m as) else [])"

definition kv_read_node :: "ReplicationMode \<Rightarrow> pb_NodeAddress list \<Rightarrow> string \<Rightarrow> stub" where
  "kv_read_node m as key = (if m = CRAQ then head_of m as key else tail_of m as key)"

lemma kv_targets_deployed:
  assumes "valid_addrs as"
  shows "\<exists>t. kv_write_target m (kv_nodes m as) (kv_by_id m as) key = Inr t \<and>
      NodeInfo_endpoint t = head_of m as key"
    and "\<exists>t. kv_read_target m (kv_nodes m as) (kv_by_id m as) key = Inr t \<and>
      NodeInfo_endpoint t = kv_read_node m as key"
proof -
  let ?n = "length as" and ?h = "unat (fnv1a64 key) mod length as"
  have pos: "0 < ?n" "as \<noteq> []" using valid_addrs_pos [OF assms] by auto
  then have ix: "?h < ?n" "(?h + ?n - Suc 0) mod ?n < ?n" by simp_all
  have eq: "?h + (?n - Suc 0) = ?h + ?n - Suc 0" using pos(1) by linarith
  note ends = kv_nodes_endpoint [OF ix(1), of m] kv_nodes_endpoint [OF ix(2), of m]
  have slots: "map Some (kv_nodes m as) ! ?h = Some (kv_nodes m as ! ?h)"
    "map Some (kv_nodes m as) ! ((?h + ?n - Suc 0) mod ?n) = Some (kv_nodes m as ! ((?h + ?n - Suc 0) mod ?n))"
    using ix by simp_all
  note line = kv_global_roles [OF _ pos(2), of m] kv_nodes_endpoint [of 0 as m] kv_nodes_endpoint [of "?n - 1" as m]
  show "\<exists>t. kv_write_target m (kv_nodes m as) (kv_by_id m as) key = Inr t \<and>
      NodeInfo_endpoint t = head_of m as key"
    using pos line ends slots head_position_crown [OF assms, of key]
    by (cases m) (simp_all add: kv_write_target_def kv_by_id_def kv_head_index_def kv_crown_slot_def
        head_of_def position_def head_position_line)
  show "\<exists>t. kv_read_target m (kv_nodes m as) (kv_by_id m as) key = Inr t \<and>
      NodeInfo_endpoint t = kv_read_node m as key"
    using pos line ends slots head_position_crown [OF assms, of key]
    by (cases m) (simp_all add: kv_read_target_def kv_by_id_def kv_head_index_def kv_crown_slot_def Let_def
        kv_read_node_def head_of_def tail_of_def position_def head_position_line eq)
qed

lemma kv_client_deployed:
  assumes "valid_addrs as" "files path = Inr (deployment_json m as)"
  shows "write_call rpc (head_of m as key) \<lparr>wreq_key = key, wreq_value = x, wreq_version = 0,
        wreq_client_addr = [], wreq_request_id = 0\<rparr> = (st, resp) \<Longrightarrow> Status_ok st \<Longrightarrow> wresp_success resp \<Longrightarrow>
      kv_client_main rpc files [''write'', path, key, x] = Kv_wrote (head_of m as key) (wresp_version resp)"
    and "read_call rpc (kv_read_node m as key) \<lparr>rreq_key = key\<rparr> = (st, rresp) \<Longrightarrow> Status_ok st \<Longrightarrow>
      kv_client_main rpc files [''read'', path, key]
        = Kv_read (kv_read_node m as key) (rresp_version rresp) (rresp_value rresp)"
proof -
  have ne: "as \<noteq> []" using valid_addrs_pos [OF assms(1)] by auto
  have ids: "(if m = CROWN then build_crown_by_id (kv_nodes m as) else Inr []) = Inr (kv_by_id m as)"
    using build_crown_deployed [of as] by (simp add: kv_by_id_def)
  obtain t where t: "kv_write_target m (kv_nodes m as) (kv_by_id m as) key = Inr t"
    "NodeInfo_endpoint t = head_of m as key" using kv_targets_deployed(1) [OF assms(1)] by blast
  obtain u where u: "kv_read_target m (kv_nodes m as) (kv_by_id m as) key = Inr u"
    "NodeInfo_endpoint u = kv_read_node m as key" using kv_targets_deployed(2) [OF assms(1)] by blast
  note common = kv_client_main_def assms(2) load_config_deployed [OF ne] ids
  show "kv_client_main rpc files [''write'', path, key, x] = Kv_wrote (head_of m as key) (wresp_version resp)"
    if "write_call rpc (head_of m as key) \<lparr>wreq_key = key, wreq_value = x, wreq_version = 0,
        wreq_client_addr = [], wreq_request_id = 0\<rparr> = (st, resp)" "Status_ok st" "wresp_success resp"
    using that t by (simp add: common do_write_rpc_def)
  show "kv_client_main rpc files [''read'', path, key]
      = Kv_read (kv_read_node m as key) (rresp_version rresp) (rresp_value rresp)"
    if "read_call rpc (kv_read_node m as key) \<lparr>rreq_key = key\<rparr> = (st, rresp)" "Status_ok st"
    using that u by (simp add: common do_read_rpc_def)
qed

end
