(* ===== verification/Client_Properties.thy ===== *)
theory Client_Properties
  imports Client_Benchmark Client_Commands Client_Topology Kv_Deployment Cluster_Run
begin

section \<open>Properties of the clients\<close>

text \<open>
  The properties of src/src/client/client.cpp and kv\_client.cpp, on the lemmas of the client
  theories: setting up a deployment, routing, command lines, request bookkeeping, benchmarks.
  Each is followed by an instance where it has hypotheses.
\<close>

subsection \<open>Setting up a deployment\<close>

text \<open>
  Given the configuration file of a deployment, the client accepts it in every mode, sends
  each node one Configure message, which brings up exactly the servers of the cluster
  theorems, and keeps the topology of the deployment.
\<close>

lemma client_sets_up_deployment:
  assumes "valid_addrs as" "ports_fit as" "\<And>target c. Status_ok (configure_rpc target c)"
  shows "\<exists>calls. client_prepare configure_rpc True (deployment_json m as) = Ready (deployed_topology m as) calls \<and>
    map fst calls = map pb_endpoint as \<and>
    map_of (map (\<lambda>(target, cfg). (target, snd (rpc_Configure cfg (Server_init hw)))) calls)
      = servers (deployed hw m False as)"
proof -
  let ?calls = "map (\<lambda>i. (pb_endpoint (as ! i), node_proto m False as i)) [0..<length as]"
  have "map_of (map (\<lambda>(target, cfg). (target, snd (rpc_Configure cfg (Server_init hw)))) ?calls)
    = servers (deployed hw m False as)"
    by (simp add: deployed_def configured_def o_def)
  moreover have "map fst ?calls = map pb_endpoint as" by (rule nth_equalityI) simp_all
  ultimately show ?thesis
    using client_prepare_deployed [where configure_rpc = configure_rpc and m = m, OF assms] by (intro exI [of _ ?calls]) blast
qed

lemma sample_ports: "ports_fit sample_addrs"
  by code_simp

text \<open>
  C20. Client and servers agree on the ends of every chain: the write target of the client is
  the node at position 0 of the key's chain, and its CHAIN or CROWN read target the last one.
\<close>

theorem client_routes_to_chain_ends:
  assumes "valid_addrs as"
  shows "pointer_endpoint (deployed_topology m as) (resolve_write_target (deployed_topology m as) key)
      = Some (position m as key 0) \<and>
    (m \<noteq> CRAQ \<longrightarrow>
      pointer_endpoint (deployed_topology m as) (resolve_read_target rnd (deployed_topology m as) key wanted)
      = Some (position m as key (length as - 1)))"
  using routes_deployed [OF assms] by (simp add: head_of_def tail_of_def)

theorem client_routes_to_chain_ends_witness:
  "pointer_endpoint (deployed_topology CROWN sample_addrs)
      (resolve_write_target (deployed_topology CROWN sample_addrs) ''k'') = Some ''127.0.0.1:50053'' \<and>
    pointer_endpoint (deployed_topology CROWN sample_addrs)
      (resolve_read_target 0 (deployed_topology CROWN sample_addrs) ''k'' (-1)) = Some ''127.0.0.1:50052''"
proof -
  have "position CROWN sample_addrs ''k'' 0 = ''127.0.0.1:50053''"
    "position CROWN sample_addrs ''k'' (length sample_addrs - 1) = ''127.0.0.1:50052''" by code_simp+
  then show ?thesis
    using client_routes_to_chain_ends [OF sample_valid, where m = CROWN and key = "''k''" and rnd = 0 and wanted = "-1"]
    by simp
qed

text \<open>
  C29. A topology the client built has no dangling pointer, its CROWN table is complete and in
  order of the ids, and whatever node routing picks is one of its nodes; in CROWN mode it
  always picks one.
\<close>

theorem topology_has_no_dangling_pointer:
  assumes "build_topology js m = Inr topo"
  shows "topology_ok topo \<and>
    (\<forall>key i. resolve_write_target topo key = Some i \<longrightarrow> i < length js) \<and>
    (\<forall>key wanted random_index i. random_index < length js \<and>
       resolve_read_target random_index topo key wanted = Some i \<longrightarrow> i < length js) \<and>
    (m = PB_CROWN \<and> js \<noteq> [] \<longrightarrow> (\<forall>key. resolve_write_target topo key \<noteq> None))"
  using build_topology_ok [OF assms] routes_in_range [of topo] by (metis length_greater_0_conv)

theorem topology_has_no_dangling_pointer_witness:
  "topology_ok (deployed_topology CRAQ sample_addrs)"
  using topology_has_no_dangling_pointer [OF build_topology_deployed, of sample_addrs CRAQ]
  by (simp add: sample_addrs_def)

text \<open>
  C28. A CROWN configuration passes the validation only if its ids are \<open>0 .. n - 1\<close>, its
  endpoints are distinct and its links form one cycle through all nodes, each predecessor the
  inverse of a successor.
\<close>

theorem crown_validation_sound:
  assumes "validate_crown_topology nodes = Inr None" "nodes \<noteq> []"
  shows "\<exists>vs order. list_all2 view_of nodes vs \<and> cv_id ` set vs = {0..<int (length nodes)} \<and>
    distinct (map cv_endpoint vs) \<and> ring_order vs order"
  by (rule validate_crown_sound [OF assms])

theorem crown_validation_sound_witness:
  "\<exists>vs order. list_all2 view_of (deployment_nodes CROWN sample_addrs) vs \<and> ring_order vs order"
  using crown_validation_sound [OF validate_crown_deployed [OF sample_valid]]
  by (auto simp: deployment_nodes_def sample_addrs_def)

text \<open>
  But the cycle need not be in the order of the ids, which the servers count by. In this run of
  the accepted three-node ring 0, 2, 1 a write is acknowledged by the node before its head in the
  order of the ids and never reaches the third node.
\<close>

definition crossed_node :: "int \<times> nat \<times> nat \<Rightarrow> json_node" where
  "crossed_node x =
     (let (i, p, s) = x; a = sample_addrs ! nat i in
      \<lparr>jn_id = Inr i, jn_host = Inr (pb_host a), jn_port = Inr (pb_port a), jn_is_head = Inr False,
       jn_is_tail = Inr False, jn_predecessor = Link_text (pb_endpoint (sample_addrs ! p)),
       jn_successor = Link_text (pb_endpoint (sample_addrs ! s))\<rparr>)"

definition crossed_json :: json_config where
  "crossed_json = \<lparr>jc_mode = Inr ''crown'',
     jc_nodes = Some (Node_array (map crossed_node [(0, 1, 2), (1, 2, 0), (2, 0, 1)]))\<rparr>"

definition crossed_cluster :: Cluster where
  "crossed_cluster =
     (case client_prepare (\<lambda>_ _. Status_OK) True crossed_json of
        Ready topo calls \<Rightarrow>
          \<lparr>servers = map_of (map (\<lambda>(target, cfg). (target, configured 2 cfg)) calls),
           prop_calls = [], ack_calls = [], accepted = []\<rparr>
      | _ \<Rightarrow> \<lparr>servers = Map.empty, prop_calls = [], ack_calls = [], accepted = []\<rparr>)"

definition crossed_run :: "Cluster option" where
  "crossed_run =
     (case exec_event (Client_write (pb_endpoint (sample_addrs ! 2)) (sample_write ''v'')) crossed_cluster of
        None \<Rightarrow> None
      | Some c \<Rightarrow> pass_along CROWN [pb_endpoint (sample_addrs ! 2)] c)"

definition acks_of :: "Cluster \<Rightarrow> stub \<Rightarrow> nat" where
  "acks_of c a = (case servers c a of None \<Rightarrow> 0 | Some sv \<Rightarrow> length (ack_log sv))"

definition queued_at :: "Cluster \<Rightarrow> stub \<Rightarrow> nat" where
  "queued_at c a = (case servers c a of None \<Rightarrow> 0 | Some sv \<Rightarrow> length (queue (dispatchers sv CROWN)))"

lemma crossed_ring_skips_replica:
  "(case crossed_run of None \<Rightarrow> False | Some c \<Rightarrow>
      accepted c = [(''k'', 1, ''v'')] \<and> prop_calls c = [] \<and>
      list_all (\<lambda>a. queued_at c (pb_endpoint a) = 0) sample_addrs \<and>
      acks_of c (pb_endpoint (sample_addrs ! 1)) = 1 \<and>
      latest_seen_version (key_at c (pb_endpoint (sample_addrs ! 0)) ''k'') = 0)"
  by code_simp

subsection \<open>The key-value command line client\<close>

text \<open>
  C40. With the configuration file of a CHAIN or CROWN deployment, kv\_client sends a write to the
  head of the key (the first node of its chain) and a read to its tail (the last one), and reports
  the version and the value that node answered.
\<close>

theorem kv_client_on_deployment:
  assumes "valid_addrs as" "m \<noteq> CRAQ" "files path = Inr (deployment_json m as)"
    and "write_call rpc (head_of m as key) \<lparr>wreq_key = key, wreq_value = x, wreq_version = 0,
      wreq_client_addr = [], wreq_request_id = 0\<rparr> = (Status_OK, resp)" "wresp_success resp"
    and "read_call rpc (tail_of m as key) \<lparr>rreq_key = key\<rparr> = (Status_OK, rresp)"
  shows "kv_client_main rpc files [''write'', path, key, x] = Kv_wrote (head_of m as key) (wresp_version resp) \<and>
    kv_client_main rpc files [''read'', path, key]
      = Kv_read (tail_of m as key) (rresp_version rresp) (rresp_value rresp)"
proof -
  have tail: "kv_read_node m as key = tail_of m as key" using assms(2) by (simp add: kv_read_node_def)
  note client = kv_client_deployed [where rpc = rpc and files = files and path = path, OF assms(1,3)]
  show ?thesis
    using client(1) [OF assms(4) _ assms(5)] client(2) [of key, unfolded tail, OF assms(6)] by simp
qed

text \<open>A deployment whose nodes answer writes and reads only where the key starts and ends.\<close>

definition sample_kv_rpc :: Kv_rpc where
  "sample_kv_rpc =
     \<lparr>write_call = (\<lambda>b req. if b = head_of CROWN sample_addrs (wreq_key req)
        then (Status_OK, \<lparr>wresp_success = True, wresp_version = 5\<rparr>)
        else (unavailable, \<lparr>wresp_success = False, wresp_version = 0\<rparr>)),
      read_call = (\<lambda>b req. if b = tail_of CROWN sample_addrs (rreq_key req)
        then (Status_OK, \<lparr>rresp_key = rreq_key req, rresp_value = ''v'', rresp_version = 5\<rparr>)
        else (unavailable, \<lparr>rresp_key = [], rresp_value = [], rresp_version = 0\<rparr>))\<rparr>"

theorem kv_client_on_deployment_witness:
  "kv_client_main sample_kv_rpc (\<lambda>_. Inr (deployment_json CROWN sample_addrs)) [''write'', ''c.json'', ''k'', ''v'']
      = Kv_wrote (head_of CROWN sample_addrs ''k'') 5 \<and>
    kv_client_main sample_kv_rpc (\<lambda>_. Inr (deployment_json CROWN sample_addrs)) [''read'', ''c.json'', ''k'']
      = Kv_read (tail_of CROWN sample_addrs ''k'') 5 ''v''"
  using kv_client_on_deployment [where files = "\<lambda>_. Inr (deployment_json CROWN sample_addrs)"
      and rpc = sample_kv_rpc and m = CROWN and key = "''k''" and x = "''v''" and path = "''c.json''",
      OF sample_valid _ refl]
  by (simp add: sample_kv_rpc_def)

subsection \<open>Command lines\<close>

text \<open>
  C38. Whatever the command line, an accepted one has the ack port in 1 .. 65535, and for a
  benchmark at least one operation and one key, the client index below the number of clients,
  both hotspot percentages in 0 .. 100 and every int in the range of int.
\<close>

theorem accepted_run_mode_in_bounds:
  assumes "parse_run_mode_args args = Inr (ack_port, run, cfg)"
  shows "1 \<le> ack_port \<and> ack_port \<le> 65535 \<and>
    (run \<noteq> INTERACTIVE \<longrightarrow> 0 < total_ops cfg \<and> 0 < key_count cfg \<and> key_count cfg \<le> int_max \<and>
       0 \<le> client_index cfg \<and> client_index cfg < num_clients cfg \<and> num_clients cfg \<le> int_max \<and>
       0 \<le> crown_hot_head_pct cfg \<and> crown_hot_head_pct cfg \<le> 100 \<and>
       0 \<le> read_hot_key_pct cfg \<and> read_hot_key_pct cfg \<le> 100)"
  using parse_run_mode_args_range [OF assms] by (simp add: bench_ok_def)

theorem accepted_run_mode_in_bounds_witness:
  "\<exists>cfg. parse_run_mode_args [''60001'', ''bench-write'', ''10'', ''5'', ''0'', ''2'', ''hot=40''] = Inr (60001, BENCH_WRITE, cfg) \<and>
    crown_hot_head_pct cfg \<le> 100 \<and> client_index cfg < num_clients cfg"
proof -
  have "map_sum id (\<lambda>(p, run, cfg). (p, run)) (parse_run_mode_args
      [''60001'', ''bench-write'', ''10'', ''5'', ''0'', ''2'', ''hot=40'']) = Inr (60001, BENCH_WRITE)"
    by code_simp
  then obtain cfg where "parse_run_mode_args
      [''60001'', ''bench-write'', ''10'', ''5'', ''0'', ''2'', ''hot=40''] = Inr (60001, BENCH_WRITE, cfg)"
    by (auto simp: map_sum_Inr)
  with accepted_run_mode_in_bounds [OF this] show ?thesis by auto
qed

text \<open>
  C39. The arguments printed from a benchmark configuration are read back as that configuration:
  for a write run (which has no node id and no read percentage) and for a read run (which has
  no write percentage and keeps the default value prefix).
\<close>

theorem benchmark_args_round_trip:
  assumes "bench_ok cfg" "1 \<le> ack_port" "ack_port \<le> 65535"
  shows "(craq_node_id cfg = -1 \<and> read_hot_key_pct cfg = 0 \<longrightarrow>
      parse_run_mode_args (bench_write_args ack_port cfg) = Inr (ack_port, BENCH_WRITE, cfg)) \<and>
    (fits_int (craq_node_id cfg) \<and> crown_hot_head_pct cfg = 0 \<and> value_prefix cfg = ''bench-value-'' \<longrightarrow>
      parse_run_mode_args (bench_read_args ack_port cfg) = Inr (ack_port, BENCH_READ, cfg))"
  using bench_write_args_parse [OF assms(1) _ _ assms(2,3)] bench_read_args_parse [OF assms(1) _ _ _ assms(2,3)]
  by blast

definition sample_bench :: BenchmarkRunConfig where
  "sample_bench = BenchmarkRunConfig_default
     \<lparr>total_ops := 10, key_count := 5, client_index := 1, num_clients := 3, crown_hot_head_pct := 40\<rparr>"

theorem benchmark_args_round_trip_witness:
  "parse_run_mode_args (bench_write_args 60001 sample_bench) = Inr (60001, BENCH_WRITE, sample_bench)"
proof -
  have "bench_ok sample_bench"
    by (simp add: sample_bench_def bench_ok_def BenchmarkRunConfig_default_def int_max_def)
  from benchmark_args_round_trip [OF this, of 60001] show ?thesis
    by (simp add: sample_bench_def BenchmarkRunConfig_default_def)
qed

subsection \<open>The operations of the benchmark clients\<close>

text \<open>
  C36. The clients share out the operations: if \<open>total_ops + num_clients\<close> fits in 64 bits every
  client's loop ends, none takes an operation twice, and every operation below \<open>total_ops\<close> is
  taken by exactly one of them.
\<close>

lemma batch_loop_ops_list:
  assumes "ops_fit cfg"
  shows "batch_loop cfg (\<lambda>g i s. Inr (g, s)) 0 () [] = Some (Inr (map word_of_nat (cfg_ops cfg), ()))"
proof -
  obtain xs s where xs: "batch_loop cfg (\<lambda>g i s. Inr (g, s)) 0 () [] = Some (Inr (xs, s))"
    "length xs = length (cfg_ops cfg)" "\<forall>j < length xs. xs ! j = word_of_nat (cfg_ops cfg ! j)"
    using batch_loop_all [OF assms, where P = "\<lambda>g i x. x = g" and s = "()" and body = "\<lambda>g i s. Inr (g, s)"]
    by auto
  then have "xs = map word_of_nat (cfg_ops cfg)" by (intro nth_equalityI) simp_all
  then show ?thesis using xs(1) by simp
qed

lemma cfg_ops_words:
  assumes "ops_fit cfg"
  shows "distinct (map word_of_nat (cfg_ops cfg) :: u64 list)"
    and "g \<in> set (map word_of_nat (cfg_ops cfg) :: u64 list) \<longleftrightarrow>
      g < total_ops cfg \<and> int (unat g mod nat (num_clients cfg)) = client_index cfg"
proof -
  have c: "0 < nat (num_clients cfg)" "nat (client_index cfg) < nat (num_clients cfg)" "0 \<le> client_index cfg"
    using assms by (auto simp: ops_fit_def)
  have ops: "set (cfg_ops cfg) = {g. g < unat (total_ops cfg) \<and> g mod nat (num_clients cfg) = nat (client_index cfg)}"
    unfolding cfg_ops_def by (rule batch_ops_set [OF c(1,2)])
  have unat_back: "unat (word_of_nat x :: u64) = x" if "x \<in> set (cfg_ops cfg)" for x
    using cfg_ops_unat [OF assms] that by (auto simp: in_set_conv_nth)
  have "inj_on (word_of_nat :: nat \<Rightarrow> u64) (set (cfg_ops cfg))"
    by (rule inj_on_inverseI [of _ unat]) (rule unat_back)
  then show "distinct (map word_of_nat (cfg_ops cfg) :: u64 list)"
    using batch_ops_distinct [OF c(1)] by (simp add: distinct_map cfg_ops_def)
  show "g \<in> set (map word_of_nat (cfg_ops cfg) :: u64 list) \<longleftrightarrow>
      g < total_ops cfg \<and> int (unat g mod nat (num_clients cfg)) = client_index cfg" (is "?l \<longleftrightarrow> ?r")
  proof
    assume ?l
    then obtain x where "x \<in> set (cfg_ops cfg)" "g = word_of_nat x" by auto
    then show ?r using unat_back ops c(3) by (auto simp: word_less_nat_alt)
  next
    assume ?r
    then have "unat g \<in> set (cfg_ops cfg)" by (auto simp: ops word_less_nat_alt)
    then have "word_of_nat (unat g) \<in> (word_of_nat :: nat \<Rightarrow> u64) ` set (cfg_ops cfg)" by (rule imageI)
    then show ?l by simp
  qed
qed

theorem operations_shared_out:
  assumes "0 < num_clients cfg" "unat (total_ops cfg) + nat (num_clients cfg) \<le> 2 ^ 64"
  shows "\<exists>ops :: int \<Rightarrow> u64 list.
    (\<forall>ci. 0 \<le> ci \<and> ci < num_clients cfg \<longrightarrow>
       batch_loop (cfg\<lparr>client_index := ci\<rparr>) (\<lambda>g i s. Inr (g, s)) 0 () [] = Some (Inr (ops ci, ())) \<and>
       distinct (ops ci)) \<and>
    (\<forall>g. g < total_ops cfg \<longrightarrow> (\<exists>!ci. 0 \<le> ci \<and> ci < num_clients cfg \<and> g \<in> set (ops ci))) \<and>
    (\<forall>ci g. 0 \<le> ci \<and> ci < num_clients cfg \<and> g \<in> set (ops ci) \<longrightarrow> g < total_ops cfg)"
proof -
  let ?ops = "\<lambda>ci. map word_of_nat (cfg_ops (cfg\<lparr>client_index := ci\<rparr>)) :: u64 list"
  have fit: "ops_fit (cfg\<lparr>client_index := ci\<rparr>)" if "0 \<le> ci" "ci < num_clients cfg" for ci
    using that assms by (simp add: ops_fit_def)
  have mem: "g \<in> set (?ops ci) \<longleftrightarrow> g < total_ops cfg \<and> int (unat g mod nat (num_clients cfg)) = ci"
    if "0 \<le> ci" "ci < num_clients cfg" for ci g
    using cfg_ops_words(2) [OF fit [OF that]] by simp
  have "\<exists>!ci. 0 \<le> ci \<and> ci < num_clients cfg \<and> g \<in> set (?ops ci)" if g: "g < total_ops cfg" for g
  proof (rule ex1I [of _ "int (unat g mod nat (num_clients cfg))"])
    show "ci = int (unat g mod nat (num_clients cfg))"
      if "0 \<le> ci \<and> ci < num_clients cfg \<and> g \<in> set (?ops ci)" for ci
      using mem [of ci g] that by simp
  next
    have "unat g mod nat (num_clients cfg) < nat (num_clients cfg)" using assms(1) by simp
    then have r: "0 \<le> int (unat g mod nat (num_clients cfg))"
      "int (unat g mod nat (num_clients cfg)) < num_clients cfg" using assms(1) by linarith+
    then show "0 \<le> int (unat g mod nat (num_clients cfg)) \<and>
        int (unat g mod nat (num_clients cfg)) < num_clients cfg \<and>
        g \<in> set (?ops (int (unat g mod nat (num_clients cfg))))"
      using mem [OF r] g by blast
  qed
  then show ?thesis
    using batch_loop_ops_list [OF fit] cfg_ops_words(1) [OF fit] mem
    by (intro exI [of _ ?ops]) blast
qed

theorem operations_shared_out_witness:
  "\<exists>!ci. 0 \<le> ci \<and> ci < 3 \<and> (\<exists>gs. batch_loop (sample_bench\<lparr>client_index := ci\<rparr>) (\<lambda>g i s. Inr (g, s)) 0 () []
      = Some (Inr (gs, ())) \<and> 7 \<in> set gs)"
proof -
  have c: "0 < num_clients sample_bench" "unat (total_ops sample_bench) + nat (num_clients sample_bench) \<le> 2 ^ 64"
    and n: "num_clients sample_bench = 3" "7 < total_ops sample_bench"
    by (simp_all add: sample_bench_def BenchmarkRunConfig_default_def)
  from operations_shared_out [OF c] n show ?thesis by (smt (verit) Inr_inject option.inject prod.inject)
qed

text \<open>
  C37. The loop that prepares a write batch ends, and without a hotspot the \<open>j\<close>th write of the
  batch is for the key with index (global operation mod \<open>key_count\<close>), goes to the node that
  routing gives for it, and carries the client's index and \<open>j\<close>; with a CROWN hotspot the hot
  head takes exactly the operations whose last two digits are below the percentage.
\<close>

theorem write_batch_prepared:
  assumes "ops_fit cfg" "0 < key_count cfg" "routable topo"
    "topo_mode topo = PB_CROWN \<and> 0 < crown_hot_head_pct cfg \<longrightarrow>
      hotspot_mix topo (benchmark_build_keyset (key_prefix cfg) (nat (key_count cfg))) = Inr (hot, cold)"
  shows "\<exists>ws s. benchmark_prepare_write_batch topo cfg = Some (Inr (ws, s)) \<and>
    length ws = length (cfg_ops cfg) \<and>
    (\<forall>j < length ws. prepared_write topo cfg (word_of_nat j) (ws ! j) \<and>
      (if topo_mode topo = PB_CROWN \<and> 0 < crown_hot_head_pct cfg
       then node_id_at topo (Some (target_head (ws ! j))) = node_id_at topo (crown_head_for topo (key_prefix cfg @ ''0''))
         \<longleftrightarrow> crown_hot_head_pct cfg \<ge> 100 \<or> cfg_ops cfg ! j mod 100 < nat (crown_hot_head_pct cfg) \<or> cold = []
       else write_key (ws ! j) = key_prefix cfg @ to_string_nat (cfg_ops cfg ! j mod nat (key_count cfg))))"
proof (cases "topo_mode topo = PB_CROWN \<and> 0 < crown_hot_head_pct cfg")
  case True
  have "to_string_nat 0 = ''0''" by code_simp
  then have "hd (benchmark_build_keyset (key_prefix cfg) (nat (key_count cfg))) = key_prefix cfg @ ''0''"
    using assms(2) nth_keyset [of 0 "nat (key_count cfg)" "key_prefix cfg"]
    by (subst hd_conv_nth) (simp_all flip: length_greater_0_conv)
  then show ?thesis
    using write_batch_hotspot [OF assms(1,3) _ _ refl, of hot cold] True assms(4) by auto
next
  case False
  then show ?thesis using write_batch_round_robin [OF assms(1-3)] by auto
qed

lemma deployed_routable: "valid_addrs as \<Longrightarrow> routable (deployed_topology m as)"
  using routes_deployed(1) [of as m] by (fastforce simp: routable_def pointer_endpoint_def)

theorem write_batch_prepared_witness:
  "\<exists>ws s. benchmark_prepare_write_batch (deployed_topology CRAQ sample_addrs) sample_bench = Some (Inr (ws, s)) \<and>
    length ws = 3"
proof -
  have "ops_fit sample_bench" "0 < key_count sample_bench"
    by (simp_all add: ops_fit_def sample_bench_def BenchmarkRunConfig_default_def)
  moreover have "length (cfg_ops sample_bench) = 3" by (simp add: length_cfg_ops batch_size_def sample_bench_def
        BenchmarkRunConfig_default_def)
  ultimately show ?thesis
    using write_batch_prepared [OF _ _ deployed_routable [OF sample_valid, of CRAQ], of sample_bench]
    by (fastforce simp: deployed_topology_def)
qed

text \<open>
  Outside that bound the loop need not end: the text -1 is accepted as \<open>total_ops\<close>, read as
  \<open>2 ^ 64 - 1\<close>, and client 0 of two then counts through the even numbers for ever.
\<close>

lemma endless_batch_accepted:
  "\<exists>cfg. parse_run_mode_args [''bench-write'', ''-1'', ''5'', ''0'', ''2''] = Inr (60000, BENCH_WRITE, cfg) \<and>
    benchmark_prepare_write_batch (deployed_topology CHAIN sample_addrs) cfg = None"
proof -
  define cfg where "cfg = BenchmarkRunConfig_default
    \<lparr>total_ops := -1, key_count := 5, client_index := 0, num_clients := 2\<rparr>"
  have "parse_run_mode_args [''bench-write'', ''-1'', ''5'', ''0'', ''2''] = Inr (60000, BENCH_WRITE, cfg)"
    unfolding cfg_def by code_simp
  moreover have "\<exists>x s'. write_body (deployed_topology CHAIN sample_addrs) cfg
      (benchmark_build_keyset (key_prefix cfg) (nat (key_count cfg))) None g i s = Inr (x, s')" for g i s
    using write_body_round_robin [OF deployed_routable [OF sample_valid, of CHAIN], of cfg g i s]
    by (fastforce simp: cfg_def)
  then have "batch_loop cfg (write_body (deployed_topology CHAIN sample_addrs) cfg
      (benchmark_build_keyset (key_prefix cfg) (nat (key_count cfg))) None) 0 Cursors_init [] = None"
    by (intro batch_loop_endless) (simp_all add: cfg_def)
  then have "benchmark_prepare_write_batch (deployed_topology CHAIN sample_addrs) cfg = None"
    by (simp add: benchmark_prepare_write_batch_def deployed_topology_def)
  ultimately show ?thesis by blast
qed

subsection \<open>Requests and their acks\<close>

text \<open>
  C33. In any order of issues, acks (also repeated ones and ones for unknown requests) and failed
  calls, every write issued in a window is accounted for by its id. It is pending, with the key and
  value it was issued with, or its ack is taken and not yet counted, or its ack was counted, exactly
  one of the three and counted once, unless its own call failed; nothing else is pending or counted.
  The counters are exact: the writes and failures there were, the acks counted, one latency sample
  for each.
\<close>

theorem requests_accounted_for:
  assumes "pending_writes c = Map.empty" "ack_threads c = []" "length es < 2 ^ 64"
    and "c0 = benchmark_attach_metrics_state (benchmark_start_metrics_window t st) c"
    and "c' = client_run es c0" "counted = counted_acks es c0"
  shows "distinct (ack_threads c' @ counted) \<and> dom (pending_writes c') \<inter> set (ack_threads c' @ counted) = {} \<and>
    issued_ids (next_request_id c) es - failed_ids es
      \<subseteq> dom (pending_writes c') \<union> set (ack_threads c' @ counted) \<and>
    dom (pending_writes c') \<union> set (ack_threads c' @ counted) \<subseteq> issued_ids (next_request_id c) es \<and>
    (\<forall>i w. pending_writes c' i = Some w \<longrightarrow> (\<exists>k < issues es. i = next_request_id c + word_of_nat k \<and>
      w = \<lparr>pw_request_id = i, pw_key = fst (issued_writes es ! k), pw_value = snd (issued_writes es ! k)\<rparr>)) \<and>
    (\<exists>st'. metrics c' = Some st' \<and> unat (writes_sent st') = issues es \<and>
      unat (write_rpc_failures st') = failures es \<and> unat (acks_received st') = length counted \<and>
      ack_latency_samples st' = acks_received st')"
proof -
  note start = ledger_start [OF assms(1,2,4)]
  have led: "ledger (next_request_id c) es counted c'"
    using ledger_run [OF start(1) assms(3)] by (simp only: start(2) assms(5,6))
  have "books (next_request_id c) (issues es) (failures es) c'"
    using books_run [OF books_start [OF assms(1,2)] assms(3), of t st] by (simp add: assms(4,5))
  then obtain st' where st': "books_of (next_request_id c) (issues es) (failures es) c' st'"
    by (auto simp: books_def)
  have "length counted < 2 ^ 64"
    using length_counted_acks [of es c0] assms(3) by (simp add: assms(6))
  then have acks: "unat (acks_received st') = length counted"
    using acks_counted [of c0 _ es] start(3) st' by (auto simp: assms(5,6) books_of_def unat_of_nat_u64)
  have "metrics c' = Some st' \<and> unat (writes_sent st') = issues es \<and>
      unat (write_rpc_failures st') = failures es \<and> unat (acks_received st') = length counted \<and>
      ack_latency_samples st' = acks_received st'"
    using st' acks by (simp add: books_of_def)
  with led show ?thesis unfolding ledger_def by blast
qed

definition sample_requests :: "client_event list" where
  "sample_requests = [Issue ''k'' ''v'' 0, Ack_taken 1, Ack_noted 1 5000, Ack_taken 1, Issue ''k'' ''w'' 0,
     Issue ''l'' ''x'' 0, Call_fails 2]"

theorem requests_accounted_for_witness:
  "\<exists>c' :: Client. distinct (ack_threads c' @ [1]) \<and> {1, 2, 3} - {2 :: u64} \<subseteq> dom (pending_writes c') \<union> set (ack_threads c' @ [1]) \<and>
    (\<exists>st'. metrics c' = Some st' \<and> unat (writes_sent st') = 3 \<and> unat (write_rpc_failures st') = 1 \<and>
      unat (acks_received st') = length [1 :: u64] \<and> ack_latency_samples st' = acks_received st')"
proof -
  let ?c0 = "benchmark_attach_metrics_state (benchmark_start_metrics_window 0 (ThroughputMetricsState_init 0)) Client_init"
  have init: "pending_writes Client_init = Map.empty" "ack_threads Client_init = []" "length sample_requests < 2 ^ 64"
    by (simp_all add: Client_init_def sample_requests_def)
  have counted: "counted_acks sample_requests ?c0 = [1]" by code_simp
  have sets: "issues sample_requests = 3" "failures sample_requests = 1"
    "issued_ids (next_request_id Client_init) sample_requests = {1, 2, 3}" "failed_ids sample_requests = {2}"
    by (auto simp: sample_requests_def issues_def failures_def issued_ids_def failed_ids_def Client_init_def
        lessThan_Suc eval_nat_numeral)
  note facts = requests_accounted_for [OF init refl refl counted [symmetric], unfolded sets]
  show ?thesis
  proof (intro exI [of _ "client_run sample_requests ?c0"] conjI)
    show "distinct (ack_threads (client_run sample_requests ?c0) @ [1])" by (rule conjunct1 [OF facts])
    from facts show "{1, 2, 3} - {2 :: u64} \<subseteq> dom (pending_writes (client_run sample_requests ?c0)) \<union>
        set (ack_threads (client_run sample_requests ?c0) @ [1])" by (elim conjE)
    from facts show "\<exists>st'. metrics (client_run sample_requests ?c0) = Some st' \<and> unat (writes_sent st') = 3 \<and>
        unat (write_rpc_failures st') = 1 \<and> unat (acks_received st') = length [1 :: u64] \<and>
        ack_latency_samples st' = acks_received st'" by (elim conjE)
  qed
qed

text \<open>
  C34. When a write benchmark returns, nothing is left to issue, no call is out and no write is
  pending, the summary says as many writes as were prepared, and the acks counted, those taken
  but not yet counted and the failures cover them all.
\<close>

theorem bench_write_totals:
  assumes "bench_write_reach addr (bench_write_start now prepared c) b" "bench_write_step addr b b'"
    "bw_summary b = None" "bw_summary b' = Some sm"
    and "pending_writes c = Map.empty" "ack_threads c = []" "length prepared < 2 ^ 64"
  shows "bw_todo b' = [] \<and> bw_calls b' = [] \<and> pending_writes (bw_client b') = Map.empty \<and>
    unat (sum_writes_sent sm) = length prepared \<and>
    unat (sum_acks_received sm) + length (ack_threads (bw_client b')) \<le> length prepared \<and>
    length prepared \<le> unat (sum_acks_received sm) + length (ack_threads (bw_client b'))
      + unat (sum_write_rpc_failures sm)"
  using bench_write_summary [OF assms] by (simp add: bench_totals_def)

text \<open>One write, its ack taken before or after its call completes.\<close>

definition one_write :: PreparedBenchmarkWrite where
  "one_write = \<lparr>target_head = 0, write_key = ''k'', write_value = ''v''\<rparr>"

definition one_sent :: BenchWrite where
  "one_sent = bench_issue ''c:1'' 0 True one_write ((bench_write_start 0 [one_write] Client_init)\<lparr>bw_todo := []\<rparr>)"

definition one_taken :: BenchWrite where
  "one_taken = bench_complete 1 True Status_OK (accepted_response 1)
     (one_sent\<lparr>bw_client := ack_take 1 (bw_client one_sent)\<rparr>)"

definition one_noted :: BenchWrite where
  "one_noted = one_taken\<lparr>bw_client := ack_note 1 5000 (bw_client one_taken)\<rparr>"

definition bench_end :: "BenchWrite \<Rightarrow> BenchWrite" where
  "bench_end b = (let (summary, c) = close_window (bw_client b) in b\<lparr>bw_client := c, bw_summary := summary\<rparr>)"

lemma one_taken_facts:
  "ack_threads (bw_client one_taken) = [1]" "pending_writes (bw_client one_taken) = Map.empty"
  "bw_todo one_taken = []" "bw_calls one_taken = []" "bw_summary one_taken = None"
  "ack_threads (bw_client one_noted) = []" "pending_writes (bw_client one_noted) = Map.empty"
  "bw_todo one_noted = []" "bw_calls one_noted = []" "bw_summary one_noted = None"
  by (simp_all add: one_noted_def one_taken_def one_sent_def bench_write_start_def bench_issue_def
      bench_complete_def issue_write_def add_pending_def ack_take_def ack_note_def remove_pending_request_def
      Client_init_def with_metrics_def benchmark_note_write_issued_def benchmark_note_write_ack_def
      benchmark_attach_metrics_state_def benchmark_start_metrics_window_def Let_def accepted_response_def
      split: option.split)

lemma one_taken_reach: "bench_write_reach ''c:1'' (bench_write_start 0 [one_write] Client_init) one_taken"
proof -
  let ?b = "bench_write_start 0 [one_write] Client_init"
  have "bench_write_step ''c:1'' ?b one_sent"
    unfolding one_sent_def by (rule bw_issue) (simp add: bench_write_start_def)
  moreover have "bench_write_step ''c:1'' one_sent (one_sent\<lparr>bw_client := ack_take 1 (bw_client one_sent)\<rparr>)"
    by (rule bw_ack)
  moreover have "bench_write_step ''c:1'' (one_sent\<lparr>bw_client := ack_take 1 (bw_client one_sent)\<rparr>) one_taken"
    unfolding one_taken_def
    by (rule bw_complete) (simp_all add: one_sent_def bench_issue_def bench_write_start_def issue_write_def
        add_pending_def Client_init_def benchmark_attach_metrics_state_def Let_def)
  ultimately show ?thesis by (blast intro: bw_start bw_next)
qed

lemma bench_end_step:
  assumes "bw_todo b = []" "bw_calls b = []" "bw_summary b = None" "pending_writes (bw_client b) = Map.empty"
  shows "bench_write_step addr b (bench_end b)"
  using bw_return [OF assms(3,1,2), of "fst (close_window (bw_client b))" "snd (close_window (bw_client b))" addr]
    assms(4)
  by (simp add: bench_end_def pending_write_count_def split_beta)

lemma one_summary: "bw_summary (bench_end one_taken) \<noteq> None" "bw_summary (bench_end one_noted) \<noteq> None"
  by (simp_all add: bench_end_def close_window_def one_noted_def one_taken_def one_sent_def bench_write_start_def
      bench_issue_def bench_complete_def issue_write_def add_pending_def ack_take_def ack_note_def
      remove_pending_request_def Client_init_def with_metrics_def benchmark_note_write_issued_def
      benchmark_note_write_ack_def benchmark_attach_metrics_state_def benchmark_start_metrics_window_def
      Let_def accepted_response_def split: option.split)

theorem bench_write_totals_witness:
  "\<exists>sm. bw_summary (bench_end one_noted) = Some sm \<and> unat (sum_writes_sent sm) = 1 \<and>
    1 \<le> unat (sum_acks_received sm) + unat (sum_write_rpc_failures sm)"
proof -
  obtain sm where sm: "bw_summary (bench_end one_noted) = Some sm" using one_summary(2) by auto
  have "bench_write_step ''c:1'' one_taken one_noted"
    unfolding one_noted_def by (rule bw_note) (simp add: one_taken_facts)
  with one_taken_reach have reach: "bench_write_reach ''c:1'' (bench_write_start 0 [one_write] Client_init) one_noted"
    by (rule bw_next)
  have "ack_threads (bw_client (bench_end one_noted)) = []"
    using one_taken_facts(6)
    by (simp add: bench_end_def close_window_def benchmark_detach_metrics_state_def)
  moreover have "pending_writes Client_init = Map.empty" "ack_threads Client_init = []"
    by (simp_all add: Client_init_def)
  ultimately show ?thesis
    using bench_write_totals [OF reach bench_end_step _ sm] one_taken_facts sm by simp
qed

text \<open>
  The acks taken and not yet counted are not a formality: a run of one write that was
  acknowledged can return with no ack and no failure in its summary, because the request leaves
  the pending map before the ack is counted.
\<close>

lemma acknowledged_write_not_counted:
  "\<exists>b sm. bench_write_reach ''c:1'' (bench_write_start 0 [one_write] Client_init) b \<and>
    bw_summary b = Some sm \<and> sum_writes_sent sm = 1 \<and> sum_acks_received sm = 0 \<and>
    sum_write_rpc_failures sm = 0"
proof (intro exI conjI)
  show "bench_write_reach ''c:1'' (bench_write_start 0 [one_write] Client_init) (bench_end one_taken)"
    by (rule bw_next [OF one_taken_reach bench_end_step]) (simp_all add: one_taken_facts)
  let ?sm = "\<lparr>sum_writes_sent = 1, sum_acks_received = 0, sum_reads_sent = 0, sum_reads_ok = 0,
    sum_read_failures = 0, sum_write_rpc_failures = 0\<rparr>"
  show "bw_summary (bench_end one_taken) = Some ?sm"
    by (simp add: bench_end_def close_window_def one_taken_def one_sent_def bench_write_start_def
      bench_issue_def bench_complete_def issue_write_def add_pending_def ack_take_def
      remove_pending_request_def Client_init_def with_metrics_def benchmark_note_write_issued_def
      benchmark_attach_metrics_state_def benchmark_start_metrics_window_def benchmark_build_summary_def
      benchmark_stop_metrics_window_def Let_def accepted_response_def)
qed simp_all

text \<open>
  C35. When a read benchmark returns, every prepared read was sent and counted once, as answered
  or as failed; and before the measured part starts every key was seeded and no seed write is
  left waiting for its reply.
\<close>

theorem bench_read_totals:
  assumes "bench_read_reach topo addr prepared (bench_read_start cfg c) b" "length prepared < 2 ^ 64"
  shows "(br_measuring b \<longrightarrow> br_seeds b = [] \<and> br_seed_call b = None) \<and>
    (\<forall>sm. br_summary b = Some sm \<longrightarrow> br_todo b = [] \<and> br_calls b = [] \<and>
       unat (sum_reads_sent sm) = length prepared \<and>
       unat (sum_reads_ok sm) + unat (sum_read_failures sm) = length prepared)"
  using bench_read_reach_inv [OF assms]
  by (auto simp: bench_read_inv_def read_totals_def split: option.splits if_splits)

definition one_read :: PreparedBenchmarkRead where
  "one_read = \<lparr>read_node = 0, read_key = ''k''\<rparr>"

theorem bench_read_totals_witness:
  "\<exists>b sm. bench_read_reach (deployed_topology CHAIN sample_addrs) ''c:1'' [one_read]
      (bench_read_start BenchmarkRunConfig_default Client_init) b \<and> br_summary b = Some sm \<and>
    unat (sum_reads_ok sm) + unat (sum_read_failures sm) = 1"
proof -
  let ?topo = "deployed_topology CHAIN sample_addrs"
  let ?reach = "bench_read_reach ?topo ''c:1'' [one_read]" and ?b0 = "bench_read_start BenchmarkRunConfig_default Client_init"
  define b1 where "b1 = bench_measure 0 [one_read] ?b0"
  define b2 where "b2 = bench_read_issue True one_read (b1\<lparr>br_todo := []\<rparr>)"
  define b3 where "b3 = bench_read_complete one_read True Status_OK b2"
  note defs = b1_def b2_def b3_def bench_measure_def bench_read_issue_def bench_read_complete_def
    bench_read_start_def bench_seeds_def benchmark_build_keyset_def BenchmarkRunConfig_default_def
    pending_write_count_def Client_init_def Let_def
  have "?reach ?b0 b1"
    unfolding b1_def by (rule br_next [OF br_start], rule br_measure) (simp_all add: defs)
  then have "?reach ?b0 b2"
    unfolding b2_def by (rule br_next, intro br_issue) (simp add: defs)
  then have r3: "?reach ?b0 b3"
    unfolding b3_def by (rule br_next, intro br_complete) (simp_all add: defs)
  obtain summary c where fin: "close_window (br_client b3) = (summary, c)" by force
  have "?reach ?b0 (b3\<lparr>br_client := c, br_summary := summary\<rparr>)"
    by (rule br_next [OF r3 br_return [OF _ _ _ _ fin]]) (simp_all add: defs)
  moreover obtain sm where "summary = Some sm"
    using fin by (auto simp: close_window_def defs benchmark_attach_metrics_state_def
        benchmark_note_read_sent_def benchmark_note_read_success_def with_metrics_def
        benchmark_start_metrics_window_def)
  ultimately show ?thesis
    using bench_read_totals [of ?topo "''c:1''" "[one_read]" BenchmarkRunConfig_default Client_init
        "b3\<lparr>br_client := c, br_summary := summary\<rparr>"] by fastforce
qed

end
