(* ===== verification/Forwarding.thy ===== *)
theory Forwarding
  imports Deployment
begin

section \<open>Nothing is dropped on the way to the tail\<close>

text \<open>
  The locale \<open>forwarding_chain\<close> adds to \<open>replication_chain\<close> what the handlers do to the queue of
  their dispatcher: the head hands each write it accepts to its successor, every other node
  but the tail hands on what it receives, and nothing else is queued for the key. From it
  follows an invariant of the runs in which no Propagate call is lost: a node whose successor
  has not caught up has its newest version queued or in flight to it. So in a cluster where
  nothing is under way every node of the chain has the newest version of the key.
\<close>

text \<open>\<open>ts\<close> is appended to the queue of mode \<open>m\<close>; the workers stay as they are.\<close>

definition handed_on :: "ReplicationMode \<Rightarrow> PropagateTask list \<Rightarrow> Server \<Rightarrow> Server \<Rightarrow> bool" where
  "handed_on m ts sv sv' \<longleftrightarrow>
     (\<forall>m'. workers (dispatchers sv' m') = workers (dispatchers sv m') \<and>
        queue (dispatchers sv' m') = queue (dispatchers sv m') @ (if m' = m then ts else []))"

definition seen_at :: "Server \<Rightarrow> string \<Rightarrow> u64" where
  "seen_at sv key =
     (case the_strategy sv of
        None \<Rightarrow> 0
      | Some st \<Rightarrow> latest_seen_version (key_state (by_key (snd st)) key))"

lemma handed_on_refl [simp]: "handed_on m [] sv sv"
  by (simp add: handed_on_def)

lemma handed_on_put_replica:
  "workers (dispatcher r) = workers (dispatchers sv m) \<Longrightarrow>
    queue (dispatcher r) = queue (dispatchers sv m) @ ts \<Longrightarrow> handed_on m ts sv (put_replica m r sv)"
  by (simp add: handed_on_def)

lemma seen_at_put_replica [simp]:
  "seen_at (put_replica m r sv) key = latest_seen_version (kstate r key)"
  by (simp add: seen_at_def)

lemma seen_at_strategy: "the_strategy sv = Some (m, s) \<Longrightarrow> seen_at sv key = latest_seen_version (key_state (by_key s) key)"
  by (simp add: seen_at_def)

lemma seen_key_at: "servers c a = Some sv \<Longrightarrow> latest_seen_version (key_at c a key) = seen_at sv key"
  by (auto simp: key_at_def seen_at_def KeyState_default_def split: option.split)

lemma forward_async_workers [simp]: "workers (dispatcher (forward_async succ req l r)) = workers (dispatcher r)"
  by (simp add: forward_async_def enqueue_def split: option.split)

lemma handler_workers [simp]:
  "workers (dispatcher (snd (strategy_handle_write m rpc req nd r))) = workers (dispatcher r)"
  "workers (dispatcher (snd (strategy_handle_propagate m rpc preq nd r))) = workers (dispatcher r)"
  "workers (dispatcher (snd (strategy_handle_ack m a nd r))) = workers (dispatcher r)"
  by (cases m; simp add: strategy_handle_write_def strategy_handle_propagate_def strategy_handle_ack_def
      chain_handler_defs craq_handler_defs crown_handler_defs split_beta Let_def split: sum.split)+

lemma ack_handed_on:
  assumes "rpc_Ack a sv = (res, sv')"
  shows "handed_on m [] sv sv' \<and> seen_at sv' key = seen_at sv key"
proof (cases "the_strategy sv")
  case None
  then show ?thesis using assms by (simp add: rpc_Ack_def)
next
  case (Some st)
  obtain m0 s where st: "st = (m0, s)" by force
  let ?r = "snd (strategy_handle_ack m0 a (the_node sv) (replica_of sv st))"
  have sv': "sv' = put_replica m0 ?r sv" using rpc_Ack_strategy [OF Some [unfolded st] assms] by (simp add: st)
  have "queue (dispatcher ?r) = queue (dispatchers sv m0)"
    by (cases m0) (simp_all add: strategy_handle_ack_def chain_handle_ack_def crown_handle_ack_def
        craq_handle_ack_def Let_def st)
  moreover have "latest_seen_version (kstate ?r key) = seen_at sv key"
    by (cases m0; cases "key = ack_key a")
      (simp_all add: strategy_handle_ack_def chain_handle_ack_def crown_handle_ack_def
        craq_ack_store seen_at_def Some st key_state_clean(2) key_state_def [of _ key] frame_simps)
  ultimately show ?thesis by (simp add: sv' handed_on_def st)
qed

subsection \<open>Requests for other keys\<close>

lemma seen_at_store: "store_of r key = by_key s key \<Longrightarrow> the_strategy sv = Some (m, s) \<Longrightarrow>
    latest_seen_version (kstate r key) = seen_at sv key"
  by (simp add: seen_at_def key_state_def)

lemma write_foreign_any:
  assumes s: "the_strategy sv = Some (m, s)" and key: "wreq_key req \<noteq> k"
    and rpc: "rpc_Write rpc req sv = ((st, resp), sv')"
  shows "seen_at sv' k = seen_at sv k \<and>
    (\<exists>ts. handed_on m ts sv sv' \<and> (\<forall>t \<in> set ts. prop_key (task_req t) = wreq_key req))"
proof -
  let ?r = "replica_of sv (m, s)" let ?h = "strategy_handle_write m rpc req (the_node sv) ?r"
  have sv': "sv' = put_replica m (snd ?h) sv" by (rule rpc_Write_strategy(1) [OF s rpc refl])
  have store: "store_of (snd ?h) k = by_key s k"
    using key chain.write_other [of k req rpc "the_node sv" ?r] craq.write_other [of k req rpc "the_node sv" ?r]
      crown.write_other [of k req rpc "the_node sv" ?r]
    by (cases m) (simp_all add: strategy_handle_write_def)
  have "\<exists>ts. queue (dispatcher (snd ?h)) = queue (dispatchers sv m) @ ts \<and>
      (\<forall>t \<in> set ts. prop_key (task_req t) = wreq_key req)"
  proof (cases m)
    case CHAIN
    then show ?thesis
      by (cases "Node_is_head (the_node sv)")
        (auto simp: strategy_handle_write_def chain_write_reject chain_write_queue make_propagate_def
          split: option.split)
  next
    case CRAQ
    then show ?thesis
      by (cases "Node_is_head (the_node sv)")
        (auto simp: strategy_handle_write_def craq_write_reject craq_write_queue make_propagate_def
          split: option.split)
  next
    case CROWN
    then show ?thesis
      by (auto simp: strategy_handle_write_def crown_write_queue make_propagate_def split: option.split)
  qed
  then obtain ts where ts: "queue (dispatcher (snd ?h)) = queue (dispatchers sv m) @ ts"
    "\<forall>t \<in> set ts. prop_key (task_req t) = wreq_key req" by blast
  have "handed_on m ts sv sv'" unfolding sv' by (rule handed_on_put_replica [OF _ ts(1)]) simp
  then show ?thesis using ts(2) seen_at_store [OF store s] sv' by auto
qed

lemma propagate_foreign_any:
  assumes s: "the_strategy sv = Some (m, s)" and key: "prop_key preq \<noteq> k"
    and rpc: "rpc_Propagate rpc preq sv = (res, sv')"
  shows "seen_at sv' k = seen_at sv k \<and>
    (\<exists>ts. handed_on m ts sv sv' \<and> (\<forall>t \<in> set ts. prop_key (task_req t) = prop_key preq))"
proof -
  let ?r = "replica_of sv (m, s)" let ?h = "strategy_handle_propagate m rpc preq (the_node sv) ?r"
  have sv': "sv' = put_replica m (snd ?h) sv" by (rule rpc_Propagate_strategy [OF s rpc])
  have store: "store_of (snd ?h) k = by_key s k"
    using key chain.propagate_other [of k preq rpc "the_node sv" ?r]
      craq.propagate_other [of k preq rpc "the_node sv" ?r]
      crown.propagate_other [of k preq rpc "the_node sv" ?r]
    by (cases m) (simp_all add: strategy_handle_propagate_def)
  have "\<exists>ts. queue (dispatcher (snd ?h)) = queue (dispatchers sv m) @ ts \<and>
      (\<forall>t \<in> set ts. prop_key (task_req t) = prop_key preq)"
    by (cases m) (auto simp: strategy_handle_propagate_def chain_propagate_queue craq_propagate_queue
        crown_propagate_queue split: option.split)
  then obtain ts where ts: "queue (dispatcher (snd ?h)) = queue (dispatchers sv m) @ ts"
    "\<forall>t \<in> set ts. prop_key (task_req t) = prop_key preq" by blast
  have "handed_on m ts sv sv'" unfolding sv' by (rule handed_on_put_replica [OF _ ts(1)]) simp
  then show ?thesis using ts(2) seen_at_store [OF store s] sv' by auto
qed

subsection \<open>Requests for the key\<close>

definition forward_task :: "stub \<Rightarrow> PropagateRequest \<Rightarrow> PropagateTask list \<Rightarrow> bool" where
  "forward_task b req ts \<longleftrightarrow> (\<exists>from_node. ts = [\<lparr>task_successor = b, task_req = req, task_from = from_node\<rparr>])"

locale forwarding_chain = replication_chain +
  assumes write_forwards: "fixed (T (at 0)) sv \<Longrightarrow> the_strategy sv = Some (m, s) \<Longrightarrow> wreq_key req = k \<Longrightarrow>
      rpc_Write rpc req sv = ((st, resp), sv') \<Longrightarrow> v = next_version (key_state (by_key s) k) + 1 \<Longrightarrow>
      seen_at sv' k = max (seen_at sv k) v \<and>
      (\<exists>ts. handed_on m ts sv sv' \<and> (n \<noteq> 1 \<longrightarrow> forward_task (at 1) (make_propagate req v origin) ts))"
    and propagate_forwards: "fixed (T (at j)) sv \<Longrightarrow> the_strategy sv = Some (m, s) \<Longrightarrow> j < n \<Longrightarrow>
      prop_key preq = k \<Longrightarrow> prop_origin_id preq = origin \<Longrightarrow> prop_version preq \<noteq> 0 \<Longrightarrow>
      rpc_Propagate rpc preq sv = (res, sv') \<Longrightarrow>
      seen_at sv' k = max (seen_at sv k) (prop_version preq) \<and>
      (\<exists>ts. handed_on m ts sv sv' \<and>
        (if Suc j = n then ts = [] else forward_task (at (Suc j)) preq ts))"

lemma line_write_forwards:
  assumes n: "1 \<le> n" and T: "line_topology n m at origin T" and m: "m \<noteq> CROWN"
    and fx: "fixed (T (at 0)) sv" and s: "the_strategy sv = Some (m, s)" and key: "wreq_key req = k"
    and rpc: "rpc_Write rpc req sv = ((st, resp), sv')"
    and v: "v = next_version (key_state (by_key s) k) + 1"
  shows "seen_at sv' k = max (seen_at sv k) v \<and>
    (\<exists>ts. handed_on m ts sv sv' \<and> (n \<noteq> 1 \<longrightarrow> forward_task (at 1) (make_propagate req v origin) ts))"
proof -
  note top = line_topology_server [OF T fx _ s]
  have hd: "Node_is_head (the_node sv)" and tl: "Node_is_tail (the_node sv) = (n = 1)"
    using top(4,5) n by auto
  let ?h = "strategy_handle_write m rpc req (the_node sv) (replica_of sv (m, s))"
  have sv': "sv' = put_replica m (snd ?h) sv" by (rule rpc_Write_strategy(1) [OF s rpc refl])
  have seen: "latest_seen_version (kstate (snd ?h) k) = max (seen_at sv k) v"
    using m by (cases m) (simp_all add: strategy_handle_write_def chain_write_store [OF hd]
        craq_write_store [OF hd] key Let_def newest.receive_seen newest.deliver_seen
        versioned.receive_seen versioned.deliver_seen seen_at_strategy [OF s] v)
  define ts where "ts = (if n = 1 then [] else [\<lparr>task_successor = at 1, task_req = make_propagate req v origin,
    task_from = (if m = CHAIN then chain_node_label (the_node sv) else craq_node_label (the_node sv))\<rparr>])"
  have "queue (dispatcher (snd ?h)) = queue (dispatchers sv m) @ ts"
    using m top(3,6) n by (cases m) (simp_all add: strategy_handle_write_def chain_write_queue [OF hd]
        craq_write_queue [OF hd] tl key v ts_def)
  then have "handed_on m ts sv sv'" unfolding sv' by (intro handed_on_put_replica) simp_all
  then show ?thesis using seen by (auto simp: sv' ts_def forward_task_def)
qed

lemma line_propagate_forwards:
  assumes T: "line_topology n m at origin T" and m: "m \<noteq> CROWN"
    and fx: "fixed (T (at j)) sv" and s: "the_strategy sv = Some (m, s)" and j: "j < n"
    and key: "prop_key preq = k" and rpc: "rpc_Propagate rpc preq sv = (res, sv')"
  shows "seen_at sv' k = max (seen_at sv k) (prop_version preq) \<and>
    (\<exists>ts. handed_on m ts sv sv' \<and> (if Suc j = n then ts = [] else forward_task (at (Suc j)) preq ts))"
proof -
  note top = line_topology_server [OF T fx j s]
  let ?h = "strategy_handle_propagate m rpc preq (the_node sv) (replica_of sv (m, s))"
  have sv': "sv' = put_replica m (snd ?h) sv" by (rule rpc_Propagate_strategy [OF s rpc])
  have seen: "latest_seen_version (kstate (snd ?h) k) = max (seen_at sv k) (prop_version preq)"
    using m by (cases m) (simp_all add: strategy_handle_propagate_def chain_propagate_store
        craq_propagate_store key Let_def newest.receive_seen newest.deliver_seen
        versioned.receive_seen versioned.deliver_seen seen_at_strategy [OF s])
  define ts where "ts = (if Suc j = n then [] else [\<lparr>task_successor = at (Suc j), task_req = preq,
    task_from = (if m = CHAIN then chain_node_label (the_node sv) else craq_node_label (the_node sv))\<rparr>])"
  have "queue (dispatcher (snd ?h)) = queue (dispatchers sv m) @ ts"
    using m top(3,5) j by (cases m) (auto simp: strategy_handle_propagate_def chain_propagate_queue
        craq_propagate_queue ts_def)
  then have "handed_on m ts sv sv'" unfolding sv' by (intro handed_on_put_replica) simp_all
  moreover have "if Suc j = n then ts = [] else forward_task (at (Suc j)) preq ts"
    by (simp add: ts_def forward_task_def)
  ultimately show ?thesis using seen by (simp only: sv' seen_at_put_replica) blast
qed

lemma ring_write_forwards:
  assumes n: "1 \<le> n" and T: "ring_topology n at h T"
    and fx: "fixed (T (at 0)) sv" and s: "the_strategy sv = Some (CROWN, s)" and key: "wreq_key req = k"
    and rpc: "rpc_Write rpc req sv = ((st, resp), sv')"
    and v: "v = next_version (key_state (by_key s) k) + 1"
  shows "seen_at sv' k = max (seen_at sv k) v \<and>
    (\<exists>ts. handed_on CROWN ts sv sv' \<and>
      (n \<noteq> 1 \<longrightarrow> forward_task (at 1) (make_propagate req v (to_string_int (int h))) ts))"
proof -
  note top = ring_topology_server [OF T fx _ s]
  have single: "crown_node_count (config (the_node sv)) \<le> 1 \<longleftrightarrow> n = 1" and ix: "Node_index (the_node sv) = int h"
    using top(4,5) n T by (auto simp: ring_topology_def Node_index_def)
  let ?h = "crown_handle_write rpc req (the_node sv) (replica_of sv (CROWN, s))"
  have sv': "sv' = put_replica CROWN (snd ?h) sv"
    using rpc_Write_strategy(1) [OF s rpc refl] by (simp add: strategy_handle_write_def)
  have seen: "latest_seen_version (kstate (snd ?h) k) = max (seen_at sv k) v"
    by (simp add: crown_write_store key Let_def newest.receive_seen newest.deliver_seen seen_at_strategy [OF s] v)
  define ts where "ts = (if n = 1 then [] else [\<lparr>task_successor = at 1,
    task_req = make_propagate req v (to_string_int (int h)), task_from = crown_node_label (the_node sv)\<rparr>])"
  have "queue (dispatcher (snd ?h)) = queue (dispatchers sv CROWN) @ ts"
    using top(3) n ix by (simp add: crown_write_queue single key v ts_def)
  then have "handed_on CROWN ts sv sv'"
    unfolding sv' using handler_workers(1) [of CROWN]
    by (intro handed_on_put_replica) (simp_all add: strategy_handle_write_def)
  then show ?thesis using seen by (auto simp: sv' ts_def forward_task_def)
qed

lemma ring_propagate_forwards:
  assumes T: "ring_topology n at h T"
    and fx: "fixed (T (at j)) sv" and s: "the_strategy sv = Some (CROWN, s)" and j: "j < n"
    and key: "prop_key preq = k" and org: "prop_origin_id preq = to_string_int (int h)"
    and nz: "prop_version preq \<noteq> 0" and rpc: "rpc_Propagate rpc preq sv = (res, sv')"
  shows "seen_at sv' k = max (seen_at sv k) (prop_version preq) \<and>
    (\<exists>ts. handed_on CROWN ts sv sv' \<and> (if Suc j = n then ts = [] else forward_task (at (Suc j)) preq ts))"
proof -
  note top = ring_topology_server [OF T fx j s]
  have tl: "is_request_tail_node (the_node sv) preq = Inr (Suc j = n)"
    by (rule ring_is_request_tail [OF T top(4,5) j org])
  let ?h = "crown_handle_propagate rpc preq (the_node sv) (replica_of sv (CROWN, s))"
  have sv': "sv' = put_replica CROWN (snd ?h) sv"
    using rpc_Propagate_strategy [OF s rpc] by (simp add: strategy_handle_propagate_def)
  have seen: "latest_seen_version (kstate (snd ?h) k) = max (seen_at sv k) (prop_version preq)"
    using nz tl by (simp add: crown_propagate_store key Let_def newest.receive_seen newest.deliver_seen
        seen_at_strategy [OF s])
  define ts where "ts = (if Suc j = n then [] else [\<lparr>task_successor = at (Suc j), task_req = preq,
    task_from = crown_node_label (the_node sv)\<rparr>])"
  have "queue (dispatcher (snd ?h)) = queue (dispatchers sv CROWN) @ ts"
    using top(3) tl nz j by (simp add: crown_propagate_queue ts_def)
  then have "handed_on CROWN ts sv sv'"
    unfolding sv' using handler_workers(2) [of CROWN]
    by (intro handed_on_put_replica) (simp_all add: strategy_handle_propagate_def)
  moreover have "if Suc j = n then ts = [] else forward_task (at (Suc j)) preq ts"
    by (simp add: ts_def forward_task_def)
  ultimately show ?thesis using seen by (simp only: sv' seen_at_put_replica) blast
qed

lemma forwarding_chain_deployed:
  assumes "valid_addrs as"
  shows "forwarding_chain (length as) m (position m as k) k (origin_text m as k)
    (start_topo hw m direct as) (client_routes m as)"
proof (intro forwarding_chain.intro forwarding_chain_axioms.intro)
  show "replication_chain (length as) m (position m as k) k (origin_text m as k)
    (start_topo hw m direct as) (client_routes m as)" by (rule replication_chain_deployed [OF assms])
next
  fix sv s req rpc st resp sv' v
  assume a: "fixed (start_topo hw m direct as (position m as k 0)) sv" "the_strategy sv = Some (m, s)"
    "wreq_key req = k" "rpc_Write rpc req sv = ((st, resp), sv')" "v = next_version (key_state (by_key s) k) + 1"
  show "seen_at sv' k = max (seen_at sv k) v \<and> (\<exists>ts. handed_on m ts sv sv' \<and> (length as \<noteq> 1 \<longrightarrow>
      forward_task (position m as k 1) (make_propagate req v (origin_text m as k)) ts))"
  proof (cases "m = CROWN")
    case False
    show ?thesis by (rule line_write_forwards [OF valid_addrs_pos [OF assms] deployed_line [OF assms False] False a])
  next
    case True
    with a ring_write_forwards [OF valid_addrs_pos [OF assms] deployed_ring [OF assms]]
    show ?thesis by (simp add: origin_text_def)
  qed
next
  fix j sv s preq rpc res sv'
  assume a: "fixed (start_topo hw m direct as (position m as k j)) sv" "the_strategy sv = Some (m, s)"
    "j < length as" "prop_key preq = k" "prop_origin_id preq = origin_text m as k" "prop_version preq \<noteq> 0"
    "rpc_Propagate rpc preq sv = (res, sv')"
  show "seen_at sv' k = max (seen_at sv k) (prop_version preq) \<and> (\<exists>ts. handed_on m ts sv sv' \<and>
      (if Suc j = length as then ts = [] else forward_task (position m as k (Suc j)) preq ts))"
  proof (cases "m = CROWN")
    case False
    show ?thesis by (rule line_propagate_forwards [OF deployed_line [OF assms False] False a(1-4,7)])
  next
    case True
    from a(5) have org: "prop_origin_id preq = to_string_int (int (head_position CROWN as k))"
      by (simp add: origin_text_def True)
    show ?thesis
      unfolding True
      by (rule ring_propagate_forwards [OF deployed_ring [OF assms] a(1,2) [unfolded True] a(3,4) org a(6,7)])
  qed
qed

subsection \<open>Calls under way\<close>

definition in_transit :: "Cluster \<Rightarrow> stub \<times> PropagateRequest \<Rightarrow> bool" where
  "in_transit c x \<longleftrightarrow> x \<in> set (prop_calls c) \<or>
     (\<exists>a sv m. servers c a = Some sv \<and> x \<in> task_call ` set (queue (dispatchers sv m)))"

abbreviation seen_by :: "Cluster \<Rightarrow> stub \<Rightarrow> string \<Rightarrow> u64" where
  "seen_by c a key \<equiv> latest_seen_version (key_at c a key)"

definition caught_up :: "nat \<Rightarrow> (nat \<Rightarrow> stub) \<Rightarrow> string \<Rightarrow> Cluster \<Rightarrow> bool" where
  "caught_up n at k c \<longleftrightarrow>
     (\<forall>j. Suc j < n \<longrightarrow> seen_by c (at j) k \<le> seen_by c (at (Suc j)) k \<or>
        (\<exists>req. prop_key req = k \<and> prop_version req = seen_by c (at j) k \<and> in_transit c (at (Suc j), req)))"

lemma transit_update:
  assumes "servers c a = Some sv" "servers c' = (servers c)(a \<mapsto> sv')" "handed_on m ts sv sv'"
  shows "in_transit c x \<Longrightarrow> (x \<in> set (prop_calls c) \<Longrightarrow> x \<in> set (prop_calls c')) \<Longrightarrow> in_transit c' x"
    and "t \<in> set ts \<Longrightarrow> in_transit c' (task_call t)"
proof -
  have q: "queue (dispatchers sv' m') = queue (dispatchers sv m') @ (if m' = m then ts else [])" for m'
    using assms(3) by (simp add: handed_on_def)
  show "in_transit c' x" if x: "in_transit c x" "x \<in> set (prop_calls c) \<Longrightarrow> x \<in> set (prop_calls c')"
  proof (cases "x \<in> set (prop_calls c)")
    case True
    then show ?thesis using x(2) by (simp add: in_transit_def)
  next
    case False
    then obtain b sb mb where b: "servers c b = Some sb" "x \<in> task_call ` set (queue (dispatchers sb mb))"
      using x(1) by (auto simp: in_transit_def)
    show ?thesis
    proof (cases "b = a")
      case True
      then have "x \<in> task_call ` set (queue (dispatchers sv' mb))" using b assms(1) by (auto simp: q)
      moreover have "servers c' a = Some sv'" using assms(2) by simp
      ultimately show ?thesis by (auto simp: in_transit_def)
    next
      case False
      then have "servers c' b = Some sb" using b(1) assms(2) by simp
      then show ?thesis using b(2) by (auto simp: in_transit_def)
    qed
  qed
  show "in_transit c' (task_call t)" if "t \<in> set ts"
  proof -
    have "servers c' a = Some sv'" using assms(2) by simp
    moreover have "task_call t \<in> task_call ` set (queue (dispatchers sv' m))" using that by (simp add: q)
    ultimately show ?thesis unfolding in_transit_def by blast
  qed
qed

lemma seen_by_update:
  assumes "servers c' = (servers c)(a \<mapsto> sv')"
  shows "seen_by c' b key = (if b = a then seen_at sv' key else seen_by c b key)"
  using assms seen_key_at [of c' a sv' key] by (auto simp: key_at_def)

lemma caught_up_stutter:
  assumes "caught_up n at k c" "\<And>j. j < n \<Longrightarrow> seen_by c' (at j) k = seen_by c (at j) k"
    and "\<And>b req. prop_key req = k \<Longrightarrow> in_transit c (b, req) \<Longrightarrow> in_transit c' (b, req)"
  shows "caught_up n at k c'"
  unfolding caught_up_def
proof (intro allI impI)
  fix j assume j: "Suc j < n"
  then have same: "seen_by c' (at j) k = seen_by c (at j) k" "seen_by c' (at (Suc j)) k = seen_by c (at (Suc j)) k"
    using assms(2) by simp_all
  from assms(1) j have "seen_by c (at j) k \<le> seen_by c (at (Suc j)) k \<or>
    (\<exists>req. prop_key req = k \<and> prop_version req = seen_by c (at j) k \<and> in_transit c (at (Suc j), req))"
    by (simp add: caught_up_def)
  then show "seen_by c' (at j) k \<le> seen_by c' (at (Suc j)) k \<or>
    (\<exists>req. prop_key req = k \<and> prop_version req = seen_by c' (at j) k \<and> in_transit c' (at (Suc j), req))"
    unfolding same using assms(3) by blast
qed

text \<open>One node's newest version grew to \<open>v\<close>, and \<open>v\<close> is on its way to the next node.\<close>

lemma caught_up_grow:
  assumes up: "caught_up n at k c" and inj: "inj_on at {..<n}" and i: "i < n"
    and serv: "servers c' = (servers c)(at i \<mapsto> sv')"
    and seen: "seen_at sv' k = max (seen_by c (at i) k) v"
    and keep: "\<And>b req. prop_key req = k \<Longrightarrow> in_transit c (b, req) \<Longrightarrow>
      in_transit c' (b, req) \<or> (b = at i \<and> prop_version req = v)"
    and pass: "Suc i < n \<Longrightarrow> \<exists>req. prop_key req = k \<and> prop_version req = v \<and> in_transit c' (at (Suc i), req)"
  shows "caught_up n at k c'"
  unfolding caught_up_def
proof (intro allI impI)
  fix j assume j: "Suc j < n"
  have at: "at j = at i \<longleftrightarrow> j = i" "at (Suc j) = at i \<longleftrightarrow> Suc j = i"
    using inj i j by (auto simp: inj_on_def)
  have new: "seen_by c' (at j) k = (if j = i then max (seen_by c (at i) k) v else seen_by c (at j) k)"
    "seen_by c' (at (Suc j)) k = (if Suc j = i then max (seen_by c (at i) k) v else seen_by c (at (Suc j)) k)"
    by (simp_all add: seen_by_update [OF serv] at seen)
  from up j have old: "seen_by c (at j) k \<le> seen_by c (at (Suc j)) k \<or>
    (\<exists>req. prop_key req = k \<and> prop_version req = seen_by c (at j) k \<and> in_transit c (at (Suc j), req))"
    by (simp add: caught_up_def)
  show "seen_by c' (at j) k \<le> seen_by c' (at (Suc j)) k \<or>
    (\<exists>req. prop_key req = k \<and> prop_version req = seen_by c' (at j) k \<and> in_transit c' (at (Suc j), req))"
  proof (cases "j = i \<and> seen_by c (at i) k < v")
    case True
    then have "seen_by c' (at j) k = v" using new(1) by (auto simp: max_def)
    then show ?thesis using pass j True by auto
  next
    case False
    then have src: "seen_by c' (at j) k = seen_by c (at j) k" by (auto simp: new max_def)
    have grow: "seen_by c (at (Suc j)) k \<le> seen_by c' (at (Suc j)) k" by (simp add: new)
    from old show ?thesis
    proof
      assume "seen_by c (at j) k \<le> seen_by c (at (Suc j)) k"
      from order_trans [OF this grow] show ?thesis by (simp add: src)
    next
      assume "\<exists>req. prop_key req = k \<and> prop_version req = seen_by c (at j) k \<and> in_transit c (at (Suc j), req)"
      then obtain req where req: "prop_key req = k" "prop_version req = seen_by c (at j) k"
        "in_transit c (at (Suc j), req)" by blast
      from keep [OF req(1,3)] show ?thesis
      proof
        assume "in_transit c' (at (Suc j), req)"
        then show ?thesis using req src by auto
      next
        assume "at (Suc j) = at i \<and> prop_version req = v"
        then have "Suc j = i" "seen_by c (at j) k = v" using at req(2) by auto
        then show ?thesis using src new(2) by simp
      qed
    qed
  qed
qed

subsection \<open>The invariant of runs without lost calls\<close>

fun loses_propagate :: "cluster_event \<Rightarrow> bool" where
  "loses_propagate (Lose_propagate b req) = True"
| "loses_propagate _ = False"

lemma transit_dispatcher:
  assumes sv: "servers c a = Some sv" and c': "servers c' = (servers c)(a \<mapsto> put_dispatcher m d sv)"
    and q: "\<And>t. t \<in> set (queue (dispatchers sv m)) \<Longrightarrow>
      t \<in> set (queue d) \<or> task_call t \<in> set (prop_calls c')"
    and calls: "set (prop_calls c) \<subseteq> set (prop_calls c')"
    and x: "in_transit c x"
  shows "in_transit c' x"
proof (cases "x \<in> set (prop_calls c)")
  case True
  then show ?thesis using calls by (auto simp: in_transit_def)
next
  case False
  then obtain b sb mb t where b: "servers c b = Some sb" "t \<in> set (queue (dispatchers sb mb))" "x = task_call t"
    using x by (auto simp: in_transit_def)
  show ?thesis
  proof (cases "b = a \<and> mb = m")
    case True
    then have "t \<in> set (queue d) \<or> task_call t \<in> set (prop_calls c')" using q [of t] b sv by auto
    moreover have "servers c' a = Some (put_dispatcher m d sv)" by (simp add: c')
    moreover have "queue (dispatchers (put_dispatcher m d sv) m) = queue d" by simp
    ultimately show ?thesis using b(3) unfolding in_transit_def by (metis image_eqI)
  next
    case False
    have "\<exists>sb'. servers c' b = Some sb' \<and> queue (dispatchers sb' mb) = queue (dispatchers sb mb)"
      using False b(1) sv c' by (cases "b = a") auto
    then show ?thesis using b(2,3) unfolding in_transit_def by (metis image_eqI)
  qed
qed

lemma take_transit:
  assumes "servers c a = Some sv" "disp_step (dispatchers sv m) (Take t) d" "in_transit c x"
  shows "in_transit ((put_server a (put_dispatcher m d sv) c)
    \<lparr>prop_calls := prop_calls c @ [(task_successor t, task_req t)]\<rparr>) x"
  by (rule transit_dispatcher [OF assms(1) _ _ _ assms(3)])
    (use assms(2) in \<open>auto elim!: disp_step_TakeE simp: task_call_def\<close>)

lemma complete_transit:
  assumes "servers c a = Some sv" "disp_step (dispatchers sv m) (Complete t) d" "in_transit c x"
  shows "in_transit (put_server a (put_dispatcher m d sv) c) x"
  by (rule transit_dispatcher [OF assms(1) _ _ _ assms(3)])
    (use assms(2) in \<open>auto elim!: disp_step_CompleteE\<close>)

lemma seen_at_dispatcher [simp]: "seen_at (put_dispatcher m d sv) key = seen_at sv key"
  by (simp add: seen_at_def)

lemma in_set_remove1: "x \<in> set xs \<Longrightarrow> x = y \<or> x \<in> set (remove1 y xs)"
  by (cases "x = y") simp_all

context forwarding_chain
begin

lemma caught_up_write:
  assumes up: "caught_up n at k c" and sim: "sim p c" and inv: "pl_inv n p" and fx: "cluster_fixed T c"
    and sv: "servers c a = Some sv" and rpc: "rpc_Write rpc req sv = ((st, resp), sv')"
    and routed: "routed (Client_write a req)"
    and c': "servers c' = (servers c)(a \<mapsto> sv')" "prop_calls c' = prop_calls c"
  shows "caught_up n at k c'"
proof -
  obtain i where i: "i < n" "a = at i" "server_ok n m at k origin p i sv"
    using cluster_sim_position [OF sim sv inj_at] by blast
  obtain s where s: "the_strategy sv = Some (m, s)" "node_ok n m k p i (key_state (by_key s) k)"
    using server_okD [OF i(3)] by blast
  have fixed: "fixed (T (at i)) sv" using fx sv i(2) by (auto simp: cluster_fixed_def)
  show ?thesis
  proof (cases "wreq_key req = k")
    case False
    from write_foreign_any [OF s(1) False rpc] obtain ts where ts: "seen_at sv' k = seen_at sv k"
      "handed_on m ts sv sv'" by blast
    show ?thesis
      by (rule caught_up_stutter [OF up])
        (use seen_by_update [OF c'(1)] seen_key_at [OF sv] ts(1) transit_update(1) [OF sv c'(1) ts(2)] c'(2)
          in auto)
  next
    case key: True
    show ?thesis
    proof (cases "i = 0")
      case False
      then have "sv' = sv"
        using write_elsewhere [OF fixed s(1) _ i(1) _ key rpc] routed i(2) by simp
      then have "servers c' = servers c" using c'(1) sv by auto
      then show ?thesis
        using up c'(2) by (simp add: caught_up_def key_at_def in_transit_def)
    next
      case True
      let ?v = "next_version (key_state (by_key s) k) + 1"
      from write_forwards [OF fixed [unfolded True] s(1) key rpc refl] obtain ts where
        ts: "seen_at sv' k = max (seen_at sv k) ?v" "handed_on m ts sv sv'"
        "n \<noteq> 1 \<longrightarrow> forward_task (at 1) (make_propagate req ?v origin) ts" by blast
      show ?thesis
      proof (rule caught_up_grow [OF up inj_at i(1) c'(1) [unfolded i(2)]])
        show "seen_at sv' k = max (seen_by c (at i) k) ?v"
          using ts(1) seen_key_at [OF sv] i(2) by simp
        show "\<exists>r. prop_key r = k \<and> prop_version r = ?v \<and> in_transit c' (at (Suc i), r)" if "Suc i < n"
        proof -
          from ts(3) that True obtain l where "ts = [\<lparr>task_successor = at 1,
            task_req = make_propagate req ?v origin, task_from = l\<rparr>]" by (auto simp: forward_task_def)
          then have "in_transit c' (at 1, make_propagate req ?v origin)"
            using transit_update(2) [OF sv c'(1) ts(2)] by (fastforce simp: task_call_def)
          then show ?thesis using key True by (intro exI [of _ "make_propagate req ?v origin"])
              (simp add: make_propagate_def)
        qed
      qed (use transit_update(1) [OF sv c'(1) ts(2)] c'(2) in auto)
    qed
  qed
qed

end

context forwarding_chain
begin

lemma caught_up_propagate:
  assumes up: "caught_up n at k c" and sim: "sim p c" and inv: "pl_inv n p" and fx: "cluster_fixed T c"
    and bound: "length (accepted c) + 1 < 2 ^ 64"
    and call: "(b, req) \<in> set (prop_calls c)" and sv: "servers c b = Some sv"
    and rpc: "rpc_Propagate rpc req sv = (res, sv')"
    and c': "servers c' = (servers c)(b \<mapsto> sv')" "prop_calls c' = remove1 (b, req) (prop_calls c)"
  shows "caught_up n at k c'"
proof -
  obtain i where i: "i < n" "b = at i" "server_ok n m at k origin p i sv"
    using cluster_sim_position [OF sim sv inj_at] by blast
  obtain s where s: "the_strategy sv = Some (m, s)"
    using server_okD [OF i(3)] by blast
  have fixed: "fixed (T (at i)) sv" using fx sv i(2) by (auto simp: cluster_fixed_def)
  have calls: "x \<in> set (prop_calls c) \<Longrightarrow> x = (b, req) \<or> x \<in> set (prop_calls c')" for x
    using in_set_remove1 [of x "prop_calls c" "(b, req)"] c'(2) by simp
  show ?thesis
  proof (cases "prop_key req = k")
    case False
    from propagate_foreign_any [OF s False rpc] obtain ts where ts: "seen_at sv' k = seen_at sv k"
      "handed_on m ts sv sv'" by blast
    show ?thesis
    proof (rule caught_up_stutter [OF up])
      show "seen_by c' (at j) k = seen_by c (at j) k" for j
        using seen_by_update [OF c'(1)] seen_key_at [OF sv] ts(1) by auto
      show "in_transit c' (a, r)" if "prop_key r = k" "in_transit c (a, r)" for a r
        using transit_update(1) [OF sv c'(1) ts(2) that(2)] calls [of "(a, r)"] that(1) False by auto
    qed
  next
    case key: True
    have ok: "prop_ok at k origin p (b, req)" using sim call by (auto simp: cluster_sim_def)
    then have org: "prop_origin_id req = origin" and iss: "issued p (unat (prop_version req)) \<noteq> None"
      using key by (auto simp: prop_ok_def)
    have nz: "prop_version req \<noteq> 0"
      using iss pl_invD(2) [OF inv] by (metis atLeastAtMost_iff domIff not_one_le_zero unsigned_0)
    from propagate_forwards [OF fixed s i(1) key org nz rpc] obtain ts where
      ts: "seen_at sv' k = max (seen_at sv k) (prop_version req)" "handed_on m ts sv sv'"
      "if Suc i = n then ts = [] else forward_task (at (Suc i)) req ts" by blast
    show ?thesis
    proof (rule caught_up_grow [OF up inj_at i(1) c'(1) [unfolded i(2)]])
      show "seen_at sv' k = max (seen_by c (at i) k) (prop_version req)"
        using ts(1) seen_key_at [OF sv] i(2) by simp
      show "in_transit c' (a, r) \<or> (a = at i \<and> prop_version r = prop_version req)"
        if "prop_key r = k" "in_transit c (a, r)" for a r
        using transit_update(1) [OF sv c'(1) ts(2) that(2)] calls [of "(a, r)"] i(2) by auto
      show "\<exists>r. prop_key r = k \<and> prop_version r = prop_version req \<and> in_transit c' (at (Suc i), r)"
        if "Suc i < n"
      proof -
        from ts(3) that obtain l where "ts = [\<lparr>task_successor = at (Suc i), task_req = req, task_from = l\<rparr>]"
          by (auto simp: forward_task_def)
        then have "in_transit c' (at (Suc i), req)"
          using transit_update(2) [OF sv c'(1) ts(2)] by (fastforce simp: task_call_def)
        then show ?thesis using key by blast
      qed
    qed
  qed
qed

lemma caught_up_step:
  assumes "cluster_step c e c'" "routed e" "\<not> loses_propagate e" "caught_up n at k c" "sim p c" "pl_inv n p"
    "cluster_fixed T c" "length (accepted c) + 1 < 2 ^ 64"
  shows "caught_up n at k c'"
  using assms(1)
proof cases
  case (client_write a sv rpc req st resp sv')
  then show ?thesis
    using assms(2) by (intro caught_up_write [OF assms(4-7)]) auto
next
  case (deliver_propagate b req sv rpc res sv')
  then show ?thesis by (intro caught_up_propagate [OF assms(4-8)]) auto
next
  case (worker_take a sv m' t d)
  show ?thesis
    by (rule caught_up_stutter [OF assms(4)])
      (use worker_take seen_by_update [of c' c a] seen_key_at take_transit [OF worker_take(3,4)] in auto)
next
  case (worker_complete a sv m' t d)
  show ?thesis
    by (rule caught_up_stutter [OF assms(4)])
      (use worker_complete seen_by_update [of c' c a] seen_key_at complete_transit [OF worker_complete(3,4)] in auto)
next
  case (lose_propagate b req)
  then show ?thesis using assms(3) by simp
next
  case (ack_worker a sv m' s turn s')
  have frame: "by_key s' = by_key s" by (rule ack_worker_turn_same(1) [OF ack_worker(5)])
  have sv': "handed_on m' [] sv (put_support m' s' sv)" by (simp add: handed_on_def)
  have "seen_at (put_support m' s' sv) k = seen_at sv k"
    using ack_worker(4) frame by (simp add: seen_at_def)
  then show ?thesis
    using ack_worker transit_update(1) [OF ack_worker(3) _ sv', of c'] seen_by_update [of c' c a] seen_key_at
    by (intro caught_up_stutter [OF assms(4)]) auto
next
  case (deliver_ack b req sv res sv')
  note eff = ack_handed_on [OF deliver_ack(5), of m k]
  then show ?thesis
    using deliver_ack transit_update(1) [OF deliver_ack(4) _ conjunct1 [OF eff], of c'] seen_by_update [of c' c b] seen_key_at
    by (intro caught_up_stutter [OF assms(4)]) auto
next
  case (lose_ack b req)
  then show ?thesis
    by (intro caught_up_stutter [OF assms(4)]) (auto simp: key_at_def in_transit_def)
next
  case (configure_again a sv s cfg res sv')
  let ?m = "Node_mode (the_node sv)"
  obtain s' where s': "sv' = put_support ?m s' sv" "by_key s' = by_key s"
    by (rule rpc_Configure_again [OF configure_again(4-6)])
  have sv': "handed_on ?m [] sv sv'" by (simp add: s'(1) handed_on_def)
  have "seen_at sv' k = seen_at sv k" using configure_again(4) s' by (simp add: seen_at_def)
  then show ?thesis
    using configure_again transit_update(1) [OF configure_again(3) _ sv', of c'] seen_by_update [of c' c a] seen_key_at
    by (intro caught_up_stutter [OF assms(4)]) auto
qed

end

subsection \<open>Quiet clusters\<close>

definition quiet :: "Cluster \<Rightarrow> bool" where
  "quiet c \<longleftrightarrow> prop_calls c = [] \<and>
     (\<forall>a sv m. servers c a = Some sv \<longrightarrow> queue (dispatchers sv m) = [])"

lemma quiet_transit: "quiet c \<Longrightarrow> \<not> in_transit c x"
  by (auto simp: quiet_def in_transit_def)

context forwarding_chain
begin

lemma reach_caught_up:
  assumes "cluster_reach allowed c0 c" "\<And>e. allowed e \<Longrightarrow> routed e \<and> \<not> loses_propagate e"
    and "sim pipeline_init c0" "cluster_fixed T c0" "length (accepted c) + 1 < 2 ^ 64" "caught_up n at k c0"
  shows "caught_up n at k c"
  using assms(1,5)
proof (induction rule: cluster_reach.induct)
  case reach_start
  then show ?case using assms(6) by simp
next
  case (reach_step c e c')
  have len: "length (accepted c) + 1 < 2 ^ 64"
    using cluster_step_accepted_length [OF reach_step.hyps(2)] reach_step.prems by linarith
  obtain p where "pl_reach n p" "sim p c"
    using reach_sim [OF reach_step.hyps(1) _ assms(3,4) len] assms(2) by blast
  then show ?case
    using caught_up_step [OF reach_step.hyps(2) _ _ reach_step.IH [OF len] _ pl_reach_inv [OF _ n_pos]
        cluster_reach_fixed [OF reach_step.hyps(1) assms(4)] len] assms(2) [OF reach_step.hyps(3)] by blast
qed

text \<open>With nothing under way every node has the newest version, and the tail has committed it.\<close>

lemma quiet_converged:
  assumes "caught_up n at k c" "quiet c" "sim p c" "pl_inv n p" "j < n"
  shows "seen_by c (at j) k = committed_version (key_at c (at (n - 1)) k)"
    and "unat (committed_version (key_at c (at (n - 1)) k)) = assigned p"
proof -
  have up: "seen_by c (at 0) k \<le> seen_by c (at i) k" if "i < n" for i
    using that
  proof (induction i)
    case (Suc i)
    then have "seen_by c (at i) k \<le> seen_by c (at (Suc i)) k"
      using assms(1) quiet_transit [OF assms(2)] by (auto simp: caught_up_def)
    then show ?case using Suc by (meson Suc_lessD order_trans)
  qed simp
  have last: "n - 1 < n" using n_pos by linarith
  note mono = sim_versions(1) [OF assms(3,4)]
  have "seen_by c (at j) k = seen_by c (at (n - 1)) k"
  proof (rule antisym)
    show "seen_by c (at j) k \<le> seen_by c (at (n - 1)) k"
      by (rule order_trans [OF mono [of 0 j] up [OF last]]) (use assms(5) in auto)
    show "seen_by c (at (n - 1)) k \<le> seen_by c (at j) k"
      using mono [of j "n - 1"] assms(5) last by simp
  qed
  then show "seen_by c (at j) k = committed_version (key_at c (at (n - 1)) k)"
    using sim_versions(2) [OF assms(3,4)] by simp
  have "unat (seen_by c (at 0) k) = assigned p"
    using node_ok_head(2) [OF cluster_sim_node [OF assms(3)] assms(4)] n_pos by simp
  moreover have "seen_by c (at 0) k = seen_by c (at (n - 1)) k"
    using up [OF last] mono [of 0 "n - 1"] last by (simp add: antisym)
  ultimately show "unat (committed_version (key_at c (at (n - 1)) k)) = assigned p"
    using sim_versions(2) [OF assms(3,4)] by simp
qed

end

end
