(* ===== verification/Progress.thy ===== *)
theory Progress
  imports Forwarding Cluster_Run
begin

section \<open>Every accepted write gets to the tail\<close>

text \<open>
  The \<open>work\<close> of a cluster counts what the dispatchers and the Propagate calls in flight still
  have to do: a queued task is a call and a return to wait for, a call ends at a node that may
  queue one task for the next node of the chain. Each such step lowers it, the ack events leave
  it alone, so without new writes a cluster comes to rest; and as long as there is work some
  step is enabled. Together with the invariant of \<open>Forwarding\<close>: if no Propagate call is lost,
  the cluster can be run to rest, and then every node of every chain has the newest version
  accepted and the tail has committed it.
\<close>

text \<open>The position of a node in the chain of a key; the length of the chain for a stranger.\<close>

definition chain_index :: "ReplicationMode \<Rightarrow> pb_NodeAddress list \<Rightarrow> string \<Rightarrow> stub \<Rightarrow> nat" where
  "chain_index m as key b = length (takeWhile (\<lambda>i. position m as key i \<noteq> b) [0..<length as])"

definition hops_left :: "ReplicationMode \<Rightarrow> pb_NodeAddress list \<Rightarrow> stub \<times> PropagateRequest \<Rightarrow> nat" where
  "hops_left m as x = length as - chain_index m as (prop_key (snd x)) (fst x)"

definition task_work :: "ReplicationMode \<Rightarrow> pb_NodeAddress list \<Rightarrow> PropagateTask \<Rightarrow> nat" where
  "task_work m as t = 3 * hops_left m as (task_call t) + 2"

definition dispatcher_work :: "ReplicationMode \<Rightarrow> pb_NodeAddress list \<Rightarrow> PropagateDispatcher \<Rightarrow> nat" where
  "dispatcher_work m as d = sum_list (map (task_work m as) (queue d)) + size (calls_of (workers d))"

definition server_work :: "ReplicationMode \<Rightarrow> pb_NodeAddress list \<Rightarrow> Server \<Rightarrow> nat" where
  "server_work m as sv = (\<Sum>m' \<leftarrow> enum_class.enum. dispatcher_work m as (dispatchers sv m'))"

definition work :: "ReplicationMode \<Rightarrow> pb_NodeAddress list \<Rightarrow> Cluster \<Rightarrow> nat" where
  "work m as c =
     sum_list (map (\<lambda>a. case servers c a of None \<Rightarrow> 0 | Some sv \<Rightarrow> server_work m as sv) (map pb_endpoint as))
     + sum_list (map (\<lambda>x. 3 * hops_left m as x) (prop_calls c))"

fun propagation :: "cluster_event \<Rightarrow> bool" where
  "propagation (Worker_take a m t) = True"
| "propagation (Worker_complete a m t) = True"
| "propagation (Deliver_propagate b req) = True"
| "propagation (Lose_propagate b req) = True"
| "propagation _ = False"

fun is_write :: "cluster_event \<Rightarrow> bool" where
  "is_write (Client_write a req) = True"
| "is_write _ = False"

subsection \<open>Arithmetic of the measure\<close>

lemma chain_index_position:
  assumes "valid_addrs as" "j < length as"
  shows "chain_index m as key (position m as key j) = j"
proof -
  have "takeWhile (\<lambda>i. position m as key i \<noteq> position m as key j) [0..<length as] = [0..<j]"
  proof -
    have split: "[0..<length as] = [0..<j] @ j # [Suc j..<length as]"
      using assms(2) upt_add_eq_append [of 0 j "length as - j"] upt_conv_Cons [of j "length as"] by simp
    have "position m as key i \<noteq> position m as key j" if "i < j" for i
      using position_inj [OF assms(1), of m key] assms(2) that by (auto simp: inj_on_def)
    then show ?thesis unfolding split by (subst takeWhile_append2) auto
  qed
  then show ?thesis by (simp add: chain_index_def)
qed

lemma hops_left_position:
  "valid_addrs as \<Longrightarrow> j < length as \<Longrightarrow> hops_left m as (position m as (prop_key req) j, req) = length as - j"
  by (simp add: hops_left_def chain_index_position)

lemma sum_list_update:
  assumes "distinct xs" "a \<in> set xs" "\<And>x. x \<in> set xs \<Longrightarrow> x \<noteq> a \<Longrightarrow> g x = f x"
  shows "sum_list (map g xs) + f a = sum_list (map f xs) + (g a :: nat)"
  using assms
proof (induction xs)
  case (Cons x xs)
  show ?case
  proof (cases "x = a")
    case True
    with Cons.prems have "g y = f y" if "y \<in> set xs" for y using that by auto
    then have "sum_list (map g xs) = sum_list (map f xs)" by (intro arg_cong [of _ _ sum_list] map_cong) simp_all
    then show ?thesis using True by simp
  next
    case False
    then have "sum_list (map g xs) + f a = sum_list (map f xs) + g a"
      using Cons by auto
    then show ?thesis using False Cons.prems(3) [of x] by simp
  qed
qed simp

lemma sum_list_remove1:
  "x \<in> set xs \<Longrightarrow> sum_list (map f (remove1 x xs)) + f x = (sum_list (map f xs) :: nat)"
  by (induction xs) auto

lemma server_work_dispatcher:
  "server_work m as (put_dispatcher m' d sv) + dispatcher_work m as (dispatchers sv m')
    = server_work m as sv + dispatcher_work m as d"
  by (cases m') (simp_all add: server_work_def enum_ReplicationMode_def)

lemma server_work_handed_on:
  assumes "handed_on m' ts sv sv'"
  shows "server_work m as sv' = server_work m as sv + sum_list (map (task_work m as) ts)"
proof -
  have "dispatcher_work m as (dispatchers sv' x)
    = dispatcher_work m as (dispatchers sv x) + (if x = m' then sum_list (map (task_work m as) ts) else 0)" for x
    using assms by (simp add: handed_on_def dispatcher_work_def)
  then show ?thesis by (cases m') (simp_all add: server_work_def enum_ReplicationMode_def)
qed

lemma work_update:
  assumes "valid_addrs as" "a \<in> set (map pb_endpoint as)" "servers c a = Some sv"
    and "servers c' = (servers c)(a \<mapsto> sv')"
  shows "work m as c' + server_work m as sv + sum_list (map (\<lambda>x. 3 * hops_left m as x) (prop_calls c))
    = work m as c + server_work m as sv' + sum_list (map (\<lambda>x. 3 * hops_left m as x) (prop_calls c'))"
proof -
  let ?f = "\<lambda>a. case servers c a of None \<Rightarrow> 0 | Some sv \<Rightarrow> server_work m as sv"
  let ?g = "\<lambda>a. case servers c' a of None \<Rightarrow> 0 | Some sv \<Rightarrow> server_work m as sv"
  have "sum_list (map ?g (map pb_endpoint as)) + ?f a = sum_list (map ?f (map pb_endpoint as)) + ?g a"
    using assms by (intro sum_list_update) (auto simp: valid_addrs_def)
  then show ?thesis using assms(3,4) by (simp add: work_def)
qed

subsection \<open>Each step of the propagation lowers it\<close>

text \<open>The invariant of the reachable clusters in the form used here.\<close>

definition chain_state :: "nat \<Rightarrow> ReplicationMode \<Rightarrow> bool \<Rightarrow> pb_NodeAddress list \<Rightarrow> Cluster \<Rightarrow> bool" where
  "chain_state hw m direct as c \<longleftrightarrow> cluster_fixed (start_topo hw m direct as) c \<and>
     (\<forall>k. \<exists>p. cluster_sim (length as) m (position m as k) k (origin_text m as k) p c \<and> pl_inv (length as) p)"

lemma reach_chain_state:
  assumes "valid_addrs as" "cluster_reach (client_routes m as) (deployed hw m direct as) c"
    "length (accepted c) + 1 < 2 ^ 64"
  shows "chain_state hw m direct as c"
  unfolding chain_state_def
  by (metis deployed_refines [OF assms])

lemma server_endpoint:
  assumes "valid_addrs as" "chain_state hw m direct as c" "servers c a = Some sv"
  shows "a \<in> set (map pb_endpoint as)"
proof -
  have "a \<in> position m as [] ` {..<length as}"
    using assms(2,3) unfolding chain_state_def cluster_sim_def by blast
  then show ?thesis unfolding position_image [OF assms(1)] by auto
qed

lemma call_position:
  assumes as: "valid_addrs as" and st: "chain_state hw m direct as c" and call: "(b, req) \<in> set (prop_calls c)"
  obtains p j where "b = position m as (prop_key req) j" "j < length as"
    "cluster_sim (length as) m (position m as (prop_key req)) (prop_key req) (origin_text m as (prop_key req)) p c"
proof -
  obtain p where p: "cluster_sim (length as) m (position m as (prop_key req)) (prop_key req)
      (origin_text m as (prop_key req)) p c" "pl_inv (length as) p"
    using st unfolding chain_state_def by blast
  then have "prop_ok (position m as (prop_key req)) (prop_key req) (origin_text m as (prop_key req)) p (b, req)"
    using call unfolding cluster_sim_def by blast
  then obtain j where "(j, unat (prop_version req)) \<in> sent p" "b = position m as (prop_key req) j"
    by (auto simp: prop_ok_def)
  then show thesis using that p pl_invD(4) [OF p(2)] by blast
qed

lemma deliver_work:
  assumes as: "valid_addrs as" and st: "chain_state hw m direct as c"
    and call: "(b, req) \<in> set (prop_calls c)" and sv: "servers c b = Some sv"
    and rpc: "rpc_Propagate rpc req sv = (res, sv')"
  shows "server_work m as sv' < server_work m as sv + 3 * hops_left m as (b, req)"
proof -
  let ?k = "prop_key req" let ?n = "length as"
  obtain p where sim: "cluster_sim ?n m (position m as ?k) ?k (origin_text m as ?k) p c" and inv: "pl_inv ?n p"
    and fx: "cluster_fixed (start_topo hw m direct as) c"
    using st unfolding chain_state_def by blast
  obtain i where i: "i < ?n" "b = position m as ?k i"
    "server_ok ?n m (position m as ?k) ?k (origin_text m as ?k) p i sv"
    by (rule cluster_sim_position [OF sim sv position_inj [OF as]])
  obtain s where s: "the_strategy sv = Some (m, s)" using server_okD [OF i(3)] by blast
  have ok: "prop_ok (position m as ?k) ?k (origin_text m as ?k) p (b, req)"
    using sim call by (auto simp: cluster_sim_def)
  then have org: "prop_origin_id req = origin_text m as ?k"
    and iss: "issued p (unat (prop_version req)) \<noteq> None" by (auto simp: prop_ok_def)
  have nz: "prop_version req \<noteq> 0"
    using iss pl_invD(2) [OF inv] by (metis atLeastAtMost_iff domIff not_one_le_zero unsigned_0)
  have fixed: "fixed (start_topo hw m direct as (position m as ?k i)) sv"
    using fx sv i(2) by (auto simp: cluster_fixed_def)
  from forwarding_chain.propagate_forwards [OF forwarding_chain_deployed [OF as] fixed s i(1) refl org nz rpc]
  obtain ts where ts: "handed_on m ts sv sv'"
    "if Suc i = ?n then ts = [] else forward_task (position m as ?k (Suc i)) req ts" by blast
  have "sum_list (map (task_work m as) ts) < 3 * hops_left m as (b, req)"
  proof (cases "Suc i = ?n")
    case True
    then show ?thesis using ts(2) i as by (simp add: hops_left_position)
  next
    case False
    then have "Suc i < ?n" using i(1) by simp
    then show ?thesis
      using ts(2) i False hops_left_position [OF as i(1)] hops_left_position [OF as, of "Suc i"]
      by (auto simp: forward_task_def task_work_def task_call_def)
  qed
  then show ?thesis by (simp add: server_work_handed_on [OF ts(1)])
qed

lemma propagation_work:
  assumes as: "valid_addrs as" and st: "chain_state hw m direct as c"
    and step: "cluster_step c e c'" and e: "propagation e"
  shows "work m as c' < work m as c"
  using step
proof cases
  case (worker_take a sv m' t d)
  note upd = work_update [OF as server_endpoint [OF as st worker_take(3)] worker_take(3), of c' _ m]
  from worker_take(4) have "dispatcher_work m as d + 3 * hops_left m as (task_call t) < dispatcher_work m as (dispatchers sv m')"
    by (elim disp_step_TakeE) (simp add: dispatcher_work_def task_work_def calls_of_take)
  then show ?thesis
    using upd [of "put_dispatcher m' d sv"] server_work_dispatcher [of m as m' d sv] worker_take(2)
    by (simp add: task_call_def)
next
  case (worker_complete a sv m' t d)
  note upd = work_update [OF as server_endpoint [OF as st worker_complete(3)] worker_complete(3), of c' _ m]
  from worker_complete(4) have "dispatcher_work m as d < dispatcher_work m as (dispatchers sv m')"
    by (elim disp_step_CompleteE) (simp add: dispatcher_work_def flip: calls_of_complete)
  then show ?thesis
    using upd [of "put_dispatcher m' d sv"] server_work_dispatcher [of m as m' d sv] worker_complete(2)
    by simp
next
  case (deliver_propagate b req sv rpc res sv')
  note upd = work_update [OF as server_endpoint [OF as st deliver_propagate(4)] deliver_propagate(4), of c' sv' m]
  show ?thesis
    using upd deliver_work [OF as st deliver_propagate(3-5)] deliver_propagate(2)
      sum_list_remove1 [OF deliver_propagate(3), of "\<lambda>x. 3 * hops_left m as x"]
    by simp
next
  case (lose_propagate b req)
  obtain p j where "j < length as" "b = position m as (prop_key req) j"
    by (rule call_position [OF as st lose_propagate(3)])
  then have "0 < hops_left m as (b, req)" by (simp add: hops_left_position [OF as])
  then show ?thesis
    using sum_list_remove1 [OF lose_propagate(3), of "\<lambda>x. 3 * hops_left m as x"] lose_propagate(2)
    by (simp add: work_def)
qed (use e in auto)

lemma ack_events_work:
  assumes as: "valid_addrs as" and st: "chain_state hw m direct as c"
    and step: "cluster_step c e c'" and e: "\<not> propagation e" "\<not> is_write e"
  shows "work m as c' = work m as c"
  using step
proof cases
  case (ack_worker a sv m' s turn s')
  have "server_work m as (put_support m' s' sv) = server_work m as sv" by (simp add: server_work_def)
  then show ?thesis
    using work_update [OF as server_endpoint [OF as st ack_worker(3)] ack_worker(3), of c' "put_support m' s' sv" m]
      ack_worker(2) by simp
next
  case (deliver_ack b req sv res sv')
  have "server_work m as sv' = server_work m as sv"
    using server_work_handed_on [OF conjunct1 [OF ack_handed_on [OF deliver_ack(5)]]] by simp
  then show ?thesis
    using work_update [OF as server_endpoint [OF as st deliver_ack(4)] deliver_ack(4), of c' sv' m]
      deliver_ack(2) by simp
next
  case (configure_again a sv s cfg res sv')
  obtain s' where "sv' = put_support (Node_mode (the_node sv)) s' sv"
    by (rule rpc_Configure_again [OF configure_again(4-6)])
  then have "server_work m as sv' = server_work m as sv" by (simp add: server_work_def)
  then show ?thesis
    using work_update [OF as server_endpoint [OF as st configure_again(3)] configure_again(3), of c' sv' m]
      configure_again(2) by simp
qed (use e in \<open>auto simp: work_def\<close>)

subsection \<open>While there is work, some step is enabled\<close>

definition workers_alive :: "Cluster \<Rightarrow> bool" where
  "workers_alive c \<longleftrightarrow> (\<forall>a sv m. servers c a = Some sv \<longrightarrow> (\<exists>w \<in> set (workers (dispatchers sv m)). w \<noteq> Returned))"

lemma rpc_workers:
  "rpc_Write rpc req sv = ((st, resp), sv') \<Longrightarrow> workers (dispatchers sv' m) = workers (dispatchers sv m)"
  "rpc_Propagate rpc preq sv = (res, sv') \<Longrightarrow> workers (dispatchers sv' m) = workers (dispatchers sv m)"
  "rpc_Ack a sv = (ares, sv') \<Longrightarrow> workers (dispatchers sv' m) = workers (dispatchers sv m)"
proof -
  show "workers (dispatchers sv' m) = workers (dispatchers sv m)"
    if rpc: "rpc_Write rpc req sv = ((st, resp), sv')"
  proof (cases "the_strategy sv")
    case (Some x)
    then obtain m0 s where "the_strategy sv = Some (m0, s)" by force
    from rpc_Write_strategy(1) [OF this rpc refl] show ?thesis by simp
  qed (use rpc in \<open>simp add: rpc_Write_def\<close>)
  show "workers (dispatchers sv' m) = workers (dispatchers sv m)" if rpc: "rpc_Propagate rpc preq sv = (res, sv')"
  proof (cases "the_strategy sv")
    case (Some x)
    then obtain m0 s where "the_strategy sv = Some (m0, s)" by force
    from rpc_Propagate_strategy [OF this rpc] show ?thesis by simp
  qed (use rpc in \<open>simp add: rpc_Propagate_def\<close>)
  show "workers (dispatchers sv' m) = workers (dispatchers sv m)" if rpc: "rpc_Ack a sv = (ares, sv')"
    using ack_handed_on [OF rpc, of m] by (simp add: handed_on_def)
qed

lemma in_set_list_update: "i < length xs \<Longrightarrow> x \<in> set (xs[i := x])"
  by (metis length_list_update nth_list_update_eq nth_mem)

lemma disp_step_alive:
  "disp_step d (Take t) d' \<Longrightarrow> \<exists>w \<in> set (workers d'). w \<noteq> Returned"
  "disp_step d (Complete t) d' \<Longrightarrow> \<exists>w \<in> set (workers d'). w \<noteq> Returned"
  by (metis disp_step_TakeE in_set_list_update Worker.distinct(5) PropagateDispatcher.select_convs(2)
      PropagateDispatcher.surjective PropagateDispatcher.update_convs(1,2))
    (metis disp_step_CompleteE in_set_list_update Worker.distinct(3) PropagateDispatcher.select_convs(2)
      PropagateDispatcher.surjective PropagateDispatcher.update_convs(2))

lemma alive_step: "cluster_step c e c' \<Longrightarrow> workers_alive c \<Longrightarrow> workers_alive c'"
proof (induction rule: cluster_step.induct)
  case (worker_take c a sv m t d)
  then show ?case using disp_step_alive(1) by (simp add: workers_alive_def)
next
  case (worker_complete c a sv m t d)
  then show ?case using disp_step_alive(2) by (simp add: workers_alive_def)
next
  case (configure_again c a sv s cfg res sv')
  obtain s' where "sv' = put_support (Node_mode (the_node sv)) s' sv"
    by (rule rpc_Configure_again [OF configure_again.hyps(2-4)])
  then show ?case using configure_again.hyps(1) configure_again.prems by (simp add: workers_alive_def)
qed (auto simp: workers_alive_def rpc_workers)

lemma alive_reach: "cluster_reach allowed c0 c \<Longrightarrow> workers_alive c0 \<Longrightarrow> workers_alive c"
  by (induction rule: cluster_reach.induct) (auto intro: alive_step)

lemma configured_dispatchers: "dispatchers (configured hw p) m = dispatcher_init hw"
  if "proto_to_config p = Inr cfg"
  using that strategy_on_config_change_frame(3) [of "mode cfg" "\<lparr>config = cfg\<rparr>"]
  by (simp add: configured_def rpc_Configure_def Server_init_def Let_def make_strategy_def update_config_def)

lemma deployed_alive:
  assumes "valid_addrs as"
  shows "workers_alive (deployed hw m direct as)"
  unfolding workers_alive_def
proof (intro allI impI)
  fix a sv m' assume sv: "servers (deployed hw m direct as) a = Some sv"
  then have "a \<in> (\<lambda>i. pb_endpoint (as ! i)) ` {..<length as}"
    using deployed_dom [OF assms(1), of hw m direct "[]"] position_image [OF assms(1)] by blast
  then obtain i where i: "a = pb_endpoint (as ! i)" "i < length as" by auto
  then have "dispatchers sv m' = dispatcher_init hw"
    using sv deployed_server [OF assms i(2)] configured_dispatchers [OF proto_to_config_node] by auto
  then show "\<exists>w \<in> set (workers (dispatchers sv m')). w \<noteq> Returned"
    by (simp add: dispatcher_init_def worker_count_def)
qed

fun delivers :: "cluster_event \<Rightarrow> bool" where
  "delivers (Worker_take a m t) = True"
| "delivers (Worker_complete a m t) = True"
| "delivers (Deliver_propagate b req) = True"
| "delivers _ = False"

lemma delivers_propagation: "delivers e \<Longrightarrow> propagation e"
  by (cases e) simp_all

lemma disp_step_enabled:
  assumes "w \<in> set (workers d)" "w \<noteq> Returned" "queue d \<noteq> []"
  shows "(\<exists>t d'. disp_step d (Take t) d') \<or> (\<exists>t d'. disp_step d (Complete t) d')"
proof -
  obtain i where i: "i < length (workers d)" "workers d ! i = w" using assms(1) by (auto simp: in_set_conv_nth)
  obtain t ts where q: "queue d = t # ts" using assms(3) by (cases "queue d") auto
  show ?thesis
    using take_task [OF i(1) _ q] complete_call [OF i(1)] i(2) assms(2) by (cases w) blast+
qed

lemma delivery_enabled:
  assumes as: "valid_addrs as" and st: "chain_state hw m direct as c" and live: "workers_alive c"
    and busy: "\<not> quiet c"
  obtains e c' where "cluster_step c e c'" "delivers e" "accepted c' = accepted c"
proof (cases "prop_calls c")
  case Nil
  then obtain a sv m' where sv: "servers c a = Some sv" "queue (dispatchers sv m') \<noteq> []"
    using busy by (auto simp: quiet_def)
  from live sv(1) obtain w where w: "w \<in> set (workers (dispatchers sv m'))" "w \<noteq> Returned"
    unfolding workers_alive_def by blast
  from disp_step_enabled [OF w sv(2)] show thesis
  proof (elim disjE exE)
    fix t d assume "disp_step (dispatchers sv m') (Take t) d"
    from that [OF cluster_step.worker_take [OF sv(1) this]] show thesis by simp
  next
    fix t d assume "disp_step (dispatchers sv m') (Complete t) d"
    from that [OF cluster_step.worker_complete [OF sv(1) this]] show thesis by simp
  qed
next
  case (Cons x xs)
  obtain b req where "x = (b, req)" by force
  then have call: "(b, req) \<in> set (prop_calls c)" using Cons by simp
  obtain p j where "b = position m as (prop_key req) j" "j < length as"
    and sim: "cluster_sim (length as) m (position m as (prop_key req)) (prop_key req) (origin_text m as (prop_key req)) p c"
    by (rule call_position [OF as st call])
  then obtain sv where sv: "servers c b = Some sv" by (auto simp: cluster_sim_def)
  obtain res sv' where "rpc_Propagate rpc_up req sv = (res, sv')" by (metis surj_pair)
  from that [OF cluster_step.deliver_propagate [OF call sv this]] show thesis by simp
qed

subsection \<open>Running to rest\<close>

inductive cluster_path :: "Cluster \<Rightarrow> cluster_event list \<Rightarrow> Cluster \<Rightarrow> bool" where
  path_nil: "cluster_path c [] c"
| path_cons: "cluster_step c e c' \<Longrightarrow> cluster_path c' es c'' \<Longrightarrow> cluster_path c (e # es) c''"

lemma step_accepted: "cluster_step c e c' \<Longrightarrow> \<not> is_write e \<Longrightarrow> accepted c' = accepted c"
  by (auto elim!: cluster_step.cases)

lemma not_write_routed: "\<not> is_write e \<Longrightarrow> client_routes m as e"
  by (cases e) (simp_all add: client_routes_def routed_to_def)

lemma delivers_cases: "delivers e \<Longrightarrow> \<not> is_write e \<and> \<not> loses_propagate e"
  by (cases e) simp_all

lemma cluster_reach_mono:
  "cluster_reach allowed c0 c \<Longrightarrow> (\<And>e. allowed e \<Longrightarrow> allowed' e) \<Longrightarrow> cluster_reach allowed' c0 c"
  by (induction rule: cluster_reach.induct) (auto intro: cluster_reach.intros)

lemma path_work:
  assumes "cluster_path c es c'" "valid_addrs as" "list_all (\<lambda>e. \<not> is_write e) es"
    "cluster_reach (client_routes m as) (deployed hw m direct as) c" "length (accepted c) + 1 < 2 ^ 64"
  shows "length (filter propagation es) + work m as c' \<le> work m as c"
  using assms(1,3-5)
proof (induction rule: cluster_path.induct)
  case (path_cons c e c' es c'')
  have st: "chain_state hw m direct as c"
    by (rule reach_chain_state [OF assms(2) path_cons.prems(2,3)])
  have e: "\<not> is_write e" using path_cons.prems(1) by simp
  have "cluster_reach (client_routes m as) (deployed hw m direct as) c'"
    by (rule reach_step [OF path_cons.prems(2) path_cons.hyps(1) not_write_routed [OF e]])
  then have "length (filter propagation es) + work m as c'' \<le> work m as c'"
    using path_cons.IH path_cons.prems step_accepted [OF path_cons.hyps(1) e] by simp
  moreover have "work m as c' + (if propagation e then 1 else 0) \<le> work m as c"
    using propagation_work [OF assms(2) st path_cons.hyps(1)]
      ack_events_work [OF assms(2) st path_cons.hyps(1) _ e] by auto
  ultimately show ?case by auto
qed simp

lemma runs_to_rest:
  assumes "valid_addrs as" "cluster_reach (client_routes m as) (deployed hw m direct as) c"
    "length (accepted c) + 1 < 2 ^ 64"
  shows "\<exists>c'. cluster_reach delivers c c' \<and> quiet c' \<and> accepted c' = accepted c"
  using assms(2,3)
proof (induction "work m as c" arbitrary: c rule: less_induct)
  case less
  show ?case
  proof (cases "quiet c")
    case True
    then show ?thesis using reach_start by blast
  next
    case False
    have st: "chain_state hw m direct as c" by (rule reach_chain_state [OF assms(1) less.prems])
    have "workers_alive c" by (rule alive_reach [OF less.prems(1) deployed_alive [OF assms(1)]])
    from delivery_enabled [OF assms(1) st this False] obtain e c1 where
      e: "cluster_step c e c1" "delivers e" "accepted c1 = accepted c" by blast
    have "work m as c1 < work m as c"
      by (rule propagation_work [OF assms(1) st e(1) delivers_propagation [OF e(2)]])
    moreover have "cluster_reach (client_routes m as) (deployed hw m direct as) c1"
      using reach_step [OF less.prems(1) e(1) not_write_routed] delivers_cases [OF e(2)] by blast
    ultimately obtain c' where c': "cluster_reach delivers c1 c'" "quiet c'" "accepted c' = accepted c1"
      using less.hyps less.prems(2) e(3) by metis
    have "cluster_reach delivers c c1" by (rule reach_step [where allowed = delivers, OF reach_start e(1,2)])
    from cluster_reach_trans [OF c'(1) this] show ?thesis using c'(2,3) e(3) by auto
  qed
qed

lemma deployed_caught_up:
  assumes "valid_addrs as"
  shows "caught_up (length as) (position m as k) k (deployed hw m direct as)"
proof -
  have "seen_by (deployed hw m direct as) (position m as k j) k = 0" if "j < length as" for j
    using cluster_sim_node [OF deployed_sim [OF assms] that]
    by (simp add: node_ok_def pipeline_init_def unsigned_eq_0_iff)
  then show ?thesis by (simp add: caught_up_def)
qed

text \<open>At rest, with no call lost on the way, every chain agrees on the newest accepted version.\<close>

lemma rest_converged:
  assumes as: "valid_addrs as"
    and reach: "cluster_reach (\<lambda>e. client_routes m as e \<and> \<not> loses_propagate e) (deployed hw m direct as) c"
    and len: "length (accepted c) + 1 < 2 ^ 64" and rest: "quiet c"
  shows "j < length as \<Longrightarrow>
      seen_by c (position m as k j) k = committed_version (key_at c (tail_of m as k) k)"
    and "(k, v, x) \<in> set (accepted c) \<Longrightarrow> v \<le> committed_version (key_at c (tail_of m as k) k)"
    and "committed_version (key_at c (tail_of m as k) k) \<noteq> 0 \<Longrightarrow>
      (k, committed_version (key_at c (tail_of m as k) k), committed_value (key_at c (tail_of m as k) k))
        \<in> set (accepted c)"
proof -
  have routes: "cluster_reach (client_routes m as) (deployed hw m direct as) c"
    by (rule cluster_reach_mono [OF reach]) simp
  obtain p where inv: "pl_inv (length as) p"
    and sim: "cluster_sim (length as) m (position m as k) k (origin_text m as k) p c"
    by (rule deployed_refines [OF as routes len])
  note up = forwarding_chain.reach_caught_up [OF forwarding_chain_deployed [OF as] reach _
      deployed_sim [OF as] deployed_fixed [OF as] len deployed_caught_up [OF as]]
  note conv = forwarding_chain.quiet_converged [OF forwarding_chain_deployed [OF as] up rest sim inv,
      folded tail_of_def]
  show "seen_by c (position m as k j) k = committed_version (key_at c (tail_of m as k) k)" if "j < length as"
    by (rule conv(1)) (use that in auto)
  have n: "0 < length as" using valid_addrs_pos [OF as] by linarith
  show "v \<le> committed_version (key_at c (tail_of m as k) k)" if "(k, v, x) \<in> set (accepted c)"
  proof -
    have "issued p (unat v) = Some x" using that sim by (auto simp: cluster_sim_def)
    then have "unat v \<le> assigned p" using pl_invD(2) [OF inv] by (metis atLeastAtMost_iff domI)
    moreover have "unat (committed_version (key_at c (tail_of m as k) k)) = assigned p"
      by (rule conv(2)) (use n in auto)
    ultimately show ?thesis by (simp add: word_le_nat_alt)
  qed
  show "(k, committed_version (key_at c (tail_of m as k) k), committed_value (key_at c (tail_of m as k) k))
        \<in> set (accepted c)" if "committed_version (key_at c (tail_of m as k) k) \<noteq> 0"
    using replication_chain.sim_values(1) [OF replication_chain_deployed [OF as] sim, of "length as - 1"]
      that n by (simp add: tail_of_def)
qed

text \<open>The shipped addresses as an instance of the forwarding laws, for every mode and key.\<close>

interpretation sample_forwarding: forwarding_chain "length sample_addrs" m "position m sample_addrs k" k
    "origin_text m sample_addrs k" "start_topo 2 m False sample_addrs" "client_routes m sample_addrs"
  for m k
  by (rule forwarding_chain_deployed [OF sample_valid])

lemma sample_lossless:
  "cluster_reach (\<lambda>e. client_routes m sample_addrs e \<and> \<not> loses_propagate e) (deployed 2 m False sample_addrs)
    (sample_cluster m)"
  by (rule sample_reach [OF sample_facts(1)]) (simp_all add: client_routes_def routed_to_def)

lemma exec_events_path: "exec_events es c = Some c' \<Longrightarrow> cluster_path c es c'"
  by (induction es arbitrary: c) (auto intro: cluster_path.intros exec_event_step split: option.splits)

end
