(* ===== verification/Provenance.thy ===== *)
theory Provenance
  imports Progress "HOL-Library.Sublist"
begin

section \<open>Acks name the writes they are for\<close>

text \<open>
  A Propagate carries the address and the request id of the client whose write it spreads, and
  the tail's ack repeats them. Whatever the topology and the routing, each Propagate under way and
  each ack that went out stems from a write some client sent, was accepted under the version it
  carries, and names that client and request.
\<close>

text \<open>
  The writes clients sent, in the order they were handled, and those among them the servers
  accepted, each with its version: \<open>served\<close> is a part of the former and stands behind the log.
\<close>

fun writes_of :: "cluster_event list \<Rightarrow> WriteRequest list" where
  "writes_of [] = []"
| "writes_of (e # es) = (case e of Client_write a req \<Rightarrow> req # writes_of es | _ \<Rightarrow> writes_of es)"

type_synonym served = "(WriteRequest \<times> u64) list"

definition served_by :: "cluster_event list \<Rightarrow> Cluster \<Rightarrow> served \<Rightarrow> bool" where
  "served_by es c served \<longleftrightarrow>
     subseq (map fst served) (writes_of es) \<and>
     accepted c = map (\<lambda>(req, v). (wreq_key req, v, wreq_value req)) served"

definition spreads_write :: "served \<Rightarrow> PropagateRequest \<Rightarrow> bool" where
  "spreads_write served preq \<longleftrightarrow>
     (\<exists>req. (req, prop_version preq) \<in> set served \<and>
        preq = make_propagate req (prop_version preq) (prop_origin_id preq))"

definition acks_write :: "served \<Rightarrow> stub \<times> AckRequest \<Rightarrow> bool" where
  "acks_write served x \<longleftrightarrow>
     (\<exists>req v. (req, v) \<in> set served \<and>
        x = (wreq_client_addr req, make_ack (wreq_key req) v (wreq_client_addr req) (wreq_request_id req)))"

definition stems_from :: "served \<Rightarrow> Cluster \<Rightarrow> bool" where
  "stems_from served c \<longleftrightarrow>
     (\<forall>x. in_transit c x \<longrightarrow> spreads_write served (snd x)) \<and>
     (\<forall>a sv x. servers c a = Some sv \<longrightarrow> x \<in> set (ack_log sv) \<longrightarrow> acks_write served x)"

definition provenance :: "cluster_event list \<Rightarrow> Cluster \<Rightarrow> bool" where
  "provenance es c \<longleftrightarrow> (\<exists>served. served_by es c served \<and> stems_from served c)"

lemma writes_of_append [simp]: "writes_of (es @ es') = writes_of es @ writes_of es'"
  by (induction es) (auto split: cluster_event.splits)

lemma writes_of_mem: "req \<in> set (writes_of es) \<Longrightarrow> \<exists>a. Client_write a req \<in> set es"
  by (induction es) (auto split: cluster_event.splits)

lemma served_mem:
  assumes "served_by es c served" "(req, v) \<in> set served"
  shows "\<exists>a. Client_write a req \<in> set es" "(wreq_key req, v, wreq_value req) \<in> set (accepted c)"
proof -
  have "req \<in> set (map fst served)" using assms(2) by force
  then have "req \<in> set (writes_of es)"
    using assms(1) unfolding served_by_def by (blast elim: list_emb_set)
  then show "\<exists>a. Client_write a req \<in> set es" by (rule writes_of_mem)
  show "(wreq_key req, v, wreq_value req) \<in> set (accepted c)"
    using assms by (force simp: served_by_def)
qed

lemma served_by_same: "served_by es c served \<Longrightarrow> accepted c' = accepted c \<Longrightarrow> served_by (es @ es') c' served"
  by (auto simp: served_by_def)

lemma served_by_snoc:
  "served_by es c served \<Longrightarrow> accepted c' = accepted c @ [(wreq_key req, v, wreq_value req)] \<Longrightarrow>
    served_by (es @ [Client_write a req]) c' (served @ [(req, v)])"
  by (auto simp: served_by_def intro: list_emb_append_mono)

lemma stems_mono:
  "spreads_write served r \<Longrightarrow> set served \<subseteq> set served' \<Longrightarrow> spreads_write served' r"
  "acks_write served x \<Longrightarrow> set served \<subseteq> set served' \<Longrightarrow> acks_write served' x"
  unfolding spreads_write_def acks_write_def by blast+

lemma stems_fromD:
  "stems_from served c \<Longrightarrow> in_transit c x \<Longrightarrow> spreads_write served (snd x)"
  "stems_from served c \<Longrightarrow> servers c a = Some sv \<Longrightarrow> y \<in> set (ack_log sv) \<Longrightarrow> acks_write served y"
  unfolding stems_from_def by blast+

subsection \<open>What a handler adds\<close>

text \<open>The tasks and acks of \<open>sv'\<close> are those of \<open>sv\<close>, or spread a request in \<open>P\<close>, or are in \<open>A\<close>.\<close>

definition adds_only ::
    "(PropagateRequest \<Rightarrow> bool) \<Rightarrow> (stub \<times> AckRequest \<Rightarrow> bool) \<Rightarrow> Server \<Rightarrow> Server \<Rightarrow> bool" where
  "adds_only P A sv sv' \<longleftrightarrow>
     (\<forall>m t. t \<in> set (queue (dispatchers sv' m)) \<longrightarrow> t \<in> set (queue (dispatchers sv m)) \<or> P (task_req t)) \<and>
     (\<forall>x \<in> set (ack_log sv'). x \<in> set (ack_log sv) \<or> A x)"

lemma adds_only_refl [simp]: "adds_only P A sv sv"
  by (simp add: adds_only_def)

lemma adds_only_put:
  assumes "\<And>t. t \<in> set (queue (dispatcher r)) \<Longrightarrow> t \<in> set (queue (dispatchers sv m)) \<or> P (task_req t)"
    and "\<And>x. x \<in> set (client_acks r) \<Longrightarrow> x \<in> set (ack_log sv) \<or> A x"
  shows "adds_only P A sv (put_replica m r sv)"
  using assms by (auto simp: adds_only_def split: if_splits)

lemma write_adds:
  assumes "cache_ok sv" "rpc_Write rpc req sv = ((st, resp), sv')"
  shows "(resp = None \<and> sv' = sv) \<or>
    (\<exists>v. resp = Some (accepted_response v) \<and>
      adds_only (\<lambda>r. \<exists>origin. r = make_propagate req v origin)
        (\<lambda>x. x = (wreq_client_addr req, make_ack (wreq_key req) v (wreq_client_addr req) (wreq_request_id req)))
        sv sv')"
proof (cases "the_strategy sv")
  case None
  then show ?thesis using assms(2) by (auto simp: rpc_Write_def)
next
  case (Some x)
  obtain m s where s: "the_strategy sv = Some (m, s)" using Some by (cases x) simp
  let ?r = "replica_of sv (m, s)" let ?h = "strategy_handle_write m rpc req (the_node sv) ?r"
  let ?v = "next_version (kstate ?r (wreq_key req)) + 1"
  note rpc = rpc_Write_strategy [OF s assms(2) refl]
  have wf: "wf_client_cache (support ?r)" using assms(1) s by (simp add: cache_ok_def)
  show ?thesis
  proof (cases "m = CROWN \<or> Node_is_head (the_node sv)")
    case False
    then have "fst ?h = Inl (Runtime_error (server_mode_name m @ '' write rejected: node is not head''))" "snd ?h = ?r"
      by (cases m; simp add: strategy_handle_write_def chain_write_reject craq_write_reject server_mode_name_def)+
    then show ?thesis using rpc put_replica_same [OF s] by simp
  next
    case True
    then have "fst ?h = Inr (accepted_response ?v)"
      by (cases m) (simp_all add: strategy_handle_write_def chain_write_result craq_write_result crown_write_result)
    moreover have "adds_only (\<lambda>r. \<exists>origin. r = make_propagate req ?v origin)
        (\<lambda>x. x = (wreq_client_addr req, make_ack (wreq_key req) ?v (wreq_client_addr req) (wreq_request_id req)))
        sv (put_replica m (snd ?h) sv)"
      using True wf
      by (intro adds_only_put; cases m)
        (auto simp: strategy_handle_write_def chain_write_queue craq_write_queue crown_write_queue
          chain_write_acks craq_write_acks crown_write_acks split: option.splits if_splits)
    ultimately show ?thesis using rpc by auto
  qed
qed

lemma propagate_adds:
  assumes "cache_ok sv" "rpc_Propagate rpc preq sv = (res, sv')"
  shows "adds_only (\<lambda>r. r = preq)
    (\<lambda>x. x = (prop_client_addr preq,
        make_ack (prop_key preq) (prop_version preq) (prop_client_addr preq) (prop_request_id preq))) sv sv'"
proof (cases "the_strategy sv")
  case None
  then show ?thesis using assms(2) by (simp add: rpc_Propagate_def)
next
  case (Some x)
  obtain m s where s: "the_strategy sv = Some (m, s)" using Some by (cases x) simp
  have wf: "wf_client_cache (support (replica_of sv (m, s)))" using assms(1) s by (simp add: cache_ok_def)
  show ?thesis
    unfolding rpc_Propagate_strategy [OF s assms(2)]
    using wf
    by (intro adds_only_put; cases m)
      (auto simp: strategy_handle_propagate_def chain_propagate_queue craq_propagate_queue crown_propagate_queue
        chain_propagate_acks craq_propagate_acks crown_propagate_acks split: option.splits if_splits)
qed

lemma ack_adds:
  assumes "rpc_Ack a sv = (res, sv')"
  shows "adds_only (\<lambda>_. False) (\<lambda>_. False) sv sv'"
proof (cases "the_strategy sv")
  case None
  then show ?thesis using assms by (simp add: rpc_Ack_def)
next
  case (Some x)
  obtain m s where s: "the_strategy sv = Some (m, s)" using Some by (cases x) simp
  show ?thesis
    unfolding rpc_Ack_strategy [OF s assms]
    by (intro adds_only_put; cases m)
      (auto simp: strategy_handle_ack_def chain_handle_ack_def crown_handle_ack_def craq_handle_ack_def Let_def
        split: if_splits)
qed

subsection \<open>Every run keeps it\<close>

lemma transit_adds:
  assumes "servers c a = Some sv" "servers c' = (servers c)(a \<mapsto> sv')" "adds_only P A sv sv'"
    and "\<And>y. y \<in> set (prop_calls c') \<Longrightarrow> in_transit c y \<or> P (snd y)" "in_transit c' x"
  shows "in_transit c x \<or> P (snd x)"
proof (cases "x \<in> set (prop_calls c')")
  case True
  then show ?thesis by (rule assms(4))
next
  case False
  then obtain b sb m t where b: "servers c' b = Some sb" "t \<in> set (queue (dispatchers sb m))" "x = task_call t"
    using assms(5) by (auto simp: in_transit_def)
  show ?thesis
  proof (cases "b = a")
    case True
    then have "t \<in> set (queue (dispatchers sv m)) \<or> P (task_req t)"
      using b(1,2) assms(2,3) by (auto simp: adds_only_def)
    then show ?thesis using b(3) assms(1) by (auto simp: in_transit_def task_call_def)
  next
    case False
    then have "servers c b = Some sb" using b(1) assms(2) by simp
    then show ?thesis using b(2,3) by (auto simp: in_transit_def)
  qed
qed

lemma stems_update:
  assumes stems: "stems_from served c" and sv: "servers c a = Some sv" "servers c' = (servers c)(a \<mapsto> sv')"
    and adds: "adds_only P A sv sv'"
    and calls: "\<And>y. y \<in> set (prop_calls c') \<Longrightarrow> in_transit c y \<or> P (snd y)"
    and grows: "set served \<subseteq> set served'"
    and new: "\<And>r. P r \<Longrightarrow> spreads_write served' r" "\<And>x. A x \<Longrightarrow> acks_write served' x"
  shows "stems_from served' c'"
  unfolding stems_from_def
proof (intro conjI allI impI)
  fix x assume "in_transit c' x"
  from transit_adds [OF sv adds calls this] show "spreads_write served' (snd x)"
    using stems_fromD(1) [OF stems] new(1) stems_mono(1) [OF _ grows] by blast
next
  fix b sb x assume b: "servers c' b = Some sb" "x \<in> set (ack_log sb)"
  then have "(\<exists>sb. servers c b = Some sb \<and> x \<in> set (ack_log sb)) \<or> A x"
    using sv adds by (cases "b = a") (auto simp: adds_only_def)
  then show "acks_write served' x"
    using stems_fromD(2) [OF stems] new(2) stems_mono(2) [OF _ grows] by blast
qed

lemma in_transit_call: "x \<in> set (prop_calls c) \<Longrightarrow> in_transit c x"
  by (simp add: in_transit_def)

lemma in_transit_task:
  "servers c a = Some sv \<Longrightarrow> t \<in> set (queue (dispatchers sv m)) \<Longrightarrow> in_transit c (task_call t)"
  unfolding in_transit_def by blast

lemma stems_less:
  "stems_from served c \<Longrightarrow> (\<And>x. in_transit c' x \<Longrightarrow> in_transit c x) \<Longrightarrow> servers c' = servers c \<Longrightarrow>
    stems_from served c'"
  unfolding stems_from_def by metis

text \<open>A write is the one step that changes what was served.\<close>

lemma stems_write:
  assumes served: "served_by es c served" and stems: "stems_from served c" and cache: "cache_ok sv"
    and sv: "servers c a = Some sv" and rpc: "rpc_Write rpc req sv = ((st, resp), sv')"
    and c': "c' = (put_server a sv' c)\<lparr>accepted := accepted c @ accepted_entry req resp\<rparr>"
  shows "provenance (es @ [Client_write a req]) c'"
  using write_adds [OF cache rpc]
proof (elim disjE exE conjE)
  assume same: "resp = None" "sv' = sv"
  have "stems_from served c'"
    by (rule stems_update [OF stems sv, where P = "\<lambda>_. False" and A = "\<lambda>_. False" and sv' = sv'])
      (use c' same in \<open>auto simp: in_transit_call\<close>)
  moreover have "served_by (es @ [Client_write a req]) c' served"
    by (rule served_by_same [OF served]) (simp add: c' same accepted_entry_def)
  ultimately show ?thesis by (auto simp: provenance_def)
next
  fix v assume v: "resp = Some (accepted_response v)"
    "adds_only (\<lambda>r. \<exists>origin. r = make_propagate req v origin)
      (\<lambda>x. x = (wreq_client_addr req, make_ack (wreq_key req) v (wreq_client_addr req) (wreq_request_id req)))
      sv sv'"
  have "stems_from (served @ [(req, v)]) c'"
    by (rule stems_update [OF stems sv _ v(2)])
      (use c' in \<open>auto simp: in_transit_call spreads_write_def acks_write_def make_propagate_def\<close>)
  moreover have "served_by (es @ [Client_write a req]) c' (served @ [(req, v)])"
    by (rule served_by_snoc [OF served]) (simp add: c' v(1) accepted_entry_def)
  ultimately show ?thesis by (auto simp: provenance_def)
qed

text \<open>Every other step adds nothing that does not stem from what was served before.\<close>

lemma stems_step:
  assumes stems: "stems_from served c" and step: "cluster_step c e c'" and fx: "cluster_fixed T c"
    and e: "\<not> is_write e"
  shows "stems_from served c'"
proof -
  have cache: "cache_ok sv" if "servers c a = Some sv" for a sv
    using fx that by (auto simp: cluster_fixed_def fixed_def)
  show ?thesis
    using step
  proof cases
    case (client_write a sv rpc req st resp sv')
    then show ?thesis using e by simp
  next
    case (worker_take a sv m t d)
    have q: "queue (dispatchers sv m) = t # queue d" using worker_take(4) by (auto elim!: disp_step_TakeE)
    have adds: "adds_only (\<lambda>_. False) (\<lambda>_. False) sv (put_dispatcher m d sv)"
      using q by (auto simp: adds_only_def)
    have "in_transit c (task_call t)" by (rule in_transit_task [OF worker_take(3), where m = m]) (simp add: q)
    then show ?thesis
      by (intro stems_update [OF stems worker_take(3) _ adds])
        (use worker_take in \<open>auto simp: in_transit_call task_call_def\<close>)
  next
    case (worker_complete a sv m t d)
    have adds: "adds_only (\<lambda>_. False) (\<lambda>_. False) sv (put_dispatcher m d sv)"
      using worker_complete(4) by (auto simp: adds_only_def elim!: disp_step_CompleteE)
    show ?thesis
      by (rule stems_update [OF stems worker_complete(3) _ adds])
        (use worker_complete in \<open>auto simp: in_transit_call\<close>)
  next
    case (deliver_propagate b req sv rpc res sv')
    have spreads: "spreads_write served req"
      using stems_fromD(1) [OF stems in_transit_call [OF deliver_propagate(3)]] by simp
    then obtain w where w: "(w, prop_version req) \<in> set served"
      "req = make_propagate w (prop_version req) (prop_origin_id req)" by (auto simp: spreads_write_def)
    have names: "prop_client_addr req = wreq_client_addr w" "prop_key req = wreq_key w"
      "prop_request_id req = wreq_request_id w"
      using w(2) by (metis PropagateRequest.select_convs make_propagate_def)+
    show ?thesis
    proof (rule stems_update [OF stems deliver_propagate(4) _
          propagate_adds [OF cache [OF deliver_propagate(4)] deliver_propagate(5)]])
      show "in_transit c y \<or> snd y = req" if "y \<in> set (prop_calls c')" for y
        using that deliver_propagate(2) set_remove1_subset [of "(b, req)" "prop_calls c"]
        by (auto intro: in_transit_call)
    qed (use deliver_propagate spreads w(1) names in \<open>auto simp: acks_write_def\<close>)
  next
    case (lose_propagate b req)
    have "in_transit c x" if "in_transit c' x" for x
      using that lose_propagate(2) set_remove1_subset [of "(b, req)" "prop_calls c"]
      by (auto simp: in_transit_def)
    then show ?thesis
      by (rule stems_less [OF stems]) (use lose_propagate in simp_all)
  next
    case (ack_worker a sv m s turn s')
    have adds: "adds_only (\<lambda>_. False) (\<lambda>_. False) sv (put_support m s' sv)" by (simp add: adds_only_def)
    show ?thesis
      by (rule stems_update [OF stems ack_worker(3) _ adds])
        (use ack_worker in \<open>auto simp: in_transit_call\<close>)
  next
    case (deliver_ack b req sv res sv')
    show ?thesis
      by (rule stems_update [OF stems deliver_ack(4) _ ack_adds [OF deliver_ack(5)]])
        (use deliver_ack in \<open>auto simp: in_transit_call\<close>)
  next
    case (lose_ack b req)
    then show ?thesis
      by (intro stems_less [OF stems]) (simp_all add: in_transit_def)
  next
    case (configure_again a sv s cfg res sv')
    obtain s' where "sv' = put_support (Node_mode (the_node sv)) s' sv"
      by (rule rpc_Configure_again [OF configure_again(4-6)])
    then have adds: "adds_only (\<lambda>_. False) (\<lambda>_. False) sv sv'" by (simp add: adds_only_def)
    show ?thesis
      by (rule stems_update [OF stems configure_again(3) _ adds])
        (use configure_again in \<open>auto simp: in_transit_call\<close>)
  qed
qed

lemma provenance_step:
  assumes prov: "provenance es c" and step: "cluster_step c e c'" and fx: "cluster_fixed T c"
  shows "provenance (es @ [e]) c'"
proof -
  obtain served where served: "served_by es c served" "stems_from served c"
    using prov by (auto simp: provenance_def)
  show ?thesis
  proof (cases "is_write e")
    case False
    then show ?thesis
      using served_by_same [OF served(1) step_accepted [OF step False]] stems_step [OF served(2) step fx False]
      by (auto simp: provenance_def)
  next
    case True
    from step show ?thesis
    proof cases
      case (client_write a sv rpc req st resp sv')
      have "cache_ok sv" using fx client_write(3) by (auto simp: cluster_fixed_def fixed_def)
      from stems_write [OF served this client_write(3,4,2)] show ?thesis by (simp add: client_write(1))
    qed (use True in auto)
  qed
qed

lemma provenance_path:
  "cluster_path c es' c' \<Longrightarrow> provenance es c \<Longrightarrow> cluster_fixed T c \<Longrightarrow> provenance (es @ es') c'"
proof (induction arbitrary: es rule: cluster_path.induct)
  case (path_cons c e c' es' c'')
  from path_cons.IH [OF provenance_step [OF path_cons.prems(1) path_cons.hyps(1) path_cons.prems(2)]
      cluster_step_fixed [OF path_cons.hyps(1) path_cons.prems(2)]]
  show ?case by simp
qed simp

lemma deployed_provenance:
  assumes "valid_addrs as"
  shows "provenance [] (deployed hw m direct as)"
proof -
  have start: "queue (dispatchers sv m') = [] \<and> ack_log sv = []"
    if sv: "servers (deployed hw m direct as) a = Some sv" for a sv m'
  proof -
    have "a \<in> (\<lambda>i. pb_endpoint (as ! i)) ` {..<length as}"
      using sv deployed_dom [OF assms(1), of hw m direct "[]"] position_image [OF assms(1)] by blast
    then obtain i where "a = pb_endpoint (as ! i)" "i < length as" by auto
    then show ?thesis
      using sv deployed_server [OF assms(1)] configured_server(4,5) [OF proto_to_config_node] by auto
  qed
  have "prop_calls (deployed hw m direct as) = []" by (simp add: deployed_def)
  then have "\<not> in_transit (deployed hw m direct as) x" for x
    using start by (auto simp: in_transit_def)
  then have "stems_from [] (deployed hw m direct as)" using start by (auto simp: stems_from_def)
  moreover have "served_by [] (deployed hw m direct as) []" by (simp add: served_by_def deployed_def)
  ultimately show ?thesis by (auto simp: provenance_def)
qed

lemma reach_path: "cluster_reach allowed c0 c \<Longrightarrow> \<exists>es. cluster_path c0 es c \<and> list_all allowed es"
proof (induction rule: cluster_reach.induct)
  case reach_start
  show ?case using path_nil [of c0] by (intro exI [of _ "[]"]) simp
next
  case (reach_step c e c')
  then obtain es where "cluster_path c0 es c" "list_all allowed es" by blast
  moreover have "cluster_path c0 (es @ [e]) c'" if "cluster_path c0 es c"
    using that reach_step(2) by (induction rule: cluster_path.induct) (auto intro: cluster_path.intros)
  ultimately show ?case using reach_step(3) by (intro exI [of _ "es @ [e]"]) simp
qed

end
