(* ===== verification/End_To_End.thy ===== *)
theory End_To_End
  imports Provenance Client_Requests Client_Deployment
begin

section \<open>A client and its cluster\<close>

text \<open>
  The composition of the two programs: a client with its topology, its Write calls in flight and
  the cluster it set up. The client issues writes; a call in flight is handled by the server it
  names or lost; the servers work on their own and serve other clients, and each ack a tail has
  sent to the client's address may arrive, any number of times. \<open>issued_writes\<close> remembers the key
  and the value of each request; \<open>es\<close> are the events of the cluster.

  Shown: an ack that finds its request pending is for that request's key, and the value of the
  request was accepted under the version the ack names and has been seen by every node of the chain.
\<close>

record System =
  sys_cluster :: Cluster
  sys_client :: Client
  sys_calls :: "(stub \<times> WriteRequest) list"
  issued_writes :: "(string \<times> string) list"

definition system_start :: "nat \<Rightarrow> ReplicationMode \<Rightarrow> pb_NodeAddress list \<Rightarrow> System" where
  "system_start hw m as =
     \<lparr>sys_cluster = deployed hw m False as, sys_client = Client_init, sys_calls = [], issued_writes = []\<rparr>"

definition with_client :: "Client \<Rightarrow> System \<Rightarrow> System" where
  "with_client cl s = s\<lparr>sys_client := cl\<rparr>"

definition with_cluster :: "Cluster \<Rightarrow> System \<Rightarrow> System" where
  "with_cluster c s = s\<lparr>sys_cluster := c\<rparr>"

inductive system_run ::
    "nat \<Rightarrow> ReplicationMode \<Rightarrow> pb_NodeAddress list \<Rightarrow> string \<Rightarrow> cluster_event list \<Rightarrow> System \<Rightarrow> bool"
  for hw :: nat and m :: ReplicationMode and as :: "pb_NodeAddress list" and addr :: string where
  sys_start: "system_run hw m as addr [] (system_start hw m as)"
| sys_issue: "system_run hw m as addr es s \<Longrightarrow>
    do_write_begin (deployed_topology m as) key x addr now (sys_client s) = (Some (h, req), cl) \<Longrightarrow>
    system_run hw m as addr es
      ((with_client cl s)\<lparr>
        sys_calls := sys_calls s @ [(ns_endpoint (topo_nodes (deployed_topology m as) ! h), req)],
        issued_writes := issued_writes s @ [(key, x)]\<rparr>)"
| sys_handle: "system_run hw m as addr es s \<Longrightarrow> (b, req) \<in> set (sys_calls s) \<Longrightarrow>
    cluster_step (sys_cluster s) (Client_write b req) c \<Longrightarrow>
    system_run hw m as addr (es @ [Client_write b req])
      ((with_cluster c s)\<lparr>sys_calls := remove1 (b, req) (sys_calls s)\<rparr>)"
| sys_lose: "system_run hw m as addr es s \<Longrightarrow>
    system_run hw m as addr es (s\<lparr>sys_calls := remove1 (b, req) (sys_calls s)\<rparr>)"
| sys_fail: "system_run hw m as addr es s \<Longrightarrow>
    system_run hw m as addr es (with_client (write_failed i (sys_client s)) s)"
| sys_other: "system_run hw m as addr es s \<Longrightarrow> wreq_client_addr req \<noteq> addr \<Longrightarrow>
    client_routes m as (Client_write b req) \<Longrightarrow> cluster_step (sys_cluster s) (Client_write b req) c \<Longrightarrow>
    system_run hw m as addr (es @ [Client_write b req]) (with_cluster c s)"
| sys_cluster_step: "system_run hw m as addr es s \<Longrightarrow> \<not> is_write e \<Longrightarrow>
    cluster_step (sys_cluster s) e c \<Longrightarrow> system_run hw m as addr (es @ [e]) (with_cluster c s)"
| sys_ack: "system_run hw m as addr es s \<Longrightarrow> servers (sys_cluster s) a = Some sv \<Longrightarrow>
    (addr, ack) \<in> set (ack_log sv) \<Longrightarrow>
    system_run hw m as addr es (with_client (ack_take (ack_request_id ack) (sys_client s)) s)"
| sys_note: "system_run hw m as addr es s \<Longrightarrow> i \<in> set (ack_threads (sys_client s)) \<Longrightarrow>
    system_run hw m as addr es (with_client (ack_note i now (sys_client s)) s)"

subsection \<open>The requests of the client\<close>

definition issued_as :: "System \<Rightarrow> u64 \<Rightarrow> string \<Rightarrow> string \<Rightarrow> bool" where
  "issued_as s i key x \<longleftrightarrow> (\<exists>j < length (issued_writes s). i = 1 + word_of_nat j \<and> issued_writes s ! j = (key, x))"

definition own_request :: "string \<Rightarrow> System \<Rightarrow> WriteRequest \<Rightarrow> bool" where
  "own_request addr s req \<longleftrightarrow> wreq_client_addr req = addr \<and>
     issued_as s (wreq_request_id req) (wreq_key req) (wreq_value req)"

definition system_inv ::
    "nat \<Rightarrow> ReplicationMode \<Rightarrow> pb_NodeAddress list \<Rightarrow> string \<Rightarrow> cluster_event list \<Rightarrow> System \<Rightarrow> bool" where
  "system_inv hw m as addr es s \<longleftrightarrow>
     cluster_path (deployed hw m False as) es (sys_cluster s) \<and> list_all (client_routes m as) es \<and>
     next_request_id (sys_client s) = 1 + word_of_nat (length (issued_writes s)) \<and>
     (\<forall>i w. pending_writes (sys_client s) i = Some w \<longrightarrow> issued_as s i (pw_key w) (pw_value w)) \<and>
     (\<forall>(b, req) \<in> set (sys_calls s). own_request addr s req \<and> client_routes m as (Client_write b req)) \<and>
     (\<forall>b req. Client_write b req \<in> set es \<longrightarrow> wreq_client_addr req = addr \<longrightarrow> own_request addr s req)"

lemma system_invD:
  assumes "system_inv hw m as addr es s"
  shows "cluster_path (deployed hw m False as) es (sys_cluster s)" "list_all (client_routes m as) es"
    "next_request_id (sys_client s) = 1 + word_of_nat (length (issued_writes s))"
    "\<And>i w. pending_writes (sys_client s) i = Some w \<Longrightarrow> issued_as s i (pw_key w) (pw_value w)"
    "\<And>b req. (b, req) \<in> set (sys_calls s) \<Longrightarrow> own_request addr s req \<and> client_routes m as (Client_write b req)"
    "\<And>b req. Client_write b req \<in> set es \<Longrightarrow> wreq_client_addr req = addr \<Longrightarrow> own_request addr s req"
  using assms unfolding system_inv_def by blast+

lemma path_snoc: "cluster_path c0 es c \<Longrightarrow> cluster_step c e c' \<Longrightarrow> cluster_path c0 (es @ [e]) c'"
  by (induction rule: cluster_path.induct) (auto intro: cluster_path.intros)

lemma with_simps [simp]:
  "sys_cluster (with_client cl s) = sys_cluster s" "sys_client (with_client cl s) = cl"
  "sys_calls (with_client cl s) = sys_calls s" "issued_writes (with_client cl s) = issued_writes s"
  "sys_cluster (with_cluster c s) = c" "sys_client (with_cluster c s) = sys_client s"
  "sys_calls (with_cluster c s) = sys_calls s" "issued_writes (with_cluster c s) = issued_writes s"
  by (simp_all add: with_client_def with_cluster_def)

lemma issued_as_same: "issued_writes s' = issued_writes s \<Longrightarrow> issued_as s' = issued_as s"
  by (simp add: issued_as_def fun_eq_iff)

lemma own_request_same: "issued_writes s' = issued_writes s \<Longrightarrow> own_request addr s' = own_request addr s"
  by (simp add: own_request_def issued_as_def fun_eq_iff)

lemma issued_as_snoc:
  "issued_writes s' = issued_writes s @ [(key, x)] \<Longrightarrow> issued_as s i k y \<Longrightarrow> issued_as s' i k y"
  by (auto simp: issued_as_def nth_append intro: less_SucI)

lemma issued_as_last:
  "issued_writes s' = issued_writes s @ [(key, x)] \<Longrightarrow> issued_as s' (1 + word_of_nat (length (issued_writes s))) key x"
  unfolding issued_as_def by (rule exI [of _ "length (issued_writes s)"]) simp

lemma own_request_snoc:
  "issued_writes s' = issued_writes s @ [(key, x)] \<Longrightarrow> own_request addr s req \<Longrightarrow> own_request addr s' req"
  unfolding own_request_def using issued_as_snoc by blast

text \<open>A change of the client that issues nothing and adds no pending write.\<close>

lemma system_inv_client:
  assumes inv: "system_inv hw m as addr es s" and next_id: "next_request_id cl = next_request_id (sys_client s)"
    and fewer: "\<And>i w. pending_writes cl i = Some w \<Longrightarrow> pending_writes (sys_client s) i = Some w"
  shows "system_inv hw m as addr es (with_client cl s)"
proof -
  note issued = issued_as_same [of "with_client cl s" s, simplified]
  note own = own_request_same [of "with_client cl s" s addr, simplified]
  show ?thesis
    unfolding system_inv_def issued own with_simps next_id
    using system_invD(1-3,5,6) [OF inv] system_invD(4) [OF inv fewer] by blast
qed

text \<open>Fewer calls.\<close>

lemma system_inv_calls:
  assumes inv: "system_inv hw m as addr es s" and calls: "set cs \<subseteq> set (sys_calls s)"
  shows "system_inv hw m as addr es (s\<lparr>sys_calls := cs\<rparr>)"
proof -
  note issued = issued_as_same [of "s\<lparr>sys_calls := cs\<rparr>" s, simplified]
  note own = own_request_same [of "s\<lparr>sys_calls := cs\<rparr>" s addr, simplified]
  have "own_request addr s req \<and> client_routes m as (Client_write b req)" if "(b, req) \<in> set cs" for b req
    by (rule system_invD(5) [OF inv]) (use that calls in blast)
  then show ?thesis
    unfolding system_inv_def issued own using system_invD(1-4,6) [OF inv] by auto
qed

text \<open>A step of the cluster; no call is added.\<close>

lemma system_inv_cluster:
  assumes inv: "system_inv hw m as addr es s" and step: "cluster_step (sys_cluster s) e (sys_cluster s')"
    and s': "sys_client s' = sys_client s" "set (sys_calls s') \<subseteq> set (sys_calls s)"
      "issued_writes s' = issued_writes s"
    and e: "client_routes m as e" "\<And>b req. e = Client_write b req \<Longrightarrow> wreq_client_addr req = addr \<Longrightarrow> own_request addr s req"
  shows "system_inv hw m as addr (es @ [e]) s'"
proof -
  have old: "own_request addr s req" if "Client_write b req \<in> set (es @ [e])" "wreq_client_addr req = addr" for b req
    using that system_invD(6) [OF inv] e(2) by auto
  have path: "cluster_path (deployed hw m False as) (es @ [e]) (sys_cluster s')"
    by (rule path_snoc [OF system_invD(1) [OF inv] step])
  have routes: "list_all (client_routes m as) (es @ [e])" using system_invD(2) [OF inv] e(1) by simp
  have calls: "own_request addr s req \<and> client_routes m as (Client_write b req)" if "(b, req) \<in> set (sys_calls s')" for b req
    using system_invD(5) [OF inv] s'(2) that by blast
  show ?thesis
    unfolding system_inv_def s'(1,3) issued_as_same [OF s'(3)] own_request_same [OF s'(3)]
    using path routes system_invD(3,4) [OF inv] calls old by blast
qed

subsection \<open>Every run keeps the invariant\<close>

lemma do_write_begin_some:
  assumes "do_write_begin topo key x addr now c = (Some (h, req), cl)"
  shows "resolve_write_target topo key = Some h" "req = write_request key x addr (next_request_id c)"
    "next_request_id cl = next_request_id c + 1"
    "pending_writes cl = (pending_writes c)
      (next_request_id c \<mapsto> \<lparr>pw_request_id = next_request_id c, pw_key = key, pw_value = x\<rparr>)"
  using assms
  by (auto simp: do_write_begin_def issue_write_def add_pending_def Let_def benchmark_note_write_issued_def
      with_metrics_def split: option.splits if_splits)

lemma system_inv_issue:
  assumes as: "valid_addrs as" and inv: "system_inv hw m as addr es s"
    and call: "do_write_begin (deployed_topology m as) key x addr now (sys_client s) = (Some (h, req), cl)"
    and s': "s' = (with_client cl s)\<lparr>
        sys_calls := sys_calls s @ [(ns_endpoint (topo_nodes (deployed_topology m as) ! h), req)],
        issued_writes := issued_writes s @ [(key, x)]\<rparr>"
  shows "system_inv hw m as addr es s'"
proof -
  note out = do_write_begin_some [OF call]
  have log: "issued_writes s' = issued_writes s @ [(key, x)]" by (simp add: s')
  have id: "next_request_id (sys_client s) = 1 + word_of_nat (length (issued_writes s))"
    by (rule system_invD(3) [OF inv])
  have new: "issued_as s' (next_request_id (sys_client s)) key x" unfolding id by (rule issued_as_last [OF log])
  have next_id: "next_request_id (sys_client s') = 1 + word_of_nat (length (issued_writes s'))"
    by (simp add: s' out(3) id)
  have pending: "issued_as s' i (pw_key w) (pw_value w)" if "pending_writes (sys_client s') i = Some w" for i w
  proof (cases "i = next_request_id (sys_client s)")
    case True
    then show ?thesis using new that by (auto simp: s' out(4))
  next
    case False
    then have "pending_writes (sys_client s) i = Some w" using that by (simp add: s' out(4))
    from issued_as_snoc [OF log system_invD(4) [OF inv this]] show ?thesis .
  qed
  have "own_request addr s' req" using new by (simp add: own_request_def out(2) write_request_def)
  moreover have "ns_endpoint (topo_nodes (deployed_topology m as) ! h) = head_of m as key"
    using routes_deployed(1) [OF as, of m key] out(1) by (simp add: pointer_endpoint_def)
  then have "client_routes m as (Client_write (ns_endpoint (topo_nodes (deployed_topology m as) ! h)) req)"
    by (simp add: client_routes_def routed_to_def out(2) write_request_def)
  ultimately have calls: "own_request addr s' r \<and> client_routes m as (Client_write b r)"
    if "(b, r) \<in> set (sys_calls s')" for b r
    using that system_invD(5) [OF inv] own_request_snoc [OF log] by (auto simp: s')
  have "sys_cluster s' = sys_cluster s" by (simp add: s')
  then show ?thesis
    unfolding system_inv_def
    using system_invD(1,2,6) [OF inv] next_id pending calls own_request_snoc [OF log] by auto
qed

lemma write_failed_frame:
  "next_request_id (write_failed i c) = next_request_id c"
  "pending_writes (write_failed i c) k = Some w \<Longrightarrow> pending_writes c k = Some w"
  by (auto simp: write_failed_def benchmark_note_write_rpc_failure_def with_metrics_def remove_pending_request_def
      split: option.splits if_splits)

lemma ack_take_frame:
  "next_request_id (ack_take i c) = next_request_id c"
  "pending_writes (ack_take i c) k = Some w \<Longrightarrow> pending_writes c k = Some w"
  by (auto simp: ack_take_def remove_pending_request_def split: if_splits)

lemma ack_note_frame:
  "next_request_id (ack_note i now c) = next_request_id c" "pending_writes (ack_note i now c) = pending_writes c"
  by (simp_all add: ack_note_def benchmark_note_write_ack_def with_metrics_def Let_def split: option.splits)

lemma system_inv_start: "system_inv hw m as addr [] (system_start hw m as)"
  unfolding system_inv_def system_start_def using path_nil by (simp add: Client_init_def)

lemma system_run_inv: "system_run hw m as addr es s \<Longrightarrow> valid_addrs as \<Longrightarrow> system_inv hw m as addr es s"
proof (induction rule: system_run.induct)
  case sys_start
  show ?case by (rule system_inv_start)
next
  case (sys_issue es s key x now h req cl)
  show ?case by (rule system_inv_issue [OF sys_issue.prems sys_issue.IH [OF sys_issue.prems] sys_issue.hyps(2) refl])
next
  case (sys_handle es s b req c)
  have inv: "system_inv hw m as addr es s" by (rule sys_handle.IH [OF sys_handle.prems])
  from system_invD(5) [OF inv sys_handle.hyps(2)] sys_handle.hyps(3)
    set_remove1_subset [of "(b, req)" "sys_calls s"]
  show ?case by (intro system_inv_cluster [OF inv]) auto
next
  case (sys_lose es s b req)
  have inv: "system_inv hw m as addr es s" by (rule sys_lose.IH [OF sys_lose.prems])
  show ?case by (rule system_inv_calls [OF inv set_remove1_subset])
next
  case (sys_fail es s i)
  have inv: "system_inv hw m as addr es s" by (rule sys_fail.IH [OF sys_fail.prems])
  show ?case by (rule system_inv_client [OF inv write_failed_frame])
next
  case (sys_other es s req b c)
  have inv: "system_inv hw m as addr es s" by (rule sys_other.IH [OF sys_other.prems])
  show ?case by (rule system_inv_cluster [OF inv]) (use sys_other.hyps in auto)
next
  case (sys_cluster_step es s e c)
  have inv: "system_inv hw m as addr es s" by (rule sys_cluster_step.IH [OF sys_cluster_step.prems])
  show ?case
    by (rule system_inv_cluster [OF inv])
      (use sys_cluster_step.hyps not_write_routed in auto)
next
  case (sys_ack es s a sv ack)
  have inv: "system_inv hw m as addr es s" by (rule sys_ack.IH [OF sys_ack.prems])
  show ?case by (rule system_inv_client [OF inv ack_take_frame])
next
  case (sys_note es s i now)
  have inv: "system_inv hw m as addr es s" by (rule sys_note.IH [OF sys_note.prems])
  show ?case by (rule system_inv_client [OF inv ack_note_frame(1)]) (simp add: ack_note_frame)
qed

subsection \<open>An ack is for the write the client has pending\<close>

lemma path_reach: "cluster_path c0 es c \<Longrightarrow> list_all allowed es \<Longrightarrow> cluster_reach allowed c0 c"
proof -
  have "cluster_path c es c' \<Longrightarrow> list_all allowed es \<Longrightarrow> cluster_reach allowed c0 c \<Longrightarrow> cluster_reach allowed c0 c'" for c c'
    by (induction rule: cluster_path.induct) (auto intro: reach_step)
  then show "cluster_path c0 es c \<Longrightarrow> list_all allowed es \<Longrightarrow> cluster_reach allowed c0 c" using reach_start by blast
qed

text \<open>While the 64-bit ids have not come round, an id names one request.\<close>

lemma issued_as_unique:
  assumes "length (issued_writes s) < 2 ^ 64" "issued_as s i k x" "issued_as s i k' x'"
  shows "k = k' \<and> x = x'"
proof -
  obtain j j' where j: "j < length (issued_writes s)" "j' < length (issued_writes s)"
    "(word_of_nat j :: u64) = word_of_nat j'" "issued_writes s ! j = (k, x)" "issued_writes s ! j' = (k', x')"
    using assms(2,3) by (auto simp: issued_as_def)
  have "unat (word_of_nat j :: u64) = unat (word_of_nat j' :: u64)" using j(3) by simp
  then have "j = j'" using j(1,2) assms(1) by (simp add: unat_of_nat_u64)
  then show ?thesis using j(4,5) by simp
qed

text \<open>The request an ack of the client is for, among those that were served.\<close>

definition own_acks :: "string \<Rightarrow> System \<Rightarrow> served \<Rightarrow> bool" where
  "own_acks addr s served \<longleftrightarrow>
     (\<forall>a sv ack. servers (sys_cluster s) a = Some sv \<longrightarrow> (addr, ack) \<in> set (ack_log sv) \<longrightarrow>
        (\<exists>req v. (req, v) \<in> set served \<and> own_request addr s req \<and>
           ack = make_ack (wreq_key req) v addr (wreq_request_id req)))"

lemma own_ack_served:
  assumes "system_run hw m as addr es s" "valid_addrs as"
  obtains served where "served_by es (sys_cluster s) served" "own_acks addr s served"
proof -
  note inv = system_run_inv [OF assms]
  have "provenance es (sys_cluster s)"
    using provenance_path [OF system_invD(1) [OF inv] deployed_provenance [OF assms(2)] deployed_fixed [OF assms(2)]]
    by simp
  then obtain served where served: "served_by es (sys_cluster s) served" "stems_from served (sys_cluster s)"
    by (auto simp: provenance_def)
  have "own_acks addr s served"
    unfolding own_acks_def
  proof (intro allI impI)
    fix a sv ack assume "servers (sys_cluster s) a = Some sv" "(addr, ack) \<in> set (ack_log sv)"
    from stems_fromD(2) [OF served(2) this] obtain req v where req: "(req, v) \<in> set served"
      "addr = wreq_client_addr req"
      "ack = make_ack (wreq_key req) v (wreq_client_addr req) (wreq_request_id req)"
      by (auto simp: acks_write_def)
    then show "\<exists>req v. (req, v) \<in> set served \<and> own_request addr s req \<and>
        ack = make_ack (wreq_key req) v addr (wreq_request_id req)"
      using system_invD(6) [OF inv] served_mem(1) [OF served(1) req(1)] by blast
  qed
  with served(1) show thesis by (rule that)
qed

text \<open>The ack names the request the client issued, and the version its value was accepted under.\<close>

lemma own_ack:
  assumes "system_run hw m as addr es s" "valid_addrs as" "length (issued_writes s) < 2 ^ 64"
    and "pending_writes (sys_client s) (ack_request_id ack) = Some w"
    and "servers (sys_cluster s) a = Some sv" "(addr, ack) \<in> set (ack_log sv)"
  shows "ack_key ack = pw_key w \<and> (pw_key w, ack_version ack, pw_value w) \<in> set (accepted (sys_cluster s))"
proof -
  obtain served where served: "served_by es (sys_cluster s) served" "own_acks addr s served"
    by (rule own_ack_served [OF assms(1,2)])
  obtain req v where req: "(req, v) \<in> set served" "own_request addr s req"
    "ack = make_ack (wreq_key req) v addr (wreq_request_id req)" using served(2) assms(5,6) unfolding own_acks_def by blast
  have fields: "ack_key ack = wreq_key req" "ack_version ack = v" "ack_request_id ack = wreq_request_id req"
    unfolding req(3) by (simp_all add: make_ack_def)
  have "issued_as s (wreq_request_id req) (wreq_key req) (wreq_value req)"
    using req(2) by (simp add: own_request_def)
  moreover have "issued_as s (wreq_request_id req) (pw_key w) (pw_value w)"
    using system_invD(4) [OF system_run_inv [OF assms(1,2)] assms(4)] fields(3) by simp
  ultimately have "wreq_key req = pw_key w \<and> wreq_value req = pw_value w" by (rule issued_as_unique [OF assms(3)])
  then show ?thesis using served_mem(2) [OF served(1) req(1)] fields by simp
qed

subsection \<open>A request is served at most once\<close>

text \<open>The ids of the client's requests that were handled or are in flight.\<close>

definition own_ids :: "string \<Rightarrow> cluster_event list \<Rightarrow> System \<Rightarrow> u64 list" where
  "own_ids addr es s =
     map wreq_request_id (filter (\<lambda>req. wreq_client_addr req = addr) (writes_of es) @ map snd (sys_calls s))"

lemma own_ids_issued:
  assumes "system_inv hw m as addr es s"
  shows "set (own_ids addr es s) \<subseteq> (\<lambda>j. 1 + word_of_nat j) ` {..<length (issued_writes s)}"
proof
  fix i assume "i \<in> set (own_ids addr es s)"
  then have "\<exists>req. i = wreq_request_id req \<and>
      (req \<in> set (writes_of es) \<and> wreq_client_addr req = addr \<or> (\<exists>b. (b, req) \<in> set (sys_calls s)))"
    unfolding own_ids_def by force
  then obtain req where i: "i = wreq_request_id req"
    and req: "(req \<in> set (writes_of es) \<and> wreq_client_addr req = addr) \<or> (\<exists>b. (b, req) \<in> set (sys_calls s))"
    by blast
  from req have "own_request addr s req"
  proof (elim disjE conjE exE)
    assume mem: "req \<in> set (writes_of es)" and addr: "wreq_client_addr req = addr"
    obtain b where "Client_write b req \<in> set es" using writes_of_mem [OF mem] by blast
    from system_invD(6) [OF assms this addr] show ?thesis .
  next
    fix b assume "(b, req) \<in> set (sys_calls s)"
    from system_invD(5) [OF assms this] show ?thesis by simp
  qed
  then obtain j where "j < length (issued_writes s)" "i = 1 + word_of_nat j"
    unfolding own_request_def issued_as_def i by blast
  then show "i \<in> (\<lambda>j. 1 + word_of_nat j) ` {..<length (issued_writes s)}"
    by (intro image_eqI) simp_all
qed

lemma mset_map_remove1:
  "(b, x) \<in> set xs \<Longrightarrow> mset (map snd xs) = add_mset x (mset (map snd (remove1 (b, x) xs)))"
  by (induction xs) auto

lemma own_ids_remove:
  assumes "(b, req) \<in> set (sys_calls s)" "sys_calls s' = remove1 (b, req) (sys_calls s)"
  shows "mset (own_ids addr es s) = add_mset (wreq_request_id req) (mset (own_ids addr es s'))"
proof -
  have "mset (map snd (sys_calls s)) = add_mset req (mset (map snd (remove1 (b, req) (sys_calls s))))"
    by (rule mset_map_remove1 [OF assms(1)])
  then show ?thesis using assms(2) by (simp only: own_ids_def map_append mset_append mset_map) simp
qed

lemma own_ids_event:
  "wreq_client_addr req = addr \<Longrightarrow>
    mset (own_ids addr (es @ [Client_write b req]) s) = add_mset (wreq_request_id req) (mset (own_ids addr es s))"
  by (simp add: own_ids_def)

lemma distinct_mset_tail: "mset xs = add_mset x (mset ys) \<Longrightarrow> distinct xs \<Longrightarrow> distinct ys"
  by (metis distinct.simps(2) mset.simps(2) mset_eq_imp_distinct_iff)

lemma own_ids_distinct:
  "system_run hw m as addr es s \<Longrightarrow> valid_addrs as \<Longrightarrow> length (issued_writes s) < 2 ^ 64 \<Longrightarrow>
    distinct (own_ids addr es s)"
proof (induction rule: system_run.induct)
  case sys_start
  show ?case by (simp add: own_ids_def system_start_def)
next
  case (sys_issue es s key x now h req cl)
  let ?i = "next_request_id (sys_client s)"
  have len: "length (issued_writes s) < 2 ^ 64" using sys_issue.prems by simp
  have inv: "system_inv hw m as addr es s" by (rule system_run_inv [OF sys_issue.hyps(1) sys_issue.prems(1)])
  have "?i \<notin> set (own_ids addr es s)"
    using fresh_request_id [OF len, of 1] own_ids_issued [OF inv] system_invD(3) [OF inv] by auto
  then show ?case
    using sys_issue.IH [OF sys_issue.prems(1) len] do_write_begin_some(2) [OF sys_issue.hyps(2)]
    by (auto simp: own_ids_def write_request_def)
next
  case (sys_handle es s b req c)
  let ?s = "(with_cluster c s)\<lparr>sys_calls := remove1 (b, req) (sys_calls s)\<rparr>"
  have addr: "wreq_client_addr req = addr"
    using system_invD(5) [OF system_run_inv [OF sys_handle.hyps(1) sys_handle.prems(1)] sys_handle.hyps(2)]
    by (simp add: own_request_def)
  have "mset (own_ids addr (es @ [Client_write b req]) ?s) = mset (own_ids addr es s)"
    using own_ids_event [OF addr, of es b ?s] own_ids_remove [OF sys_handle.hyps(2), of ?s addr es] by simp
  then show ?case
    using sys_handle.IH sys_handle.prems mset_eq_imp_distinct_iff by auto
next
  case (sys_lose es s b req)
  show ?case
  proof (cases "(b, req) \<in> set (sys_calls s)")
    case True
    then show ?thesis
      using distinct_mset_tail [OF own_ids_remove [OF True]] sys_lose.IH sys_lose.prems by simp
  next
    case False
    then show ?thesis using sys_lose.IH sys_lose.prems by (simp add: remove1_idem own_ids_def)
  qed
next
  case (sys_cluster_step es s e c)
  then show ?case by (cases e) (simp_all add: own_ids_def)
qed (simp_all add: own_ids_def)

lemma subseq_distinct: "subseq xs ys \<Longrightarrow> distinct ys \<Longrightarrow> distinct xs"
  by (induction rule: list_emb.induct) (auto elim: list_emb_set)

lemma served_once:
  assumes "served_by es c served" "distinct (map wreq_request_id (filter P (writes_of es)))"
    and "(req, v) \<in> set served" "(req', v') \<in> set served" "P req" "P req'"
    and "wreq_request_id req = wreq_request_id req'"
  shows "req = req' \<and> v = v'"
proof -
  have "subseq (map wreq_request_id (filter P (map fst served))) (map wreq_request_id (filter P (writes_of es)))"
    using assms(1) unfolding served_by_def by (blast intro: subseq_map subseq_filter)
  then have "distinct (map wreq_request_id (filter P (map fst served)))"
    using assms(2) by (rule subseq_distinct)
  then have "distinct (map (\<lambda>x. wreq_request_id (fst x)) (filter (\<lambda>x. P (fst x)) served))"
    by (simp add: filter_map o_def)
  then have "inj_on (\<lambda>x. wreq_request_id (fst x)) (set (filter (\<lambda>x. P (fst x)) served))"
    by (simp only: distinct_map)
  from inj_onD [OF this, of "(req, v)" "(req', v')"] show ?thesis using assms(3-7) by simp
qed

subsection \<open>The sample write, from the client\<close>

lemma system_run_cluster:
  "cluster_reach (\<lambda>e. \<not> is_write e) c c' \<Longrightarrow> system_run hw m as addr es s \<Longrightarrow> sys_cluster s = c \<Longrightarrow>
    \<exists>es'. system_run hw m as addr es' (with_cluster c' s)"
proof (induction rule: cluster_reach.induct)
  case reach_start
  from reach_start(2) have "with_cluster c s = s" by (simp add: with_cluster_def)
  with reach_start(1) have "system_run hw m as addr es (with_cluster c s)" by simp
  then show ?case by blast
next
  case (reach_step c1 e c2)
  then obtain es' where run: "system_run hw m as addr es' (with_cluster c1 s)" by blast
  have "system_run hw m as addr (es' @ [e]) (with_cluster c2 (with_cluster c1 s))"
    by (rule sys_cluster_step [OF run reach_step(3)]) (simp add: reach_step(2))
  moreover have "with_cluster c2 (with_cluster c1 s) = with_cluster c2 s" by (simp add: with_cluster_def)
  ultimately show ?case by auto
qed

lemma do_write_begin_deployed:
  assumes "valid_addrs as"
  obtains h cl where
    "do_write_begin (deployed_topology m as) key x addr now c = (Some (h, write_request key x addr (next_request_id c)), cl)"
    "ns_endpoint (topo_nodes (deployed_topology m as) ! h) = head_of m as key"
proof -
  obtain h where h: "resolve_write_target (deployed_topology m as) key = Some h"
    "ns_endpoint (topo_nodes (deployed_topology m as) ! h) = head_of m as key"
    using routes_deployed(1) [OF assms, of m key] by (auto simp: pointer_endpoint_def)
  obtain cl where "do_write_begin (deployed_topology m as) key x addr now c
    = (Some (h, write_request key x addr (next_request_id c)), cl)"
    using h(1) by (auto simp: do_write_begin_def issue_write_def add_pending_def Let_def split: prod.splits)
  then show thesis using h(2) that by blast
qed

definition sample_pending :: PendingWrite where
  "sample_pending = \<lparr>pw_request_id = 1, pw_key = ''k'', pw_value = ''v''\<rparr>"

lemma sample_system:
  obtains es s where "system_run 2 m sample_addrs ''c:1'' es s" "sys_cluster s = sample_cluster m"
    "issued_writes s = [(''k'', ''v'')]" "pending_writes (sys_client s) 1 = Some sample_pending"
proof -
  let ?head = "head_of m sample_addrs ''k''" and ?req = "sample_write ''v''" and ?s0 = "system_start 2 m sample_addrs"
  have init: "next_request_id (sys_client ?s0) = 1" "sys_calls ?s0 = []" "issued_writes ?s0 = []"
    "sys_cluster ?s0 = deployed 2 m False sample_addrs" by (simp_all add: system_start_def Client_init_def)
  obtain h cl where call: "do_write_begin (deployed_topology m sample_addrs) ''k'' ''v'' ''c:1'' 0 (sys_client ?s0)
      = (Some (h, ?req), cl)" "ns_endpoint (topo_nodes (deployed_topology m sample_addrs) ! h) = ?head"
    using do_write_begin_deployed [OF sample_valid, of m "''k''" "''v''" "''c:1''" 0 "sys_client ?s0"]
    unfolding init(1) by (auto simp: write_request_def sample_write_def)
  define s1 where "s1 = (with_client cl ?s0)\<lparr>sys_calls := [(?head, ?req)], issued_writes := [(''k'', ''v'')]\<rparr>"
  have run1: "system_run 2 m sample_addrs ''c:1'' [] s1"
    using sys_issue [OF sys_start call(1)] unfolding call(2) init s1_def by simp
  obtain c1 where c1: "exec_event (Client_write ?head ?req) (deployed 2 m False sample_addrs) = Some c1"
    "pass_along m (map (position m sample_addrs ''k'') [0..<2]) c1 = Some (sample_cluster m)"
    using sample_facts(1) [of m] by (auto simp: sample_run_def split: option.splits)
  define s2 where "s2 = (with_cluster c1 s1)\<lparr>sys_calls := remove1 (?head, ?req) (sys_calls s1)\<rparr>"
  have "sys_cluster s1 = deployed 2 m False sample_addrs" "(?head, ?req) \<in> set (sys_calls s1)"
    by (simp_all add: s1_def init)
  then have run2: "system_run 2 m sample_addrs ''c:1'' [Client_write ?head ?req] s2"
    using sys_handle [OF run1] exec_event_step [OF c1(1)] unfolding s2_def by fastforce
  have "cluster_reach (\<lambda>e. \<not> is_write e) c1 (sample_cluster m)"
    by (rule pass_along_reach [OF _ _ c1(2) reach_start]) simp_all
  from system_run_cluster [OF this run2] obtain es
    where run: "system_run 2 m sample_addrs ''c:1'' es (with_cluster (sample_cluster m) s2)" by (auto simp: s2_def)
  have "pending_writes cl 1 = Some sample_pending"
    using do_write_begin_some(4) [OF call(1)] unfolding init(1) by (simp add: sample_pending_def)
  then show thesis by (intro that [OF run]) (simp_all add: s2_def s1_def)
qed

text \<open>
  C12. From the client to the last replica: in every run of a client and its cluster, an ack that
  finds its request pending is for the key the client wrote, the value it wrote was accepted
  under the version the ack names, and every node of the chain has seen that version or a newer one.
\<close>

theorem ack_for_pending_write:
  assumes "system_run hw m as addr es s" "valid_addrs as" "length (issued_writes s) < 2 ^ 64"
    and "length (accepted (sys_cluster s)) + 1 < 2 ^ 64"
    and "pending_writes (sys_client s) (ack_request_id ack) = Some w"
    and "servers (sys_cluster s) a = Some sv" "(addr, ack) \<in> set (ack_log sv)" "j < length as"
  shows "ack_key ack = pw_key w \<and>
    (pw_key w, ack_version ack, pw_value w) \<in> set (accepted (sys_cluster s)) \<and>
    ack_version ack \<le> latest_seen_version (key_at (sys_cluster s) (position m as (pw_key w) j) (pw_key w))"
proof -
  note inv = system_run_inv [OF assms(1,2)]
  have own: "ack_key ack = pw_key w \<and> (pw_key w, ack_version ack, pw_value w) \<in> set (accepted (sys_cluster s))"
    by (rule own_ack [OF assms(1-3,5-7)])
  obtain p where p: "pl_inv (length as) p"
    "cluster_sim (length as) m (position m as (pw_key w)) (pw_key w) (origin_text m as (pw_key w)) p (sys_cluster s)"
    by (rule deployed_refines [OF assms(2) path_reach [OF system_invD(1,2) [OF inv]] assms(4)])
  then have "a \<in> position m as (pw_key w) ` {..<length as}"
    using assms(6) by (auto simp: cluster_sim_def)
  then obtain i where i: "i < length as" "a = position m as (pw_key w) i" by auto
  have "ack_version ack \<le> latest_seen_version (key_at (sys_cluster s) (position m as (pw_key w) j) (pw_key w))"
    by (rule replication_chain.sim_acknowledged(2) [OF replication_chain_deployed [OF assms(2)] p(2,1) i(1)
        assms(6) [unfolded i(2)] assms(7) _ assms(8)]) (simp add: own)
  with own show ?thesis by simp
qed

theorem ack_for_pending_write_witness:
  "ack_key sample_ack = pw_key sample_pending \<and>
    (pw_key sample_pending, ack_version sample_ack, pw_value sample_pending) \<in> set (accepted (sample_cluster CROWN)) \<and>
    ack_version sample_ack \<le> latest_seen_version (key_at (sample_cluster CROWN)
      (position CROWN sample_addrs (pw_key sample_pending) 1) (pw_key sample_pending))"
proof -
  obtain es s where s: "system_run 2 CROWN sample_addrs ''c:1'' es s" "sys_cluster s = sample_cluster CROWN"
    "issued_writes s = [(''k'', ''v'')]" "pending_writes (sys_client s) 1 = Some sample_pending"
    by (rule sample_system)
  note tail = sample_facts(2) [of CROWN, folded s(2)]
  have ack: "(''c:1'', sample_ack) \<in> set (ack_log (sample_tail CROWN))" by (simp add: sample_facts)
  show ?thesis
    unfolding s(2) [symmetric]
  proof (rule ack_for_pending_write [OF s(1) sample_valid _ _ _ tail ack])
    show "pending_writes (sys_client s) (ack_request_id sample_ack) = Some sample_pending"
      using s(4) by (simp add: sample_ack_def)
  qed (simp_all add: s(2,3) sample_facts sample_addrs_def)
qed

text \<open>
  C13. A request is applied at most once: all the acks that tails ever send a client for one
  request id are the same ack, of one key and one version.
\<close>

theorem one_version_per_request:
  assumes "system_run hw m as addr es s" "valid_addrs as" "length (issued_writes s) < 2 ^ 64"
    and "servers (sys_cluster s) a = Some sv" "(addr, ack) \<in> set (ack_log sv)"
    and "servers (sys_cluster s) b = Some sv'" "(addr, ack') \<in> set (ack_log sv')"
    and "ack_request_id ack = ack_request_id ack'"
  shows "ack = ack'"
proof -
  obtain served where served: "served_by es (sys_cluster s) served" "own_acks addr s served"
    by (rule own_ack_served [OF assms(1,2)])
  obtain req v req' v' where req: "(req, v) \<in> set served" "own_request addr s req"
      "ack = make_ack (wreq_key req) v addr (wreq_request_id req)"
    and req': "(req', v') \<in> set served" "own_request addr s req'"
      "ack' = make_ack (wreq_key req') v' addr (wreq_request_id req')"
    using served(2) assms(4-7) unfolding own_acks_def by meson
  have "distinct (map wreq_request_id (filter (\<lambda>req. wreq_client_addr req = addr) (writes_of es)))"
    using own_ids_distinct [OF assms(1-3)] by (simp add: own_ids_def)
  from served_once [OF served(1) this req(1) req'(1)] have "req = req' \<and> v = v'"
    using req(2,3) req'(2,3) assms(8) by (simp add: own_request_def make_ack_def)
  then show ?thesis using req(3) req'(3) by simp
qed

theorem one_version_per_request_witness:
  "{ack. \<exists>a sv. servers (sample_cluster CROWN) a = Some sv \<and> (''c:1'', ack) \<in> set (ack_log sv) \<and>
      ack_request_id ack = 1} = {sample_ack}"
proof -
  obtain es s where s: "system_run 2 CROWN sample_addrs ''c:1'' es s" "sys_cluster s = sample_cluster CROWN"
    "issued_writes s = [(''k'', ''v'')]" by (rule sample_system)
  have len: "length (issued_writes s) < 2 ^ 64" by (simp add: s(3))
  have id: "ack_request_id sample_ack = 1" by (simp add: sample_ack_def)
  note tail = sample_facts(2) [of CROWN, folded s(2)]
  have ack: "(''c:1'', sample_ack) \<in> set (ack_log (sample_tail CROWN))" by (simp add: sample_facts)
  have "ack' = sample_ack" if "servers (sys_cluster s) a = Some sv" "(''c:1'', ack') \<in> set (ack_log sv)"
    "ack_request_id ack' = 1" for a sv ack'
    by (rule one_version_per_request [OF s(1) sample_valid len that(1,2) tail ack]) (simp add: that(3) id)
  then show ?thesis using tail ack id unfolding s(2) by blast
qed

end
