(* ===== verification/Craq_Reads.thy ===== *)
theory Craq_Reads
  imports Cluster_Run
begin

section \<open>CRAQ reads while the cluster goes on\<close>

text \<open>
  A CRAQ read takes the store's lock up to three times and asks the tail in between; writes,
  propagates and acks are handled at the node and at the tail meanwhile. \<open>craq_read_run\<close> interleaves
  the steps of one read with the steps of the cluster.

  The version query is a call over the network: it is answered by the cluster as it is then, or it
  fails with any status, as every call may, when the run is one that allows it.

  Shown: an answer is the version and the value the tail had committed at some moment during the
  read; an error means that the version query failed, that the tail had committed nothing at such a
  moment, or that the node has since cleaned a version newer than the one the tail reported.
\<close>

subsection \<open>A version a node holds stays there until a newer one is clean\<close>

lemma held_write: "held v (kstate r k) \<Longrightarrow> held v (kstate (snd (craq_handle_write rpc req node r)) k)"
  by (cases "Node_is_head node")
    (auto simp: craq_write_reject craq_write_store deliver_versioned_def Let_def intro!: held_ops)

lemma held_propagate: "held v (kstate r k) \<Longrightarrow> held v (kstate (snd (craq_handle_propagate rpc req node r)) k)"
  by (auto simp: craq_propagate_store deliver_versioned_def intro!: held_ops)

lemma held_ack: "held v (kstate r k) \<Longrightarrow> held v (kstate (snd (craq_handle_ack req node r)) k)"
  by (auto simp: craq_ack_store intro!: held_ops)

lemma cluster_step_held:
  assumes "cluster_step c e c'" "servers c b = Some sv" "the_strategy sv = Some (CRAQ, s)"
    and "held v (key_at c b key)"
  shows "held v (key_at c' b key)"
proof -
  have start: "held v KeyState_default \<Longrightarrow> held v ks" for ks by (simp add: held_def KeyState_default_def)
  have "held v (key_at c b key) \<longrightarrow> held v (key_at c' b key)"
  proof (rule cluster_step_key [where R = "\<lambda>x y. held v x \<longrightarrow> held v y", OF assms(1)])
    fix sv' m s' assume sv': "servers c b = Some sv'" "the_strategy sv' = Some (m, s')"
    then have m: "m = CRAQ" using assms(2,3) by simp
    show "\<exists>s''. the_strategy sv'' = Some (m, s'') \<and>
        (held v (key_state (by_key s') key) \<longrightarrow> held v (key_state (by_key s'') key))"
      if rpc: "rpc_Write rpc req sv' = (res, sv'')" for rpc req res sv''
    proof -
      obtain st resp where "res = (st, resp)" by fastforce
      then show ?thesis
        using rpc_Write_strategy(1) [OF sv'(2) _ refl, of rpc req] rpc held_write [of v "replica_of sv' (CRAQ, s')" key]
        by (simp add: m strategy_handle_write_def)
    qed
    show "\<exists>s''. the_strategy sv'' = Some (m, s'') \<and>
        (held v (key_state (by_key s') key) \<longrightarrow> held v (key_state (by_key s'') key))"
      if rpc: "rpc_Propagate rpc req sv' = (res, sv'')" for rpc req res sv''
      using rpc_Propagate_strategy [OF sv'(2) rpc] held_propagate [of v "replica_of sv' (CRAQ, s')" key]
      by (simp add: m strategy_handle_propagate_def)
    show "\<exists>s''. the_strategy sv'' = Some (m, s'') \<and>
        (held v (key_state (by_key s') key) \<longrightarrow> held v (key_state (by_key s'') key))"
      if rpc: "rpc_Ack req sv' = (res, sv'')" for req res sv''
      using rpc_Ack_strategy [OF sv'(2) rpc] held_ack [of v "replica_of sv' (CRAQ, s')" key]
      by (simp add: m strategy_handle_ack_def)
  qed (use start in auto)
  then show ?thesis using assms(4) by simp
qed

subsection \<open>A read and its phases\<close>

text \<open>
  A call of \<open>rpc'\<close> is answered as \<open>rpc\<close> answers it or, where \<open>lossy\<close>, returns some status that is not
  OK (\<open>UNAVAILABLE\<close>, a deadline, the \<open>INTERNAL\<close> of a node whose own call failed).
\<close>

definition query_rpc :: "bool \<Rightarrow> Rpc \<Rightarrow> Rpc \<Rightarrow> bool" where
  "query_rpc lossy rpc rpc' \<longleftrightarrow>
     (\<forall>b req. version_query_call rpc' b req = version_query_call rpc b req \<or>
        lossy \<and> \<not> Status_ok (fst (version_query_call rpc' b req)))"

text \<open>
  A run of one read for \<open>key\<close> at the node \<open>a\<close>, begun in the cluster \<open>c0\<close>. A version query passes
  at most \<open>hops\<close> nodes and is answered from the cluster as it is then; in a \<open>lossy\<close> run it may fail.
\<close>

inductive craq_read_run ::
    "bool \<Rightarrow> (cluster_event \<Rightarrow> bool) \<Rightarrow> nat \<Rightarrow> stub \<Rightarrow> string \<Rightarrow> Cluster \<Rightarrow> Cluster \<Rightarrow> craq_read \<Rightarrow> bool"
  for lossy :: bool and allowed :: "cluster_event \<Rightarrow> bool" and hops :: nat and a :: stub and key :: string
    and c0 :: Cluster where
  read_begins: "craq_read_run lossy allowed hops a key c0 c0 Read_begun"
| cluster_moves: "craq_read_run lossy allowed hops a key c0 c ph \<Longrightarrow> cluster_step c e c' \<Longrightarrow> allowed e \<Longrightarrow>
    craq_read_run lossy allowed hops a key c0 c' ph"
| read_moves: "craq_read_run lossy allowed hops a key c0 c ph \<Longrightarrow> servers c a = Some sv \<Longrightarrow>
    the_strategy sv = Some (CRAQ, s) \<Longrightarrow> query_rpc lossy (cluster_rpc hops c) rpc \<Longrightarrow>
    craq_read_run lossy allowed hops a key c0 c
      (craq_read_step rpc key (the_node sv) (replica_of sv (CRAQ, s)) ph)"

lemma read_run_reach: "craq_read_run lossy allowed hops a key c0 c ph \<Longrightarrow> cluster_reach allowed c0 c"
  by (induction rule: craq_read_run.induct) (auto intro: cluster_reach.intros)

lemma query_rpc_same [simp]: "query_rpc lossy rpc rpc"
  by (simp add: query_rpc_def)

text \<open>The three ways a read ends in an error, by the text of the exception.\<close>

definition query_failed :: "cxx_exn \<Rightarrow> bool" where
  "query_failed e \<longleftrightarrow> (\<exists>msg. e = Runtime_error (''CRAQ version query failed: '' @ msg))"

definition not_committed :: "cxx_exn list" where
  "not_committed = map Runtime_error
     [''CRAQ read failed: key not found or not committed'', ''CRAQ read failed: key not found'',
      ''CRAQ read failed: key not committed at tail'']"

definition not_materialized :: cxx_exn where
  "not_materialized = Runtime_error ''CRAQ read failed: local node cannot materialize tail-committed version''"

lemma version_query_outcome:
  assumes "query_rpc lossy rpc rpc'" "craq_handle_version_query rpc req node r = Inr resp"
  shows "craq_handle_version_query rpc' req node r = Inr resp \<or>
    lossy \<and> (\<exists>e. query_failed e \<and> craq_handle_version_query rpc' req node r = Inl e)"
proof -
  have calls: "version_query_call rpc' b req = version_query_call rpc b req \<or>
      lossy \<and> \<not> Status_ok (fst (version_query_call rpc' b req))" for b
    using assms(1) by (simp add: query_rpc_def)
  note defs = craq_handle_version_query_def query_failed_def split_beta
  show ?thesis
  proof (cases "tail_stub (support r)")
    case None
    then show ?thesis
      using assms(2) calls [of "the (successor_stub (support r))"]
      by (auto simp: defs split: option.splits if_splits)
  next
    case (Some b)
    then show ?thesis using assms(2) calls [of b] by (auto simp: defs split: if_splits)
  qed
qed

text \<open>At some moment since \<open>c0\<close> the tail had committed \<open>v\<close>, with the value \<open>x\<close> unless \<open>v\<close> is 0.\<close>

definition tail_had ::
    "pb_NodeAddress list \<Rightarrow> string \<Rightarrow> Cluster \<Rightarrow> Cluster \<Rightarrow> u64 \<Rightarrow> string \<Rightarrow> bool" where
  "tail_had as k c0 c v x \<longleftrightarrow>
     (\<exists>c1. cluster_reach (client_routes CRAQ as) c0 c1 \<and> cluster_reach (client_routes CRAQ as) c1 c \<and>
        committed_version (key_at c1 (tail_of CRAQ as k) k) = v \<and>
        (v \<noteq> 0 \<longrightarrow> committed_value (key_at c1 (tail_of CRAQ as k) k) = x))"

lemma tail_had_step:
  assumes "tail_had as k c0 c v x" "cluster_step c e c'" "client_routes CRAQ as e"
  shows "tail_had as k c0 c' v x"
  using assms unfolding tail_had_def by (blast intro: reach_step)

lemma tail_had_none: "tail_had as k c0 c 0 x \<Longrightarrow> tail_had as k c0 c 0 y"
  by (simp add: tail_had_def)

lemma tail_has:
  assumes "cluster_reach (client_routes CRAQ as) c0 c"
    and "committed_version (key_at c (tail_of CRAQ as k) k) = v"
    and "v \<noteq> 0 \<Longrightarrow> committed_value (key_at c (tail_of CRAQ as k) k) = x"
  shows "tail_had as k c0 c v x"
  unfolding tail_had_def using assms reach_start by blast

text \<open>What the refinement says about the node and the tail in one reachable cluster.\<close>

definition node_vs_tail :: "Cluster \<Rightarrow> string \<Rightarrow> stub \<Rightarrow> stub \<Rightarrow> bool" where
  "node_vs_tail c k a b \<longleftrightarrow>
     (let ks = key_at c a k; kt = key_at c b k
      in (latest_seen_version ks \<le> committed_version ks \<longrightarrow> committed_version ks = committed_version kt) \<and>
         committed_version kt \<le> latest_seen_version ks \<and> committed_version ks \<le> committed_version kt \<and>
         held (committed_version kt) ks \<and>
         (committed_version ks \<noteq> 0 \<longrightarrow> (k, committed_version ks, committed_value ks) \<in> set (accepted c)) \<and>
         (committed_version kt \<noteq> 0 \<longrightarrow> (k, committed_version kt, committed_value kt) \<in> set (accepted c)) \<and>
         (\<forall>v x. pending_versions ks v = Some x \<longrightarrow> (k, v, x) \<in> set (accepted c)) \<and>
         (\<forall>v x y. (k, v, x) \<in> set (accepted c) \<longrightarrow> (k, v, y) \<in> set (accepted c) \<longrightarrow> x = y))"

lemma craq_node_facts:
  assumes as: "valid_addrs as" and reach: "cluster_reach (client_routes CRAQ as) (deployed hw CRAQ direct as) c"
    and len: "length (accepted c) + 1 < 2 ^ 64" and j: "j < length as"
  shows "node_vs_tail c k (position CRAQ as k j) (tail_of CRAQ as k)"
proof -
  obtain p where inv: "pl_inv (length as) p"
    and sim: "cluster_sim (length as) CRAQ (position CRAQ as k) k (origin_text CRAQ as k) p c"
    by (rule deployed_refines [OF as reach len])
  have n: "length as - 1 < length as" "j \<le> length as - 1" using j by linarith+
  note ch = replication_chain_deployed [OF as, of CRAQ k hw direct]
  note vs = craq_node_vs_tail [OF as sim inv j]
  note vals = replication_chain.sim_values [OF ch sim]
  note vers = replication_chain.sim_versions [OF ch sim inv, folded tail_of_def]
  let ?ks = "key_at c (position CRAQ as k j) k" and ?kt = "key_at c (tail_of CRAQ as k) k"
  have "latest_seen_version ?kt \<le> latest_seen_version ?ks"
    using vers(1) [OF n(2,1)] by (simp add: tail_of_def)
  then have "committed_version ?kt \<le> latest_seen_version ?ks" using vers(2) by simp
  moreover have "held (committed_version ?kt) ?ks"
    using vs(2) by (cases "committed_version ?kt = 0") (auto simp: held_def)
  ultimately show ?thesis
    unfolding node_vs_tail_def Let_def
    using vs(1) vers(3) [OF j] vals(1) [OF j] vals(1) [OF n(1), folded tail_of_def] vals(3) [OF j]
      replication_chain.sim_accepted_unique [OF ch sim] by blast
qed

subsection \<open>What each phase knows\<close>

definition clean_known :: "Cluster \<Rightarrow> string \<Rightarrow> stub \<Rightarrow> LatestReplicaValue \<Rightarrow> bool" where
  "clean_known c k a cl \<longleftrightarrow> (found cl \<longrightarrow> val_version cl \<noteq> 0 \<and>
     val_version cl \<le> committed_version (key_at c a k) \<and> (k, val_version cl, val_text cl) \<in> set (accepted c))"

fun read_knows ::
    "bool \<Rightarrow> pb_NodeAddress list \<Rightarrow> string \<Rightarrow> stub \<Rightarrow> Cluster \<Rightarrow> Cluster \<Rightarrow> craq_read \<Rightarrow> bool" where
  "read_knows lossy as k a c0 c Read_begun = True"
| "read_knows lossy as k a c0 c (Clean_known cl) =
     (clean_known c k a cl \<and>
      (a = tail_of CRAQ as k \<longrightarrow> tail_had as k c0 c (if found cl then val_version cl else 0) (val_text cl)))"
| "read_knows lossy as k a c0 c (Must_query cl) = clean_known c k a cl"
| "read_knows lossy as k a c0 c (Must_materialize v) =
     (v \<noteq> 0 \<and> held v (key_at c a k) \<and> (\<exists>x. tail_had as k c0 c v x \<and> (k, v, x) \<in> set (accepted c)))"
| "read_knows lossy as k a c0 c (Read_done res) =
     (case res of
        Inr r \<Rightarrow> rresp_key r = k \<and> rresp_version r \<noteq> 0 \<and> tail_had as k c0 c (rresp_version r) (rresp_value r)
      | Inl e \<Rightarrow> lossy \<and> query_failed e \<or>
          e \<in> set not_committed \<and> tail_had as k c0 c 0 [] \<or>
          e = not_materialized \<and>
            (\<exists>v x. v \<noteq> 0 \<and> tail_had as k c0 c v x \<and> v < committed_version (key_at c a k)))"

lemma accepted_grows: "cluster_step c e c' \<Longrightarrow> set (accepted c) \<subseteq> set (accepted c')"
  by (drule cluster_step_accepted_prefix) auto

lemma clean_known_step: "cluster_step c e c' \<Longrightarrow> clean_known c k a cl \<Longrightarrow> clean_known c' k a cl"
  unfolding clean_known_def
  using cluster_step_committed [of c e c' a k] accepted_grows [of c e c'] by (auto intro: order.trans)

lemma read_knows_step:
  assumes "cluster_step c e c'" "client_routes CRAQ as e" "servers c a = Some sv" "the_strategy sv = Some (CRAQ, s)"
    and "read_knows lossy as k a c0 c ph"
  shows "read_knows lossy as k a c0 c' ph"
proof (cases ph)
  case (Clean_known cl)
  then show ?thesis using assms(5) clean_known_step [OF assms(1)] tail_had_step [OF _ assms(1,2)] by auto
next
  case (Must_query cl)
  then show ?thesis using assms(5) clean_known_step [OF assms(1)] by auto
next
  case (Must_materialize v)
  then have "v \<noteq> 0" "held v (key_at c a k)" "\<exists>x. tail_had as k c0 c v x \<and> (k, v, x) \<in> set (accepted c)"
    using assms(5) by simp_all
  then show ?thesis
    unfolding Must_materialize read_knows.simps
    using cluster_step_held [OF assms(1,3,4)] tail_had_step [OF _ assms(1,2)] accepted_grows [OF assms(1)]
    by blast
next
  case (Read_done res)
  note later = tail_had_step [OF _ assms(1,2)] cluster_step_committed [OF assms(1), of a k]
  show ?thesis
  proof (cases res)
    case (Inl e)
    then have "lossy \<and> query_failed e \<or> e \<in> set not_committed \<and> tail_had as k c0 c 0 [] \<or>
        e = not_materialized \<and>
          (\<exists>v x. v \<noteq> 0 \<and> tail_had as k c0 c v x \<and> v < committed_version (key_at c a k))"
      using assms(5) Read_done by simp
    then show ?thesis
      unfolding Read_done Inl read_knows.simps sum.case using later by (blast intro: order.strict_trans2)
  qed (use assms(5) Read_done later(1) in auto)
qed simp

text \<open>Where the read runs: the node's role, its store and the answer to its version query.\<close>

lemma craq_read_place:
  assumes as: "valid_addrs as" and reach: "cluster_reach (client_routes CRAQ as) (deployed hw CRAQ direct as) c"
    and len: "length (accepted c) + 1 < 2 ^ 64" and j: "j < length as"
    and sv: "servers c (position CRAQ as k j) = Some sv" and st: "the_strategy sv = Some (CRAQ, s)"
    and hops: "length as \<le> hops"
  shows "Node_is_tail (the_node sv) \<Longrightarrow> position CRAQ as k j = tail_of CRAQ as k"
    and "craq_handle_version_query (cluster_rpc hops c) \<lparr>vq_key = k\<rparr> (the_node sv) (replica_of sv (CRAQ, s))
      = Inr \<lparr>vqr_key = k, vqr_latest_version = committed_version (key_at c (tail_of CRAQ as k) k)\<rparr>"
proof -
  obtain p where sim: "cluster_sim (length as) CRAQ (position CRAQ as k) k (origin_text CRAQ as k) p c"
    and fx: "cluster_fixed (start_topo hw CRAQ direct as) c"
    by (rule deployed_refines [OF as reach len])
  have node: "fixed (start_topo hw CRAQ direct as (position CRAQ as k j)) sv"
    using fx sv by (simp add: cluster_fixed_def)
  have tail: "Node_is_tail (the_node sv) \<longleftrightarrow> Suc j = length as"
    using line_topology_server(5) [OF deployed_line [OF as] node j st] by simp
  show "position CRAQ as k j = tail_of CRAQ as k" if "Node_is_tail (the_node sv)"
  proof -
    have "length as - 1 = j" using that tail by linarith
    then show ?thesis by (simp only: tail_of_def)
  qed
  have "version_query_call (cluster_rpc (Suc hops) c) (position CRAQ as k j) \<lparr>vq_key = k\<rparr>
      = (Status_OK, \<lparr>vqr_key = k, vqr_latest_version = committed_version (key_at c (tail_of CRAQ as k) k)\<rparr>)"
    by (rule craq_version_query_answer [OF as sim fx j]) (use hops in simp)
  from craq_handler_answer [OF this sv st]
  show "craq_handle_version_query (cluster_rpc hops c) \<lparr>vq_key = k\<rparr> (the_node sv) (replica_of sv (CRAQ, s))
      = Inr \<lparr>vqr_key = k, vqr_latest_version = committed_version (key_at c (tail_of CRAQ as k) k)\<rparr>" .
qed

text \<open>One step of the read in a cluster where the facts hold.\<close>

lemma read_knows_move:
  assumes facts: "node_vs_tail c k a (tail_of CRAQ as k)"
    and reach: "cluster_reach (client_routes CRAQ as) c0 c"
    and store: "kstate r k = key_at c a k"
    and tail: "Node_is_tail node \<Longrightarrow> a = tail_of CRAQ as k"
    and query: "craq_handle_version_query rpc0 \<lparr>vq_key = k\<rparr> node r
      = Inr \<lparr>vqr_key = k, vqr_latest_version = committed_version (key_at c (tail_of CRAQ as k) k)\<rparr>"
    and calls: "query_rpc lossy rpc0 rpc"
    and knows: "read_knows lossy as k a c0 c ph"
  shows "read_knows lossy as k a c0 c (craq_read_step rpc k node r ph)"
proof -
  let ?ks = "key_at c a k" and ?kt = "key_at c (tail_of CRAQ as k) k"
  have f: "latest_seen_version ?ks \<le> committed_version ?ks \<Longrightarrow> committed_version ?ks = committed_version ?kt"
    "committed_version ?kt \<le> latest_seen_version ?ks" "committed_version ?ks \<le> committed_version ?kt"
    "held (committed_version ?kt) ?ks"
    "committed_version ?ks \<noteq> 0 \<Longrightarrow> (k, committed_version ?ks, committed_value ?ks) \<in> set (accepted c)"
    "committed_version ?kt \<noteq> 0 \<Longrightarrow> (k, committed_version ?kt, committed_value ?kt) \<in> set (accepted c)"
    "\<And>v x. pending_versions ?ks v = Some x \<Longrightarrow> (k, v, x) \<in> set (accepted c)"
    "\<And>v x y. (k, v, x) \<in> set (accepted c) \<Longrightarrow> (k, v, y) \<in> set (accepted c) \<Longrightarrow> x = y"
    using facts unfolding node_vs_tail_def Let_def by blast+
  note has = tail_has [OF reach]
  have now: "tail_had as k c0 c v x"
    if "committed_version ?kt = v" "v \<noteq> 0 \<Longrightarrow> (k, v, x) \<in> set (accepted c)" for v x
    by (rule has [OF that(1)]) (use f(6,8) that in blast)
  show ?thesis
  proof (cases ph)
    case Read_begun
    have "clean_known c k a (read_clean k (store_of r))"
      using f(5) by (simp add: clean_known_def read_clean_cases store LatestReplicaValue_default_def)
    moreover have "tail_had as k c0 c (if found (read_clean k (store_of r)) then
        val_version (read_clean k (store_of r)) else 0) (val_text (read_clean k (store_of r)))"
      if "a = tail_of CRAQ as k"
      using f(5) that by (intro now) (auto simp: read_clean_cases store LatestReplicaValue_default_def)
    ultimately show ?thesis by (simp add: Read_begun)
  next
    case (Clean_known cl)
    have cl: "found cl \<Longrightarrow> val_version cl \<noteq> 0" "found cl \<Longrightarrow> val_version cl \<le> committed_version ?ks"
      "found cl \<Longrightarrow> (k, val_version cl, val_text cl) \<in> set (accepted c)"
      using knows unfolding Clean_known by (auto simp: clean_known_def)
    have at_tail: "tail_had as k c0 c (if found cl then val_version cl else 0) (val_text cl)" if "Node_is_tail node"
      using knows tail [OF that] unfolding Clean_known by simp
    have clean: "tail_had as k c0 c (val_version cl) (val_text cl)"
      if "found cl" "latest_seen_version ?ks \<le> val_version cl"
    proof (rule now)
      show "committed_version ?kt = val_version cl"
        using f(2,3) cl(2) that by (meson antisym order.trans)
    qed (rule cl(3) [OF that(1)])
    have none: "tail_had as k c0 c 0 []" if "latest_seen_version ?ks = 0"
      by (rule now) (use f(2) that in auto)
    show ?thesis
    proof (cases "Node_is_tail node")
      case True
      then show ?thesis
        using at_tail [OF True] cl(1) tail_had_none
        by (auto simp: Clean_known clean_response_def build_read_response_def not_committed_def split: if_splits)
    next
      case False
      then show ?thesis
        using knows clean none cl(1)
        by (auto simp: Clean_known read_latest_seen_cases store LatestReplicaValue_default_def Let_def
            clean_response_def build_read_response_def not_less not_committed_def)
    qed
  next
    case (Must_query cl)
    have cl: "found cl \<Longrightarrow> val_version cl \<noteq> 0" "found cl \<Longrightarrow> (k, val_version cl, val_text cl) \<in> set (accepted c)"
      using knows unfolding Must_query by (auto simp: clean_known_def)
    from version_query_outcome [OF calls query] show ?thesis
    proof (elim disjE exE conjE)
      assume "craq_handle_version_query rpc \<lparr>vq_key = k\<rparr> node r
        = Inr \<lparr>vqr_key = k, vqr_latest_version = committed_version ?kt\<rparr>"
      then show ?thesis
        using now [OF refl] f(4,6) cl
        by (auto simp: Must_query Let_def clean_response_def build_read_response_def not_committed_def)
    next
      fix e assume "craq_handle_version_query rpc \<lparr>vq_key = k\<rparr> node r = Inl e" "lossy" "query_failed e"
      then show ?thesis by (simp add: Must_query)
    qed
  next
    case (Must_materialize v)
    then obtain x where v: "v \<noteq> 0" "held v ?ks" "tail_had as k c0 c v x" "(k, v, x) \<in> set (accepted c)"
      using knows by auto
    show ?thesis
    proof (cases "read_value_at_version k v (store_of r)")
      case None
      then have "committed_version ?ks \<noteq> v" "pending_versions ?ks v = None"
        using v(1) by (auto simp: read_value_at_version_cases store split: if_splits)
      then have "v < committed_version ?ks" using v(2) by (auto simp: held_def)
      then show ?thesis using None v(1,3) by (auto simp: Must_materialize not_materialized_def)
    next
      case (Some y)
      then have "(k, v, y) \<in> set (accepted c)"
        using v(1) f(5,7) by (auto simp: read_value_at_version_cases store split: if_splits)
      then have "y = x" by (rule f(8) [OF _ v(4)])
      then show ?thesis using Some v(1,3) by (simp add: Must_materialize build_read_response_def)
    qed
  next
    case (Read_done res)
    then show ?thesis using knows by simp
  qed
qed

text \<open>Every phase of every run knows what it should.\<close>

lemma read_run_knows:
  assumes as: "valid_addrs as" and start: "cluster_reach (client_routes CRAQ as) (deployed hw CRAQ direct as) c0"
    and j: "j < length as" and hops: "length as \<le> hops"
    and run: "craq_read_run lossy (client_routes CRAQ as) hops (position CRAQ as k j) k c0 c ph"
    and len: "length (accepted c) + 1 < 2 ^ 64"
  shows "read_knows lossy as k (position CRAQ as k j) c0 c ph"
  using run len
proof (induction rule: craq_read_run.induct)
  case read_begins
  show ?case by simp
next
  case (cluster_moves c ph e c')
  have len': "length (accepted c) + 1 < 2 ^ 64"
    using cluster_step_accepted_length [OF cluster_moves.hyps(2)] cluster_moves.prems by linarith
  have reach: "cluster_reach (client_routes CRAQ as) (deployed hw CRAQ direct as) c"
    by (rule cluster_reach_trans [OF read_run_reach [OF cluster_moves.hyps(1)] start])
  obtain p where "cluster_sim (length as) CRAQ (position CRAQ as k) k (origin_text CRAQ as k) p c"
    and "cluster_fixed (start_topo hw CRAQ direct as) c"
    by (rule deployed_refines [OF as reach len'])
  from deployed_position [OF this j] obtain sv s where
    "servers c (position CRAQ as k j) = Some sv" "the_strategy sv = Some (CRAQ, s)" by blast
  from read_knows_step [OF cluster_moves.hyps(2,3) this cluster_moves.IH [OF len']] show ?case .
next
  case (read_moves c ph sv s rpc)
  note reach0 = read_run_reach [OF read_moves.hyps(1)]
  note reach = cluster_reach_trans [OF reach0 start]
  show ?case
  proof (rule read_knows_move [OF craq_node_facts [OF as reach read_moves.prems j] reach0])
    show "kstate (replica_of sv (CRAQ, s)) k = key_at c (position CRAQ as k j) k"
      using key_at_server [OF read_moves.hyps(2,3)] by simp
    show "read_knows lossy as k (position CRAQ as k j) c0 c ph" by (rule read_moves.IH [OF read_moves.prems])
    show "query_rpc lossy (cluster_rpc hops c) rpc" by (rule read_moves.hyps(4))
  qed (rule craq_read_place [OF as reach read_moves.prems j read_moves.hyps(2,3) hops]; assumption)+
qed

subsection \<open>Two reads that meet writes\<close>

lemma read_run_cluster:
  "cluster_reach allowed c c' \<Longrightarrow> craq_read_run lossy allowed hops a key c0 c ph \<Longrightarrow>
    craq_read_run lossy allowed hops a key c0 c' ph"
  by (induction rule: cluster_reach.induct) (auto intro: cluster_moves)

text \<open>\<open>n\<close> steps of the read in one cluster.\<close>

fun read_steps :: "nat \<Rightarrow> nat \<Rightarrow> stub \<Rightarrow> string \<Rightarrow> Cluster \<Rightarrow> craq_read \<Rightarrow> craq_read option" where
  "read_steps 0 hops a key c ph = Some ph"
| "read_steps (Suc n) hops a key c ph =
     (case servers c a of
        Some sv \<Rightarrow> (case the_strategy sv of
           Some (CRAQ, s) \<Rightarrow> read_steps n hops a key c
             (craq_read_step (cluster_rpc hops c) key (the_node sv) (replica_of sv (CRAQ, s)) ph)
         | _ \<Rightarrow> None)
      | None \<Rightarrow> None)"

lemma read_steps_run:
  "read_steps n hops a key c ph = Some ph' \<Longrightarrow> craq_read_run lossy allowed hops a key c0 c ph \<Longrightarrow>
    craq_read_run lossy allowed hops a key c0 c ph'"
proof (induction n arbitrary: ph)
  case (Suc n)
  then obtain sv s where sv: "servers c a = Some sv" "the_strategy sv = Some (CRAQ, s)"
    "read_steps n hops a key c
      (craq_read_step (cluster_rpc hops c) key (the_node sv) (replica_of sv (CRAQ, s)) ph) = Some ph'"
    by (auto split: option.splits ReplicationMode.splits prod.splits)
  show ?case by (rule Suc.IH [OF sv(3) read_moves [OF Suc.prems(2) sv(1,2) query_rpc_same]])
qed simp

definition sample_at :: "nat \<Rightarrow> stub" where
  "sample_at = position CRAQ sample_addrs ''k''"

text \<open>
  The head is asked while its first write is on its way: the read finds it dirty, the write
  arrives at the tail, the tail reports it and the head answers with it.
\<close>

definition sample_waiting :: Cluster where
  "sample_waiting = the (sample_run CRAQ 0)"

definition sample_dirty_read :: "craq_read option" where
  "sample_dirty_read =
     (case sample_run CRAQ 0 of None \<Rightarrow> None | Some c \<Rightarrow>
        (case (read_steps 2 3 (sample_at 0) ''k'' c Read_begun, pass_along CRAQ (map sample_at [0..<2]) c) of
           (Some ph, Some c') \<Rightarrow> read_steps 2 3 (sample_at 0) ''k'' c' ph
         | _ \<Rightarrow> None))"

text \<open>
  The head is asked when the tail has the first write but its ack is not back. The tail reports
  version 1; before the head looks it up, a second write is acknowledged and cleaned at the head.
\<close>

definition sample_late_ack :: AckRequest where
  "sample_late_ack = sample_ack\<lparr>ack_version := 2\<rparr>"

definition sample_acks_back :: "cluster_event list" where
  "sample_acks_back =
     [Ack_turn (sample_at 2), Ack_turn (sample_at 2), Deliver_ack (sample_at 1) sample_late_ack,
      Ack_turn (sample_at 1), Deliver_ack (sample_at 0) sample_late_ack]"

definition sample_second_write :: "Cluster \<Rightarrow> Cluster option" where
  "sample_second_write c =
     (case exec_event (Client_write (sample_at 0) (sample_write ''w'')) c of None \<Rightarrow> None | Some c \<Rightarrow>
      case pass_along CRAQ (map sample_at [0..<2]) c of None \<Rightarrow> None | Some c \<Rightarrow>
      exec_events sample_acks_back c)"

definition sample_overtaken_read :: "craq_read option" where
  "sample_overtaken_read =
     (case sample_run CRAQ 2 of None \<Rightarrow> None | Some c \<Rightarrow>
        (case (read_steps 3 3 (sample_at 0) ''k'' c Read_begun, sample_second_write c) of
           (Some ph, Some c') \<Rightarrow> read_steps 1 3 (sample_at 0) ''k'' c' ph
         | _ \<Rightarrow> None))"

lemma sample_dirty_read: "sample_dirty_read = Some (Read_done (Inr sample_read))"
  by code_simp

lemma sample_overtaken_read: "sample_overtaken_read = Some (Read_done (Inl
    (Runtime_error ''CRAQ read failed: local node cannot materialize tail-committed version'')))"
  by code_simp

lemma sample_waiting_facts:
  "sample_run CRAQ 0 = Some sample_waiting"
  "pass_along CRAQ (map sample_at [0..<2]) sample_waiting = Some (sample_cluster CRAQ)"
  "cluster_reach (client_routes CRAQ sample_addrs) (deployed 2 CRAQ False sample_addrs) sample_waiting"
proof -
  show run: "sample_run CRAQ 0 = Some sample_waiting"
    using sample_dirty_read by (auto simp: sample_dirty_read_def sample_waiting_def split: option.splits)
  show "pass_along CRAQ (map sample_at [0..<2]) sample_waiting = Some (sample_cluster CRAQ)"
    using run sample_facts(1) [of CRAQ] by (auto simp: sample_run_def sample_at_def split: option.splits)
  show "cluster_reach (client_routes CRAQ sample_addrs) (deployed 2 CRAQ False sample_addrs) sample_waiting"
    by (rule sample_reach [OF run]) (simp_all add: client_routes_def)
qed

lemma sample_dirty_run:
  "craq_read_run lossy (client_routes CRAQ sample_addrs) 3 (sample_at 0) ''k'' sample_waiting (sample_cluster CRAQ)
    (Read_done (Inr sample_read))"
proof -
  obtain ph where ph: "read_steps 2 3 (sample_at 0) ''k'' sample_waiting Read_begun = Some ph"
    "read_steps 2 3 (sample_at 0) ''k'' (sample_cluster CRAQ) ph = Some (Read_done (Inr sample_read))"
    using sample_dirty_read unfolding sample_dirty_read_def sample_waiting_facts(1,2) option.case
    by (auto split: option.splits)
  have "cluster_reach (client_routes CRAQ sample_addrs) sample_waiting (sample_cluster CRAQ)"
    by (rule pass_along_reach [OF _ _ sample_waiting_facts(2) reach_start]) (simp_all add: client_routes_def)
  from read_steps_run [OF ph(2) read_run_cluster [OF this read_steps_run [OF ph(1) read_begins]]] show ?thesis .
qed

text \<open>
  C3. A CRAQ read at any node, its locked steps and its version query interleaved with any steps of
  the cluster, answers with the version and the value that the tail had committed at some moment
  between the beginning and the end of the read; whether or not version queries may fail in the run.
\<close>

theorem interleaved_read_atomic:
  assumes "valid_addrs as" "cluster_reach (client_routes CRAQ as) (deployed hw CRAQ direct as) c0"
    and "j < length as" "length as \<le> hops" "length (accepted c) + 1 < 2 ^ 64"
    and "craq_read_run lossy (client_routes CRAQ as) hops (position CRAQ as k j) k c0 c (Read_done (Inr r))"
  shows "\<exists>c1. cluster_reach (client_routes CRAQ as) c0 c1 \<and> cluster_reach (client_routes CRAQ as) c1 c \<and>
    r = \<lparr>rresp_key = k, rresp_value = committed_value (key_at c1 (tail_of CRAQ as k) k),
         rresp_version = committed_version (key_at c1 (tail_of CRAQ as k) k)\<rparr>"
  using read_run_knows [OF assms(1-4,6,5)] unfolding read_knows.simps sum.case tail_had_def
  by (metis ReadResponse.surjective old.unit.exhaust)

theorem interleaved_read_atomic_witness:
  "\<exists>c1. cluster_reach (client_routes CRAQ sample_addrs) sample_waiting c1 \<and>
    cluster_reach (client_routes CRAQ sample_addrs) c1 (sample_cluster CRAQ) \<and>
    sample_read = \<lparr>rresp_key = ''k'', rresp_value = committed_value (key_at c1 (tail_of CRAQ sample_addrs ''k'') ''k''),
      rresp_version = committed_version (key_at c1 (tail_of CRAQ sample_addrs ''k'') ''k'')\<rparr>"
  by (rule interleaved_read_atomic [OF sample_valid sample_waiting_facts(3) _ _ sample_length,
        where j = 0 and hops = 3])
    (use sample_dirty_run in \<open>simp_all add: sample_addrs_def sample_at_def\<close>)

text \<open>
  C4. Such a read ends in an error in one of three ways, and the text of the exception says which: the
  version query call itself failed, which only a run with failing calls (\<open>lossy\<close>) has; or at some
  moment during the read the tail had committed nothing for the key; or by the end the node has
  cleaned a version newer than one the tail had committed during the read. With calls that are
  answered, a reader is turned away by writes that overtake it, never by writes under way.
\<close>

theorem interleaved_read_failure:
  assumes "valid_addrs as" "cluster_reach (client_routes CRAQ as) (deployed hw CRAQ direct as) c0"
    and "j < length as" "length as \<le> hops" "length (accepted c) + 1 < 2 ^ 64"
    and "craq_read_run lossy (client_routes CRAQ as) hops (position CRAQ as k j) k c0 c (Read_done (Inl e))"
  shows "lossy \<and> query_failed e \<or>
    (\<exists>c1. cluster_reach (client_routes CRAQ as) c0 c1 \<and> cluster_reach (client_routes CRAQ as) c1 c \<and>
      (e \<in> set not_committed \<and> committed_version (key_at c1 (tail_of CRAQ as k) k) = 0 \<or>
       e = not_materialized \<and> committed_version (key_at c1 (tail_of CRAQ as k) k)
         < committed_version (key_at c (position CRAQ as k j) k)))"
  using read_run_knows [OF assms(1-4,6,5)] unfolding read_knows.simps sum.case tail_had_def by blast

definition sample_overtaken :: Cluster where
  "sample_overtaken = the (sample_second_write (sample_cluster CRAQ))"

lemma second_write_reach:
  assumes "sample_second_write c = Some c'" "\<And>e. allowed e"
  shows "cluster_reach allowed c c'"
proof -
  obtain c1 c2 where c1: "exec_event (Client_write (sample_at 0) (sample_write ''w'')) c = Some c1"
    and c2: "pass_along CRAQ (map sample_at [0..<2]) c1 = Some c2"
    and es: "exec_events sample_acks_back c2 = Some c'"
    using assms(1) unfolding sample_second_write_def by (auto split: option.splits)
  have "cluster_reach allowed c c1"
    by (rule reach_step [OF reach_start exec_event_step [OF c1] assms(2)])
  from pass_along_reach [OF assms(2) assms(2) c2 this] have "cluster_reach allowed c c2" .
  moreover have "list_all allowed sample_acks_back" using assms(2) by (simp add: list_all_iff)
  ultimately show ?thesis using exec_events_reach [OF es] by blast
qed

lemma sample_overtaken_facts:
  "sample_second_write (sample_cluster CRAQ) = Some sample_overtaken"
  "cluster_reach (client_routes CRAQ sample_addrs) (sample_cluster CRAQ) sample_overtaken"
  "craq_read_run lossy (client_routes CRAQ sample_addrs) 3 (sample_at 0) ''k'' (sample_cluster CRAQ) sample_overtaken
    (Read_done (Inl (Runtime_error ''CRAQ read failed: local node cannot materialize tail-committed version'')))"
proof -
  have all: "client_routes CRAQ sample_addrs = (\<lambda>_. True)" by (simp add: client_routes_def fun_eq_iff)
  show c: "sample_second_write (sample_cluster CRAQ) = Some sample_overtaken"
    using sample_overtaken_read sample_facts(1) [of CRAQ]
    by (auto simp: sample_overtaken_read_def sample_overtaken_def split: option.splits)
  from second_write_reach [OF this]
  show reach: "cluster_reach (client_routes CRAQ sample_addrs) (sample_cluster CRAQ) sample_overtaken"
    by (simp add: client_routes_def)
  obtain ph where ph: "read_steps 3 3 (sample_at 0) ''k'' (sample_cluster CRAQ) Read_begun = Some ph"
    "read_steps 1 3 (sample_at 0) ''k'' sample_overtaken ph = Some (Read_done (Inl
      (Runtime_error ''CRAQ read failed: local node cannot materialize tail-committed version'')))"
    using sample_overtaken_read unfolding sample_overtaken_read_def sample_facts(1) c option.case
    by (auto split: option.splits)
  from read_steps_run [OF ph(2) read_run_cluster [OF reach read_steps_run [OF ph(1) read_begins]]]
  show "craq_read_run lossy (client_routes CRAQ sample_addrs) 3 (sample_at 0) ''k'' (sample_cluster CRAQ) sample_overtaken
    (Read_done (Inl (Runtime_error ''CRAQ read failed: local node cannot materialize tail-committed version'')))" .
qed

lemma sample_overtaken_length: "length (accepted sample_overtaken) + 1 < 2 ^ 64"
proof -
  have "case sample_run CRAQ 2 of None \<Rightarrow> False | Some c \<Rightarrow>
      (case sample_second_write c of None \<Rightarrow> False | Some c \<Rightarrow> length (accepted c) = 2)"
    by code_simp
  then show ?thesis using sample_facts(1) [of CRAQ] sample_overtaken_facts(1) by simp
qed

theorem interleaved_read_failure_witness:
  "False \<and> query_failed not_materialized \<or>
    (\<exists>c1. cluster_reach (client_routes CRAQ sample_addrs) (sample_cluster CRAQ) c1 \<and>
      cluster_reach (client_routes CRAQ sample_addrs) c1 sample_overtaken \<and>
      (not_materialized \<in> set not_committed \<and>
         committed_version (key_at c1 (tail_of CRAQ sample_addrs ''k'') ''k'') = 0 \<or>
       not_materialized = not_materialized \<and>
         committed_version (key_at c1 (tail_of CRAQ sample_addrs ''k'') ''k'')
           < committed_version (key_at sample_overtaken (position CRAQ sample_addrs ''k'' 0) ''k'')))"
  by (rule interleaved_read_failure [OF sample_valid sample_cluster_reach _ _ sample_overtaken_length,
        where j = 0 and hops = 3])
    (use sample_overtaken_facts(3) in \<open>simp_all add: sample_addrs_def sample_at_def not_materialized_def\<close>)

end
