(* ===== verification/Second_Client.thy ===== *)
theory Second_Client
  imports Provenance Client_Properties
begin

section \<open>A client that starts while others are at work\<close>

text \<open>
  A client started with the set-up flag sends every node its configuration, also when the servers
  are running and hold the same one already. The model has this as the step \<open>Configure_again\<close>: a
  Configure while no handler of that server runs, for the code takes no lock around \<open>node_\<close> and \<open>strategy_\<close>.

  Shown: the Configure calls of such a client can be made in any reachable cluster, one after the
  other; the calls under way, the stores, the queues and the log of accepted writes stay as they were.
\<close>

definition set_up_events :: "(string \<times> pb_NodeConfig) list \<Rightarrow> cluster_event list" where
  "set_up_events calls = map (\<lambda>(target, cfg). Configure_again target cfg) calls"

definition undisturbed :: "Cluster \<Rightarrow> Cluster \<Rightarrow> bool" where
  "undisturbed c c' \<longleftrightarrow>
     accepted c' = accepted c \<and> prop_calls c' = prop_calls c \<and> ack_calls c' = ack_calls c \<and>
     (\<forall>a k. key_at c' a k = key_at c a k) \<and> (\<forall>x. in_transit c' x \<longleftrightarrow> in_transit c x)"

lemma undisturbed_trans: "undisturbed c c' \<Longrightarrow> undisturbed c' c'' \<Longrightarrow> undisturbed c c''"
  by (simp add: undisturbed_def)

lemma undisturbed_refl [simp]: "undisturbed c c"
  by (simp add: undisturbed_def)

lemma in_transit_dispatchers:
  assumes "prop_calls c' = prop_calls c" "\<And>a. map_option dispatchers (servers c' a) = map_option dispatchers (servers c a)"
  shows "in_transit c' x \<longleftrightarrow> in_transit c x"
proof -
  have "in_transit c x \<longleftrightarrow> x \<in> set (prop_calls c) \<or>
      (\<exists>a d m. map_option dispatchers (servers c a) = Some d \<and> x \<in> task_call ` set (queue (d m)))" for c
    by (auto simp: in_transit_def)
  then show ?thesis by (simp only: assms)
qed

text \<open>Each node of the deployment can be sent its configuration again.\<close>

lemma configure_again_deployed:
  assumes as: "valid_addrs as" and fx: "cluster_fixed (start_topo hw m direct as) c"
    and sv: "servers c (pb_endpoint (as ! i)) = Some sv" and i: "i < length as"
  shows "\<exists>c'. cluster_step c (Configure_again (pb_endpoint (as ! i)) (node_proto m direct as i)) c' \<and> undisturbed c c'"
proof -
  let ?a = "pb_endpoint (as ! i)" and ?cfg = "node_proto m direct as i"
  have "topo_of sv = start_topo hw m direct as ?a"
    using fx sv by (auto simp: cluster_fixed_def fixed_def)
  then obtain s where node: "config (the_node sv) = node_config m direct as i"
    "the_strategy sv = Some (m, s)" "Node_mode (the_node sv) = m"
    unfolding deployed_topo [OF as i] by (auto simp: topo_of_def Node_mode_def node_config_mode)
  have pre: "the_strategy sv = Some (Node_mode (the_node sv), s)"
    "proto_to_config ?cfg = Inr (config (the_node sv))"
    using node proto_to_config_node by simp_all
  obtain res sv' where rpc: "rpc_Configure ?cfg sv = (res, sv')" by fastforce
  let ?c' = "put_server ?a sv' c"
  have step: "cluster_step c (Configure_again ?a ?cfg) ?c'" by (rule configure_again [OF sv pre rpc])
  obtain s' where s': "sv' = put_support m s' sv" "by_key s' = by_key s"
    by (rule rpc_Configure_again [OF pre rpc]) (use node(3) in simp)
  have "key_at ?c' b k = key_at c b k" for b k
    using sv node(2) s' by (simp add: key_at_def)
  moreover have "in_transit ?c' x \<longleftrightarrow> in_transit c x" for x
    using sv s'(1) by (intro in_transit_dispatchers) auto
  ultimately have "undisturbed c ?c'" by (simp add: undisturbed_def)
  with step show ?thesis by blast
qed

lemma set_up_again:
  assumes "valid_addrs as" "set is \<subseteq> {..<length as}"
    and "cluster_reach (client_routes m as) (deployed hw m direct as) c" "length (accepted c) + 1 < 2 ^ 64"
  shows "\<exists>c'. cluster_path c (map (\<lambda>i. Configure_again (pb_endpoint (as ! i)) (node_proto m direct as i)) is) c' \<and>
    undisturbed c c'"
  using assms(2-4)
proof (induction "is" arbitrary: c)
  case (Cons i "is")
  have i: "i < length as" using Cons.prems(1) by simp
  obtain p where "cluster_sim (length as) m (position m as []) [] (origin_text m as []) p c"
    and fx: "cluster_fixed (start_topo hw m direct as) c"
    by (rule deployed_refines [OF assms(1) Cons.prems(2,3)])
  then have "pb_endpoint (as ! i) \<in> dom (servers c)"
    using i position_image [OF assms(1), of m "[]"] by (auto simp: cluster_sim_def)
  then obtain sv where "servers c (pb_endpoint (as ! i)) = Some sv" by auto
  from configure_again_deployed [OF assms(1) fx this i] obtain c1 where
    c1: "cluster_step c (Configure_again (pb_endpoint (as ! i)) (node_proto m direct as i)) c1" "undisturbed c c1"
    by blast
  have "cluster_reach (client_routes m as) (deployed hw m direct as) c1"
    by (rule reach_step [OF Cons.prems(2) c1(1) not_write_routed]) simp
  moreover have "length (accepted c1) + 1 < 2 ^ 64" using c1(2) Cons.prems(3) by (simp add: undisturbed_def)
  ultimately obtain c' where
    "cluster_path c1 (map (\<lambda>i. Configure_again (pb_endpoint (as ! i)) (node_proto m direct as i)) is) c'"
    "undisturbed c1 c'" using Cons.IH Cons.prems(1) by auto
  then show ?case using path_cons [OF c1(1)] undisturbed_trans [OF c1(2)] by auto
qed (auto intro: path_nil)

text \<open>
  C25. A client that sets up the deployment while the cluster is running leaves it as it is: its
  Configure calls, to every node in the order of the topology file, can be made in any reachable
  cluster, and change no store, no call under way, no queued propagate and no accepted write.
\<close>

theorem second_set_up_harmless:
  assumes "valid_addrs as" "ports_fit as" "\<And>target cfg. Status_ok (configure_rpc target cfg)"
    and "client_prepare configure_rpc True (deployment_json m as) = Ready topo calls"
    and "cluster_reach (client_routes m as) (deployed hw m False as) c" "length (accepted c) + 1 < 2 ^ 64"
  shows "\<exists>c'. cluster_path c (set_up_events calls) c' \<and> undisturbed c c'"
proof -
  have calls: "calls = map (\<lambda>i. (pb_endpoint (as ! i), node_proto m False as i)) [0..<length as]"
    using client_prepare_deployed [OF assms(1-3), where m = m] assms(4) by simp
  have "set_up_events calls
    = map (\<lambda>i. Configure_again (pb_endpoint (as ! i)) (node_proto m False as i)) [0..<length as]"
    by (simp add: calls set_up_events_def)
  then show ?thesis
    using set_up_again [OF assms(1) _ assms(5,6), of "[0..<length as]"] by (simp add: atLeast0LessThan)
qed

theorem second_set_up_harmless_witness:
  "\<exists>calls c'. client_prepare (\<lambda>_ _. Status_OK) True (deployment_json CROWN sample_addrs)
      = Ready (deployed_topology CROWN sample_addrs) calls \<and>
    cluster_path (sample_cluster CROWN) (set_up_events calls) c' \<and> undisturbed (sample_cluster CROWN) c'"
proof -
  have up: "Status_ok Status_OK" by simp
  note ready = client_prepare_deployed [OF sample_valid sample_ports up, where m = CROWN]
  from second_set_up_harmless [OF sample_valid sample_ports up ready sample_cluster_reach sample_length] ready
  show ?thesis by blast
qed

end
