(* ===== verification/Client_Main.thy ===== *)
theory Client_Main
  imports Client_Properties
begin

section \<open>The client process (src/src/client/client.cpp)\<close>

text \<open>
  \<open>main\<close> from its arguments to the run mode, with \<open>get_local_ip\<close>. What the operating system and
  gRPC answer is the record \<open>Machine\<close>. From the moment the thread of the ack server runs,
  \<open>main\<close> owns a joinable \<open>std::thread\<close>: returning without a join destroys it, and the destructor
  calls \<open>std::terminate\<close>. Only the failure of a Configure call and the end of a session join it.

  Shown: when the process exits with status 1 and when it is terminated; that it reaches its run
  mode only behind all checks; and what it is then bound to.
\<close>

datatype address_family = AF_INET | Other_family

text \<open>\<open>addrinfo\<close>: the list \<open>getaddrinfo\<close> returns, none when it fails, with the text of each address.\<close>

definition get_local_ip :: "bool \<Rightarrow> (address_family \<times> string) list option \<Rightarrow> string" where
  "get_local_ip hostname_known addrinfo =
     (if \<not> hostname_known then ''127.0.0.1''
      else case addrinfo of
             None \<Rightarrow> ''127.0.0.1''
           | Some result \<Rightarrow>
               (case List.find (\<lambda>(family, _). family = AF_INET) result of
                  None \<Rightarrow> ''127.0.0.1''
                | Some (_, ip) \<Rightarrow> ip))"

datatype config_content =
    Cannot_open
  | Parse_error
  | Parsed json_config

record Machine =
  hostname_known :: bool
  local_addresses :: "(address_family \<times> string) list option"
  ack_server_starts :: "string \<Rightarrow> bool"
  config_file :: "string \<Rightarrow> config_content"
  configure_rpc :: "stub \<Rightarrow> pb_NodeConfig \<Rightarrow> Status"

datatype client_process =
    Client_exits int
  | Client_terminated
  | Client_undefined
  | Session ClientRunMode BenchmarkRunConfig Topology string "(stub \<times> pb_NodeConfig) list"

text \<open>
  \<open>Client_terminated\<close> is \<open>std::terminate\<close>: an exception that leaves \<open>main\<close>, or a \<open>return\<close> while the
  thread of the ack server is not joined.
\<close>

definition client_main :: "Machine \<Rightarrow> string list \<Rightarrow> client_process" where
  "client_main mc argv =
     (case client_cli argv of
        Cli_usage _ \<Rightarrow> Client_exits 1
      | Cli_run config_path should_configure ack_port run_mode bench_cfg \<Rightarrow>
          (let client_addr = get_local_ip (hostname_known mc) (local_addresses mc) @ '':'' @ to_string_int ack_port
           in if \<not> ack_server_starts mc (''0.0.0.0:'' @ to_string_int ack_port) then Client_exits 1
              else case config_file mc config_path of
                     Cannot_open \<Rightarrow> Client_terminated
                   | Parse_error \<Rightarrow> Client_terminated
                   | Parsed cfg \<Rightarrow>
                       (case client_prepare (configure_rpc mc) should_configure cfg of
                          Terminated (Exn _) \<Rightarrow> Client_terminated
                        | Terminated Undefined \<Rightarrow> Client_undefined
                        | Failed _ \<Rightarrow> Client_terminated
                        | Not_configured _ \<Rightarrow> Client_exits 1
                        | Ready topo calls \<Rightarrow> Session run_mode bench_cfg topo client_addr calls)))"

text \<open>
  An interactive session reads the lines of the input and ends with the shutdown of the ack
  server, the join and status 0; the result is the client's bookkeeping at that moment.
\<close>

definition client_interactive ::
    "Machine \<Rightarrow> string list \<Rightarrow> (string \<times> Environment) list \<Rightarrow> (int \<times> Client) option" where
  "client_interactive mc argv input =
     (case client_main mc argv of
        Session INTERACTIVE _ topo client_addr _ \<Rightarrow> Some (0, run_interactive_loop topo client_addr input Client_init)
      | _ \<Rightarrow> None)"

text \<open>The tag of the summary line of a benchmark run.\<close>

definition benchmark_tag :: "bool \<Rightarrow> pb_ReplicationMode \<Rightarrow> BenchmarkRunConfig \<Rightarrow> string" where
  "benchmark_tag is_write m cfg =
     (if is_write then ''bench-write'' else ''bench-read'') @ '':'' @ client_mode_name m @
     '':c'' @ to_string_int (client_index cfg) @ ''/'' @ to_string_int (num_clients cfg)"

subsection \<open>From the command line to the first write\<close>

lemma client_cli_run:
  "parse_run_mode_args rest = Inr (ack_port, run, cfg) \<Longrightarrow>
    client_cli (path # ''true'' # rest) = Cli_run path True ack_port run cfg"
  by (simp add: client_cli_def)

lemma client_main_ready:
  assumes "client_cli argv = Cli_run path should ack_port run cfg"
    and "ack_server_starts mc (''0.0.0.0:'' @ to_string_int ack_port)" "config_file mc path = Parsed j"
    and "client_prepare (configure_rpc mc) should j = Ready topo calls"
  shows "client_main mc argv = Session run cfg topo
    (get_local_ip (hostname_known mc) (local_addresses mc) @ '':'' @ to_string_int ack_port) calls"
  using assms by (simp add: client_main_def Let_def)

lemma to_string_default_port: "to_string_int 60000 = ''60000''"
  by code_simp

text \<open>
  C18. The client process on the topology file of a deployment: with its ack server up and every
  Configure answered, whatever run mode the arguments ask for, it gets to that mode with the
  arguments' numbers and the deployment's topology, announces the address its ack server listens
  on, and leaves behind exactly the servers the cluster theorems start from.
\<close>

theorem client_session_on_deployment:
  assumes "valid_addrs as" "ports_fit as" "parse_run_mode_args rest = Inr (ack_port, run, cfg)"
    and "ack_server_starts mc (''0.0.0.0:'' @ to_string_int ack_port)"
    and "config_file mc path = Parsed (deployment_json m as)"
    and "\<And>target c. Status_ok (configure_rpc mc target c)"
  shows "\<exists>calls. client_main mc (path # ''true'' # rest) = Session run cfg (deployed_topology m as)
      (get_local_ip (hostname_known mc) (local_addresses mc) @ '':'' @ to_string_int ack_port) calls \<and>
    map_of (map (\<lambda>(target, c). (target, snd (rpc_Configure c (Server_init hw)))) calls)
      = servers (deployed hw m False as)"
proof -
  obtain calls where calls: "client_prepare (configure_rpc mc) True (deployment_json m as)
      = Ready (deployed_topology m as) calls"
    "map_of (map (\<lambda>(target, c). (target, snd (rpc_Configure c (Server_init hw)))) calls)
      = servers (deployed hw m False as)"
    using client_sets_up_deployment [where configure_rpc = "configure_rpc mc" and m = m and hw = hw, OF assms(1,2,6)]
    by blast
  from client_main_ready [OF client_cli_run [OF assms(3)] assms(4,5) calls(1)] calls(2) show ?thesis by blast
qed

definition sample_machine :: "ReplicationMode \<Rightarrow> Machine" where
  "sample_machine m =
     \<lparr>hostname_known = True, local_addresses = Some [(Other_family, ''::1''), (AF_INET, ''10.0.0.7'')],
      ack_server_starts = (\<lambda>_. True),
      config_file = (\<lambda>path. if path = ''config.json'' then Parsed (deployment_json m sample_addrs) else Cannot_open),
      configure_rpc = (\<lambda>_ _. Status_OK)\<rparr>"

theorem client_session_on_deployment_witness:
  "\<exists>calls. client_main (sample_machine CROWN) [''config.json'', ''true'', ''7000''] =
    Session INTERACTIVE BenchmarkRunConfig_default (deployed_topology CROWN sample_addrs) ''10.0.0.7:7000'' calls"
proof -
  have args: "parse_run_mode_args [''7000''] = Inr (7000, INTERACTIVE, BenchmarkRunConfig_default)" by code_simp
  have addr: "get_local_ip (hostname_known (sample_machine CROWN)) (local_addresses (sample_machine CROWN))
      @ '':'' @ to_string_int 7000 = ''10.0.0.7:7000''"
    unfolding sample_machine_def by code_simp
  have ready: "ack_server_starts (sample_machine CROWN) (''0.0.0.0:'' @ to_string_int 7000)"
    "config_file (sample_machine CROWN) ''config.json'' = Parsed (deployment_json CROWN sample_addrs)"
    "\<And>target c. Status_ok (configure_rpc (sample_machine CROWN) target c)"
    by (simp_all add: sample_machine_def)
  from client_session_on_deployment [OF sample_valid sample_ports args ready, where hw = 2]
  show ?thesis unfolding addr by blast
qed

lemma client_prepare_validated:
  assumes "\<not> (\<exists>e. client_prepare rpc should j = Terminated e)" "\<not> (\<exists>e. client_prepare rpc should j = Failed e)"
  shows "\<exists>t pm. jc_mode j = Inr t \<and> client_parse_mode t = Inr pm \<and> validate_config_before_configure j pm = Inr None"
proof (cases "jc_mode j")
  case (Inr t)
  note mode_text = Inr
  show ?thesis
  proof (cases "client_parse_mode t")
    case (Inr pm)
    have "validate_config_before_configure j pm = Inr None"
    proof (cases "validate_config_before_configure j pm")
      case (Inl e)
      then show ?thesis
        using assms(1) mode_text Inr by (cases "pm = PB_CROWN \<and> jc_nodes j = None") (simp_all add: client_prepare_def)
    next
      case (Inr verdict)
      then show ?thesis
        using assms mode_text \<open>client_parse_mode t = Inr pm\<close>
        by (cases verdict; cases "pm = PB_CROWN \<and> jc_nodes j = None") (simp_all add: client_prepare_def)
    qed
    then show ?thesis using mode_text Inr by blast
  qed (use assms(1) mode_text in \<open>simp add: client_prepare_def\<close>)
qed (use assms(1) in \<open>simp add: client_prepare_def\<close>)

text \<open>
  C30. A topology file that cannot be opened, is not JSON or does not pass the validation never
  makes the client exit with status 1 as \<open>main\<close> intends: the thread of the ack server is not joined
  on these returns, so the process is terminated (or has undefined behaviour, where the
  validation reads a missing key).
\<close>

theorem rejected_file_terminates_client:
  assumes "client_cli argv = Cli_run path should ack_port run cfg"
    and "ack_server_starts mc (''0.0.0.0:'' @ to_string_int ack_port)"
    and "\<And>j t pm. config_file mc path = Parsed j \<Longrightarrow> jc_mode j = Inr t \<Longrightarrow> client_parse_mode t = Inr pm \<Longrightarrow>
      validate_config_before_configure j pm \<noteq> Inr None"
  shows "client_main mc argv \<in> {Client_terminated, Client_undefined}"
proof (cases "config_file mc path")
  case (Parsed j)
  have no_session: "client_prepare (configure_rpc mc) should j \<noteq> Ready topo calls"
    "client_prepare (configure_rpc mc) should j \<noteq> Not_configured n" for topo calls n
    using client_prepare_validated [of "configure_rpc mc" should j] assms(3) [OF Parsed] by fastforce+
  show ?thesis
    using assms(1,2) no_session Parsed
    by (auto simp: client_main_def Let_def split: client_start.splits fault.splits)
qed (use assms(1,2) in \<open>simp_all add: client_main_def Let_def\<close>)

theorem rejected_file_terminates_client_witness:
  "client_main (sample_machine CHAIN) [''missing.json'', ''true''] \<in> {Client_terminated, Client_undefined}"
proof (rule rejected_file_terminates_client)
  show "client_cli [''missing.json'', ''true''] =
      Cli_run ''missing.json'' True 60000 INTERACTIVE BenchmarkRunConfig_default" by code_simp
qed (simp_all add: sample_machine_def)

text \<open>
  C19. From a typed line to the head of the key: a client started on the topology file of a running
  deployment that reads one line \<open>write <key> <value>\<close> sends that key and value to the head of the
  key's chain, with its own address and request id 1. While the call is out the listener may serve
  any calls, acks among them (a chain of one node acknowledges before its head answers). Once the
  call is back the request is pending exactly when the head accepted it and none of those calls was
  an ack for it.
\<close>

theorem typed_write_reaches_head:
  assumes "valid_addrs as" "ports_fit as" "ack_server_starts mc ''0.0.0.0:60000''"
    and "config_file mc path = Parsed (deployment_json m as)" "\<And>target c. Status_ok (configure_rpc mc target c)"
    and "word_text key" "x \<noteq> []" "\<not> is_space (hd x)" "env_during env = listen calls"
    and "req = write_request key x (get_local_ip (hostname_known mc) (local_addresses mc) @ '':60000'') 1"
    and "env_write env (head_of m as key) req = (status, resp)"
  shows "\<exists>c. client_interactive mc [path, ''true''] [(''write'' @ '' '' @ key @ '' '' @ x, env)] = Some (0, c) \<and>
    pending_writes c = (if Status_ok status \<and> wresp_success resp \<and> 1 \<notin> acked_ids calls
      then [1 \<mapsto> \<lparr>pw_request_id = 1, pw_key = key, pw_value = x\<rparr>] else Map.empty)"
proof -
  let ?topo = "deployed_topology m as" and ?addr = "get_local_ip (hostname_known mc) (local_addresses mc) @ '':60000''"
  have args: "parse_run_mode_args [] = Inr (60000, INTERACTIVE, BenchmarkRunConfig_default)" by code_simp
  have "client_prepare (configure_rpc mc) True (deployment_json m as)
    = Ready ?topo (map (\<lambda>i. (pb_endpoint (as ! i), node_proto m False as i)) [0..<length as])"
    by (rule client_prepare_deployed [OF assms(1,2,5)])
  from client_main_ready [OF client_cli_run [OF args] _ assms(4) this] assms(3) to_string_default_port
  have session: "client_main mc [path, ''true''] = Session INTERACTIVE BenchmarkRunConfig_default ?topo ?addr
      (map (\<lambda>i. (pb_endpoint (as ! i), node_proto m False as i)) [0..<length as])" by simp
  obtain h where h: "resolve_write_target ?topo key = Some h" "ns_endpoint (topo_nodes ?topo ! h) = head_of m as key"
    using routes_deployed(1) [OF assms(1), of m key] by (auto simp: pointer_endpoint_def)
  have cmd: "parse_command (topo_mode ?topo) (''write'' @ '' '' @ key @ '' '' @ x) = Cmd_write key x"
    by (rule parse_write_command [OF assms(6-8)])
  have "run_interactive_loop ?topo ?addr [(''write'' @ '' '' @ key @ '' '' @ x, env)] Client_init
    = run_command env ?topo ?addr (Cmd_write key x) Client_init"
    by (simp only: run_interactive_loop.simps cmd command.case)
  moreover have "pending_writes (run_command env ?topo ?addr (Cmd_write key x) Client_init)
    = (if Status_ok status \<and> wresp_success resp \<and> 1 \<notin> acked_ids calls
       then [1 \<mapsto> \<lparr>pw_request_id = 1, pw_key = key, pw_value = x\<rparr>] else Map.empty)"
    using assms(9-11) h
    by (simp add: run_command_def do_write_def do_write_begin_def issue_write_def add_pending_def Client_init_def
        Let_def benchmark_note_write_issued_def with_metrics_def do_write_end_def write_failed_pending
        write_request_def pending_after_listen)
  ultimately show ?thesis
    unfolding client_interactive_def session by simp
qed

text \<open>The head accepts the write; meanwhile an ack for another request and a stray call come in.\<close>

definition sample_calls :: "(client_rpc \<times> int) list" where
  "sample_calls = [(Client_Ack (make_ack ''k'' 1 [] 7), 5), (Client_Read \<lparr>rreq_key = ''k''\<rparr>, 6)]"

definition sample_environment :: Environment where
  "sample_environment =
     \<lparr>env_write = (\<lambda>b req. if b = head_of CROWN sample_addrs (wreq_key req)
        then (Status_OK, accepted_response 1) else (unavailable, \<lparr>wresp_success = False, wresp_version = 0\<rparr>)),
      env_read = (\<lambda>_ _. (unavailable, sample_read)), env_during = listen sample_calls, env_random = 0, env_now = 0\<rparr>"

theorem typed_write_reaches_head_witness:
  "\<exists>c. client_interactive (sample_machine CROWN) [''config.json'', ''true''] [(''write k v'', sample_environment)] = Some (0, c) \<and>
    pending_writes c = [1 \<mapsto> \<lparr>pw_request_id = 1, pw_key = ''k'', pw_value = ''v''\<rparr>]"
proof -
  have ready: "ack_server_starts (sample_machine CROWN) ''0.0.0.0:60000''"
    "config_file (sample_machine CROWN) ''config.json'' = Parsed (deployment_json CROWN sample_addrs)"
    "\<And>target c. Status_ok (configure_rpc (sample_machine CROWN) target c)" "env_during sample_environment = listen sample_calls"
    "word_text ''k''" "''v'' \<noteq> []" "\<not> is_space (hd ''v'')"
    by (simp_all add: sample_machine_def sample_environment_def word_text_def is_space_def)
  have "env_write sample_environment (head_of CROWN sample_addrs ''k'')
      (write_request ''k'' ''v'' (get_local_ip (hostname_known (sample_machine CROWN))
        (local_addresses (sample_machine CROWN)) @ '':60000'') 1) = (Status_OK, accepted_response 1)"
    by (simp add: sample_environment_def write_request_def)
  from typed_write_reaches_head [OF sample_valid sample_ports ready(1-3,5-7,4) refl this] show ?thesis
    by (simp add: sample_calls_def make_ack_def)
qed

end
