(* ===== verification/Handler_Steps.thy ===== *)
theory Handler_Steps
  imports Server
begin

section \<open>The handlers of one server at the same time\<close>

text \<open>
  gRPC serves every request on a thread of its own. A handler is not one critical section but a
  sequence of them: the version is assigned under the store's lock, the write recorded under
  another acquisition of it, the task queued under the lock of the dispatcher. This theory takes
  the handlers apart into these steps (\<open>begin_request\<close>, \<open>run_locked\<close>) and shows that the steps run
  without interruption are the handlers of the other theories.

  Then what a step relies on and what it does to the versions of a key, in the same form for every
  step, and how far a server with open steps is behind one without (\<open>ahead\<close>, \<open>in_step\<close>).
\<close>

text \<open>
  One step is what a thread does under one lock: an operation on \<open>by_key_\<close>; the lookup or
  creation of a client stub; the Ack call to a client; dropping a stub after a failed call; queuing
  a propagate (with the successor stub as it is then); queuing an ack for the predecessor.
\<close>

datatype locked_step =
    Record_if_newer string string u64
  | Record string string u64
  | Commit_if_newer string string u64
  | Clean string u64
  | Client_stub string
  | Client_call stub AckRequest
  | Client_drop string
  | Forward PropagateRequest string
  | Pred_ack AckRequest

fun run_locked :: "locked_step \<Rightarrow> Replica \<Rightarrow> Replica" where
  "run_locked (Record_if_newer key value version) r = upd_store (record_local_write_if_newer key value version) r"
| "run_locked (Record key value version) r = upd_store (record_local_write key value version) r"
| "run_locked (Commit_if_newer key value version) r =
     upd_store (mark_version_committed_if_newer key value version) r"
| "run_locked (Clean key version) r = upd_store (mark_version_clean key version) r"
| "run_locked (Client_stub client_addr) r =
     r\<lparr>support := snd (get_or_create_client_stub client_addr (support r))\<rparr>"
| "run_locked (Client_call stub ack) r = r\<lparr>client_acks := client_acks r @ [(stub, ack)]\<rparr>"
| "run_locked (Client_drop client_addr) r =
     r\<lparr>support := (support r)\<lparr>client_stubs := (client_stubs (support r))(client_addr := None),
        client_channels := (client_channels (support r))(client_addr := None)\<rparr>\<rparr>"
| "run_locked (Forward req from_node) r = forward_async (successor_stub (support r)) req from_node r"
| "run_locked (Pred_ack ack) r = queue_ack ack r"

abbreviation run_thread :: "locked_step list \<Rightarrow> Replica \<Rightarrow> Replica" where
  "run_thread \<equiv> fold run_locked"

subsection \<open>The steps of each handler\<close>

text \<open>\<open>send_client_ack\<close>; the stub of an address is the one made for it.\<close>

definition client_ack_steps :: "Rpc \<Rightarrow> AckRequest \<Rightarrow> locked_step list" where
  "client_ack_steps rpc req =
     (if ack_client_addr req = [] then []
      else [Client_stub (ack_client_addr req), Client_call (ack_client_addr req) req] @
           (if \<not> Status_ok (ack_call rpc (ack_client_addr req) req) then [Client_drop (ack_client_addr req)]
            else []))"

text \<open>A write, once its version is assigned.\<close>

definition chain_write_steps :: "Rpc \<Rightarrow> WriteRequest \<Rightarrow> Node \<Rightarrow> u64 \<Rightarrow> locked_step list" where
  "chain_write_steps rpc req node version =
     Record_if_newer (wreq_key req) (wreq_value req) version #
     (if Node_is_tail node
      then Commit_if_newer (wreq_key req) (wreq_value req) version #
           client_ack_steps rpc
             (make_ack (wreq_key req) version (wreq_client_addr req) (wreq_request_id req))
      else [Forward (make_propagate req version (Node_id node)) (chain_node_label node)])"

definition chain_propagate_steps :: "Rpc \<Rightarrow> PropagateRequest \<Rightarrow> Node \<Rightarrow> locked_step list" where
  "chain_propagate_steps rpc req node =
     Record_if_newer (prop_key req) (prop_value req) (prop_version req) #
     (if Node_is_tail node
      then Commit_if_newer (prop_key req) (prop_value req) (prop_version req) #
           client_ack_steps rpc
             (make_ack (prop_key req) (prop_version req) (prop_client_addr req) (prop_request_id req))
      else [Forward req (chain_node_label node)])"

definition craq_write_steps :: "Rpc \<Rightarrow> WriteRequest \<Rightarrow> Node \<Rightarrow> u64 \<Rightarrow> locked_step list" where
  "craq_write_steps rpc req node version =
     Record (wreq_key req) (wreq_value req) version #
     (if Node_is_tail node
      then Clean (wreq_key req) version #
           client_ack_steps rpc
             (make_ack (wreq_key req) version (wreq_client_addr req) (wreq_request_id req))
      else [Forward (make_propagate req version (Node_id node)) (craq_node_label node)])"

definition craq_propagate_steps :: "Rpc \<Rightarrow> PropagateRequest \<Rightarrow> Node \<Rightarrow> locked_step list" where
  "craq_propagate_steps rpc req node =
     (let ack = make_ack (prop_key req) (prop_version req) (prop_client_addr req) (prop_request_id req)
      in Record (prop_key req) (prop_value req) (prop_version req) #
         (if Node_is_tail node
          then Clean (prop_key req) (prop_version req) # client_ack_steps rpc ack @
               (if \<not> Node_is_head node then [Pred_ack ack] else [])
          else [Forward req (craq_node_label node)]))"

definition craq_ack_steps :: "AckRequest \<Rightarrow> Node \<Rightarrow> locked_step list" where
  "craq_ack_steps req node =
     Clean (ack_key req) (ack_version req) # (if Node_is_head node then [] else [Pred_ack req])"

definition crown_write_steps :: "Rpc \<Rightarrow> WriteRequest \<Rightarrow> Node \<Rightarrow> u64 \<Rightarrow> locked_step list" where
  "crown_write_steps rpc req node version =
     Record_if_newer (wreq_key req) (wreq_value req) version #
     (if crown_node_count (config node) \<le> 1
      then Commit_if_newer (wreq_key req) (wreq_value req) version #
           client_ack_steps rpc
             (make_ack (wreq_key req) version (wreq_client_addr req) (wreq_request_id req))
      else [Forward (make_propagate req version (to_string_int (Node_index node))) (crown_node_label node)])"

definition crown_propagate_steps :: "Rpc \<Rightarrow> PropagateRequest \<Rightarrow> Node \<Rightarrow> locked_step list" where
  "crown_propagate_steps rpc req node =
     (if prop_version req = 0 then []
      else Record_if_newer (prop_key req) (prop_value req) (prop_version req) #
           (case is_request_tail_node node req of
              Inl e \<Rightarrow> []
            | Inr at_tail \<Rightarrow>
                if at_tail
                then Commit_if_newer (prop_key req) (prop_value req) (prop_version req) #
                     client_ack_steps rpc
                       (make_ack (prop_key req) (prop_version req) (prop_client_addr req) (prop_request_id req))
                else [Forward req (crown_node_label node)]))"

definition accepts_writes :: "ReplicationMode \<Rightarrow> Node \<Rightarrow> bool" where
  "accepts_writes m node = (case m of CHAIN \<Rightarrow> Node_is_head node | CRAQ \<Rightarrow> Node_is_head node | CROWN \<Rightarrow> True)"

definition write_steps :: "ReplicationMode \<Rightarrow> Rpc \<Rightarrow> WriteRequest \<Rightarrow> Node \<Rightarrow> u64 \<Rightarrow> locked_step list" where
  "write_steps m =
     (case m of CHAIN \<Rightarrow> chain_write_steps | CRAQ \<Rightarrow> craq_write_steps | CROWN \<Rightarrow> crown_write_steps)"

definition propagate_steps :: "ReplicationMode \<Rightarrow> Rpc \<Rightarrow> PropagateRequest \<Rightarrow> Node \<Rightarrow> locked_step list" where
  "propagate_steps m =
     (case m of CHAIN \<Rightarrow> chain_propagate_steps | CRAQ \<Rightarrow> craq_propagate_steps | CROWN \<Rightarrow> crown_propagate_steps)"

text \<open>
  A request begins: a write that is accepted takes its version, the first critical section of
  \<open>handle_write\<close>; the thread has the other steps before it. A refused request has none.
\<close>

fun begin_request ::
    "ReplicationMode \<Rightarrow> Node \<Rightarrow> Rpc \<times> node_request \<Rightarrow> Replica \<Rightarrow> locked_step list \<times> Replica" where
  "begin_request m node (rpc, Write_req w) r =
     (if accepts_writes m node
      then let (version, r) = take_version (wreq_key w) r in (write_steps m rpc w node version, r)
      else ([], r))"
| "begin_request m node (rpc, Propagate_req p) r = (propagate_steps m rpc p node, r)"
| "begin_request m node (rpc, Ack_req a) r = (if m = CRAQ then craq_ack_steps a node else [], r)"

text \<open>What the caller of a write is told, fixed once the version is taken, and by the whole handler.\<close>

definition begin_answer ::
    "ReplicationMode \<Rightarrow> Node \<Rightarrow> Rpc \<times> node_request \<Rightarrow> Replica \<Rightarrow> (cxx_exn + WriteResponse) option" where
  "begin_answer m node q r =
     (case snd q of
        Write_req w \<Rightarrow> Some (if accepts_writes m node then Inr (accepted_response (fst (take_version (wreq_key w) r)))
          else fst (strategy_handle_write m (fst q) w node r))
      | _ \<Rightarrow> None)"

definition whole_answer ::
    "ReplicationMode \<Rightarrow> Node \<Rightarrow> Rpc \<times> node_request \<Rightarrow> Replica \<Rightarrow> (cxx_exn + WriteResponse) option" where
  "whole_answer m node q r =
     (case snd q of Write_req w \<Rightarrow> Some (fst (strategy_handle_write m (fst q) w node r)) | _ \<Rightarrow> None)"

definition serve_whole :: "ReplicationMode \<Rightarrow> Node \<Rightarrow> Rpc \<times> node_request \<Rightarrow> Replica \<Rightarrow> Replica" where
  "serve_whole m node q =
     serve (\<lambda>w. strategy_handle_write m (fst q) w node) (\<lambda>p. strategy_handle_propagate m (fst q) p node)
       (\<lambda>a. strategy_handle_ack m a node) (snd q)"

subsection \<open>Run without interruption, the steps are the handler\<close>

lemma client_ack_steps_run:
  "wf_client_cache (support r) \<Longrightarrow> run_thread (client_ack_steps rpc ack) r = notify_client rpc ack r"
  using get_or_create_client_stub_wf(1) [of "support r" "ack_client_addr ack"]
  by (auto simp: client_ack_steps_def notify_client_def send_client_ack_def Let_def split: prod.splits)

lemmas step_list_defs = chain_write_steps_def chain_propagate_steps_def craq_write_steps_def
  craq_propagate_steps_def craq_ack_steps_def crown_write_steps_def crown_propagate_steps_def

lemmas request_step_defs = write_steps_def propagate_steps_def accepts_writes_def step_list_defs

lemma steps_are_the_handler:
  assumes "wf_client_cache (support r)" "begin_request m node q r = (steps, r')"
  shows "run_thread steps r' = serve_whole m node q r"
proof (cases q)
  case (Pair rpc req)
  show ?thesis
  proof (cases req)
    case (Write_req w)
    show ?thesis using assms
      by (cases m) (auto simp: Pair Write_req serve_whole_def strategy_dispatch_defs request_step_defs
          chain_handler_defs craq_handler_defs crown_handler_defs split_beta Let_def client_ack_steps_run)
  next
    case (Propagate_req p)
    show ?thesis using assms
      by (cases m) (auto simp: Pair Propagate_req serve_whole_def strategy_dispatch_defs request_step_defs
          chain_handler_defs craq_handler_defs crown_handler_defs Let_def client_ack_steps_run split: sum.splits)
  next
    case (Ack_req a)
    show ?thesis using assms
      by (cases m) (auto simp: Pair Ack_req serve_whole_def strategy_dispatch_defs request_step_defs
          chain_handler_defs craq_handler_defs crown_handler_defs Let_def)
  qed
qed


lemma begin_answer_whole: "begin_answer m node q r = whole_answer m node q r"
  by (cases "snd q"; cases m) (auto simp: begin_answer_def whole_answer_def accepts_writes_def
      strategy_handle_write_def chain_write_result craq_write_result crown_write_result)

text \<open>An answer depends on the state only through the version that is next.\<close>

lemma begin_answer_cong:
  assumes "\<And>w. snd q = Write_req w \<Longrightarrow> accepts_writes m node \<Longrightarrow>
    next_version (kstate r (wreq_key w)) = next_version (kstate r1 (wreq_key w))"
  shows "begin_answer m node q r = begin_answer m node q r1"
  using assms by (cases "snd q"; cases m)
    (auto simp: begin_answer_def accepts_writes_def strategy_handle_write_def chain_write_reject craq_write_reject)

subsection \<open>Facts a step relies on and establishes\<close>

text \<open>
  What the earlier steps of a thread leave behind, and no step of another thread undoes: a version
  is held (clean, pending or superseded), seen, or committed.
\<close>

datatype fact = Held string u64 | Seen string u64 | Committed string u64

fun holds :: "Replica \<Rightarrow> fact \<Rightarrow> bool" where
  "holds r (Held k v) \<longleftrightarrow> held v (kstate r k)"
| "holds r (Seen k v) \<longleftrightarrow> v \<le> latest_seen_version (kstate r k)"
| "holds r (Committed k v) \<longleftrightarrow> v \<le> committed_version (kstate r k)"

fun needs :: "locked_step \<Rightarrow> fact set" where
  "needs (Clean k v) = {Held k v}"
| "needs (Client_call stub ack) = {Committed (ack_key ack) (ack_version ack)}"
| "needs (Forward req from_node) = {Seen (prop_key req) (prop_version req)}"
| "needs (Pred_ack ack) = {Committed (ack_key ack) (ack_version ack)}"
| "needs _ = {}"

fun gives :: "locked_step \<Rightarrow> fact set" where
  "gives (Record_if_newer k x v) = {Seen k v}"
| "gives (Record k x v) = {Seen k v, Held k v}"
| "gives (Commit_if_newer k x v) = {Seen k v, Committed k v}"
| "gives (Clean k v) = {Committed k v}"
| "gives _ = {}"

fun ready :: "fact set \<Rightarrow> locked_step list \<Rightarrow> bool" where
  "ready K [] \<longleftrightarrow> True"
| "ready K (s # ss) \<longleftrightarrow> needs s \<subseteq> K \<and> ready (K \<union> gives s) ss"

lemma ready_mono: "ready K ss \<Longrightarrow> K \<subseteq> K' \<Longrightarrow> ready K' ss"
proof (induction ss arbitrary: K K')
  case (Cons s ss)
  then show ?case using Cons.IH [of "K \<union> gives s" "K' \<union> gives s"] by auto
qed simp

lemma ready_append: "ready K (xs @ ys) \<longleftrightarrow> ready K xs \<and> ready (K \<union> \<Union> (gives ` set xs)) ys"
  by (induction xs arbitrary: K) (auto simp: Un_assoc)

lemma run_locked_kstate:
  "kstate (run_locked s r) k =
     (case s of
        Record_if_newer key x v \<Rightarrow> key_state (record_local_write_if_newer key x v (store_of r)) k
      | Record key x v \<Rightarrow> key_state (record_local_write key x v (store_of r)) k
      | Commit_if_newer key x v \<Rightarrow> key_state (mark_version_committed_if_newer key x v (store_of r)) k
      | Clean key v \<Rightarrow> key_state (mark_version_clean key v (store_of r)) k
      | _ \<Rightarrow> kstate r k)"
  by (cases s) auto

text \<open>What one step does to the versions of a key.\<close>

definition bump :: "(string \<times> u64) option \<Rightarrow> string \<Rightarrow> u64 \<Rightarrow> u64" where
  "bump p k n = (case p of None \<Rightarrow> n | Some (key, v) \<Rightarrow> if key = k then max n v else n)"

fun raises :: "locked_step \<Rightarrow> (string \<times> u64) option" where
  "raises (Record_if_newer k x v) = Some (k, v)"
| "raises (Record k x v) = Some (k, v)"
| "raises (Commit_if_newer k x v) = Some (k, v)"
| "raises (Clean k v) = Some (k, v)"
| "raises _ = None"

fun shows_version :: "locked_step \<Rightarrow> (string \<times> u64) option" where
  "shows_version (Record_if_newer k x v) = Some (k, v)"
| "shows_version (Record k x v) = Some (k, v)"
| "shows_version (Commit_if_newer k x v) = Some (k, v)"
| "shows_version _ = None"

fun commits :: "locked_step \<Rightarrow> (string \<times> u64) option" where
  "commits (Commit_if_newer k x v) = Some (k, v)"
| "commits (Clean k v) = Some (k, v)"
| "commits _ = None"

fun keeps :: "locked_step \<Rightarrow> (string \<times> u64) option" where
  "keeps (Record k x v) = Some (k, v)"
| "keeps _ = None"

text \<open>A step carries the value its version was issued with.\<close>

fun issued_step :: "(string \<Rightarrow> u64 \<rightharpoonup> string) \<Rightarrow> locked_step \<Rightarrow> bool" where
  "issued_step log (Record_if_newer k x v) \<longleftrightarrow> log k v = Some x"
| "issued_step log (Record k x v) \<longleftrightarrow> log k v = Some x"
| "issued_step log (Commit_if_newer k x v) \<longleftrightarrow> log k v = Some x"
| "issued_step log _ \<longleftrightarrow> True"

lemma bump_simps [simp]:
  "bump None k n = n" "bump (Some (k, v)) k n = max n v" "key \<noteq> k \<Longrightarrow> bump (Some (key, v)) k n = n"
  by (simp_all add: bump_def)

lemma bump_ge: "n \<le> bump p k n"
  by (simp add: bump_def split: option.split)

lemma record_committed:
  "committed_version (key_state (record_local_write key x v m) k) = committed_version (key_state m k)"
  "committed_version (key_state (record_local_write_if_newer key x v m) k) = committed_version (key_state m k)"
  by (cases "k = key"; simp add: key_state_other_key key_state_record key_state_record_newer)+

lemma run_locked_versions:
  "next_version (kstate (run_locked s r) k) = bump (raises s) k (next_version (kstate r k))"
  "latest_seen_version (kstate (run_locked s r) k) = bump (shows_version s) k (latest_seen_version (kstate r k))"
  "needs s \<subseteq> Collect (holds r) \<Longrightarrow>
    committed_version (kstate (run_locked s r) k) = bump (commits s) k (committed_version (kstate r k))"
proof -
  have other: "key \<noteq> k \<Longrightarrow> k \<noteq> key" for key :: string by simp
  show "next_version (kstate (run_locked s r) k) = bump (raises s) k (next_version (kstate r k))"
    by (cases s) (auto simp: run_locked_kstate bump_def key_state_other_key [OF other] key_state_record
        key_state_record_newer key_state_committed_newer key_state_clean)
  have "latest_seen_version (key_state (mark_version_clean key v m) k) = latest_seen_version (key_state m k)"
    for key v m by (cases "k = key") (simp_all add: key_state_other_key key_state_clean)
  then show "latest_seen_version (kstate (run_locked s r) k)
    = bump (shows_version s) k (latest_seen_version (kstate r k))"
    by (cases s) (auto simp: run_locked_kstate bump_def key_state_other_key [OF other] key_state_record
        key_state_record_newer key_state_committed_newer key_state_clean)
  show "committed_version (kstate (run_locked s r) k) = bump (commits s) k (committed_version (kstate r k))"
    if "needs s \<subseteq> Collect (holds r)"
    using that by (cases s) (auto simp: run_locked_kstate bump_def key_state_other_key [OF other] record_committed
        key_state_committed_newer key_state_clean held_def max_def)
qed

lemma run_locked_pending:
  assumes "issued_step log s" "committed_version (kstate (run_locked s r) k) < v"
  shows "pending_versions (kstate (run_locked s r) k) v
    = (if keeps s = Some (k, v) then log k v else pending_versions (kstate r k) v)"
proof -
  note at = key_state_other_key key_state_record key_state_record_newer
  have "pending_versions (key_state (record_local_write key x w m) k) v
      = (if key = k \<and> w = v then Some x else pending_versions (key_state m k) v)"
    "pending_versions (key_state (record_local_write_if_newer key x w m) k) v = pending_versions (key_state m k) v"
    for m :: store and key x :: string and w :: u64
    by (cases "k = key"; simp add: at)+
  moreover have "pending_versions (key_state (mark_version_clean key w m) k) v = pending_versions (key_state m k) v"
    if "committed_version (key_state (mark_version_clean key w m) k) < v" for m :: store and key :: string and w :: u64
    using that by (cases "k = key") (auto simp: at key_state_clean(6) erase_upto_def not_le [symmetric])
  moreover have "pending_versions (key_state (mark_version_committed_if_newer key x w m) k) v
      = pending_versions (key_state m k) v"
    if "committed_version (key_state (mark_version_committed_if_newer key x w m) k) < v"
    for m :: store and key x :: string and w :: u64
    using that by (cases "k = key") (auto simp: at key_state_committed_newer erase_upto_def not_le [symmetric])
  ultimately show ?thesis using assms by (cases s) auto
qed

lemma run_locked_held: "held v (kstate r k) \<Longrightarrow> held v (kstate (run_locked s r) k)"
  by (cases s) (auto simp: run_locked_kstate intro: held_ops)

lemma run_locked_committed_mono:
  "committed_version (kstate r k) \<le> committed_version (kstate (run_locked s r) k)"
proof -
  have "committed_version (key_state m k) \<le> committed_version (key_state (mark_version_clean key v m) k)"
    "committed_version (key_state m k) \<le> committed_version (key_state (mark_version_committed_if_newer key x v m) k)"
    for m :: store and key x :: string and v :: u64
    by (cases "k = key"; simp add: key_state_other_key key_state_clean key_state_committed_newer)+
  then show ?thesis by (cases s) (simp_all add: record_committed)
qed

lemma run_locked_holds: "holds r f \<Longrightarrow> holds (run_locked s r) f"
  using run_locked_held run_locked_committed_mono order.trans [OF _ bump_ge] run_locked_committed_mono
  by (cases f) (auto simp: run_locked_versions(2) intro: order.trans)

lemma run_locked_gives:
  assumes "needs s \<subseteq> Collect (holds r)" "f \<in> gives s"
  shows "holds (run_locked s r) f"
proof -
  have "held v (kstate (run_locked (Record k x v) r) k)" for k x v
    by (simp add: held_def key_state_record)
  with assms(2) run_locked_versions(2) [of s r] run_locked_versions(3) [OF assms(1)] show ?thesis
    by (cases s) auto
qed

lemma ready_moves: "ready (Collect (holds r)) (s # ss) \<Longrightarrow> ready (Collect (holds (run_locked s r))) ss"
  using run_locked_holds [of r _ s] run_locked_gives [of s r] by (auto elim!: ready_mono)

lemma ready_stays: "ready (Collect (holds r)) ss \<Longrightarrow> ready (Collect (holds (run_locked s r))) ss"
  using run_locked_holds [of r _ s] by (auto elim!: ready_mono)


subsection \<open>Steps still to be made\<close>

text \<open>
  The interleaved server lags behind the one that serves every request at once by the steps its
  threads still have to make. \<open>ahead\<close> says by how much, for one key: \<open>R\<close> are the open steps, \<open>ks\<close>
  the state without and \<open>ks1\<close> the state with them.
\<close>

definition versions_of :: "(locked_step \<Rightarrow> (string \<times> u64) option) \<Rightarrow> string \<Rightarrow> locked_step multiset \<Rightarrow> u64 set" where
  "versions_of f k R = {v. \<exists>s \<in># R. f s = Some (k, v)}"

definition top_version :: "u64 \<Rightarrow> u64 set \<Rightarrow> u64" where
  "top_version n A = Max (insert n A)"

definition ahead :: "(string \<Rightarrow> u64 \<rightharpoonup> string) \<Rightarrow> locked_step multiset \<Rightarrow> string \<Rightarrow> KeyState \<Rightarrow> KeyState \<Rightarrow> bool" where
  "ahead log R k ks ks1 \<longleftrightarrow>
     next_version ks1 = top_version (next_version ks) (versions_of raises k R) \<and>
     latest_seen_version ks1 = top_version (latest_seen_version ks) (versions_of shows_version k R) \<and>
     committed_version ks1 = top_version (committed_version ks) (versions_of commits k R) \<and>
     (\<forall>v. committed_version ks1 < v \<longrightarrow> pending_versions ks1 v
        = (if v \<in> versions_of keeps k R then log k v else pending_versions ks v))"

lemma versions_of_simps [simp]:
  "versions_of f k {#} = {}"
  "versions_of f k (add_mset s R)
    = (case f s of None \<Rightarrow> versions_of f k R
       | Some (key, v) \<Rightarrow> if key = k then insert v (versions_of f k R) else versions_of f k R)"
  by (auto simp: versions_of_def split: option.split)

lemma versions_of_finite [simp]: "finite (versions_of f k R)"
  by (induction R) (auto split: option.split)

lemma top_version_empty [simp]: "top_version n {} = n"
  by (simp add: top_version_def)

lemma top_version_insert: "finite A \<Longrightarrow> top_version n (insert v A) = max (top_version n A) v"
  by (cases "A = {}") (simp_all add: top_version_def max.commute max.left_commute)

lemma top_version_ge: "finite A \<Longrightarrow> n \<le> top_version n A"
  by (simp add: top_version_def)

lemma top_version_max: "finite A \<Longrightarrow> top_version (max n v) A = max (top_version n A) v"
  by (cases "A = {}") (simp_all add: top_version_def max.assoc max.commute max.left_commute)

lemma top_version_add:
  "top_version n (versions_of f k (add_mset s R)) = bump (f s) k (top_version n (versions_of f k R))"
  "top_version (bump (f s) k n) (versions_of f k R) = bump (f s) k (top_version n (versions_of f k R))"
  by (auto simp: bump_def top_version_insert top_version_max split: option.split)

lemma versions_of_le: "\<forall>v \<in> versions_of f k R. v \<le> n \<Longrightarrow> top_version n (versions_of f k R) = n"
  by (simp add: top_version_def Max_insert2)

lemma ahead_refl: "ahead log {#} k ks ks"
  by (simp add: ahead_def)

lemma keeps_versions:
  "v \<in> versions_of keeps k (add_mset s R) \<longleftrightarrow> keeps s = Some (k, v) \<or> v \<in> versions_of keeps k R"
  by (auto split: option.split)

text \<open>The server makes one of the open steps; the other one makes a step more.\<close>

lemma ahead_step:
  assumes "ahead log (add_mset s R) k (kstate r k) ks1" "issued_step log s" "needs s \<subseteq> Collect (holds r)"
  shows "ahead log R k (kstate (run_locked s r) k) ks1"
proof -
  note open_steps = assms(1) [unfolded ahead_def top_version_add]
  have "committed_version (kstate (run_locked s r) k) \<le> committed_version ks1"
    using open_steps top_version_ge [of "versions_of commits k R"]
    by (simp add: run_locked_versions(3) [OF assms(3)] top_version_add(2) [symmetric])
  then have "pending_versions (kstate (run_locked s r) k) v
      = (if keeps s = Some (k, v) then log k v else pending_versions (kstate r k) v)"
    if "committed_version ks1 < v" for v
    using that by (intro run_locked_pending [OF assms(2)]) simp
  then show ?thesis
    using open_steps unfolding ahead_def
    by (auto simp: run_locked_versions(1,2) run_locked_versions(3) [OF assms(3)] top_version_add(2)
        keeps_versions simp del: versions_of_simps)
qed

lemma ahead_one_more:
  assumes "ahead log R k ks (kstate r1 k)" "issued_step log s" "needs s \<subseteq> Collect (holds r1)"
  shows "ahead log (add_mset s R) k ks (kstate (run_locked s r1) k)"
proof -
  note open_steps = assms(1) [unfolded ahead_def]
  have "pending_versions (kstate (run_locked s r1) k) v
      = (if v \<in> versions_of keeps k (add_mset s R) then log k v else pending_versions ks v)"
    if "committed_version (kstate (run_locked s r1) k) < v" for v
    using run_locked_pending [OF assms(2) that] open_steps run_locked_committed_mono [of r1 k s] that
    by (auto simp: keeps_versions simp del: versions_of_simps dest: order.strict_trans1)
  then show ?thesis
    using open_steps unfolding ahead_def top_version_add(1)
    by (auto simp: run_locked_versions(1,2) run_locked_versions(3) [OF assms(3)] simp del: versions_of_simps)
qed

text \<open>What holds without the open steps holds with them.\<close>

lemma ahead_holds:
  assumes "\<And>k. ahead log R k (kstate r k) (kstate r1 k)" "holds r f"
    and "\<And>k v. v \<in> versions_of keeps k R \<Longrightarrow> log k v \<noteq> None"
  shows "holds r1 f"
proof (cases f)
  case (Held k v)
  show ?thesis
  proof (cases "v \<le> committed_version (kstate r1 k)")
    case False
    then have "committed_version (kstate r1 k) < v" "\<not> v \<le> committed_version (kstate r k)"
      using assms(1) [of k] top_version_ge [of "versions_of commits k R" "committed_version (kstate r k)"]
      by (auto simp: ahead_def)
    then show ?thesis
      using assms(1) [of k] assms(2) assms(3) [of v k] by (auto simp: Held held_def ahead_def)
  qed (simp add: Held held_def)
qed (use assms(1,2) order.trans [OF _ top_version_ge] in \<open>auto simp: ahead_def\<close>)


subsection \<open>What the steps send\<close>

fun tasks_of :: "stub option \<Rightarrow> locked_step \<Rightarrow> PropagateTask multiset" where
  "tasks_of (Some succ) (Forward req from_node) =
     {#\<lparr>task_successor = succ, task_req = req, task_from = from_node\<rparr>#}"
| "tasks_of _ _ = {#}"

fun client_calls_of :: "locked_step \<Rightarrow> (stub \<times> AckRequest) multiset" where
  "client_calls_of (Client_call stub ack) = {#(stub, ack)#}"
| "client_calls_of _ = {#}"

fun pred_acks_of :: "locked_step \<Rightarrow> AckRequest multiset" where
  "pred_acks_of (Pred_ack ack) = {#ack#}"
| "pred_acks_of _ = {#}"

lemma run_locked_sends:
  "mset (queue (dispatcher (run_locked s r)))
    = mset (queue (dispatcher r)) + tasks_of (successor_stub (support r)) s"
  "mset (client_acks (run_locked s r)) = mset (client_acks r) + client_calls_of s"
  "mset (pred_ack_queue (support (run_locked s r))) = mset (pred_ack_queue (support r)) + pred_acks_of s"
  "successor_stub (support (run_locked s r)) = successor_stub (support r)"
  by (cases s; auto split: option.split)+

lemma wf_client_cache_drop:
  "wf_client_cache s \<Longrightarrow>
    wf_client_cache (s\<lparr>client_stubs := (client_stubs s)(a := None), client_channels := (client_channels s)(a := None)\<rparr>)"
  by (auto simp: wf_client_cache_def)

lemma run_locked_cache:
  "wf_client_cache (support r) \<Longrightarrow> wf_client_cache (support (run_locked s r))"
  by (cases s) (simp_all add: get_or_create_client_stub_wf wf_client_cache_drop)

lemma run_locked_wf: "wf_key (kstate r k) \<Longrightarrow> wf_key (kstate (run_locked s r) k)"
  by (cases s) (auto intro: wf_key_ops)

lemma run_locked_agrees:
  assumes "\<And>k. agrees (log k) (kstate r k)" "issued_step log s"
  shows "agrees (log k) (kstate (run_locked s r) k)"
proof -
  have "agrees (log k) (key_state (mark_version_clean key v (store_of r)) k)" for key v
    using assms(1) [of key] assms(1) [of k]
    by (cases "k = key") (auto simp: agrees_def key_state_clean key_state_other_key max_def)
  moreover have "agrees (log k) (key_state (mark_version_committed_if_newer key x v (store_of r)) k)"
    if "log key v = Some x" for key x v
    using assms(1) [of key] assms(1) [of k] that
    by (cases "k = key") (auto simp: agrees_def key_state_committed_newer key_state_other_key max_def)
  moreover have "agrees (log k) (key_state (record_local_write key x v (store_of r)) k)"
    "agrees (log k) (key_state (record_local_write_if_newer key x v (store_of r)) k)"
    if "log key v = Some x" for key x v
    using versioned.receive_agrees [of "log key" "store_of r" key v x] newest.receive_agrees [of "log key" "store_of r" key v x]
      assms(1) [of key] assms(1) [of k] that
    by (cases "k = key"; simp add: key_state_other_key)+
  ultimately show ?thesis using assms by (cases s) auto
qed

definition in_step ::
    "(string \<Rightarrow> u64 \<rightharpoonup> string) \<Rightarrow> PropagateTask list \<Rightarrow> AckRequest list \<Rightarrow>
     Replica \<Rightarrow> locked_step multiset \<Rightarrow> Replica \<Rightarrow> bool" where
  "in_step log sent_tasks sent_acks r R r1 \<longleftrightarrow>
     (\<forall>k. ahead log R k (kstate r k) (kstate r1 k)) \<and>
     successor_stub (support r1) = successor_stub (support r) \<and>
     mset (queue (dispatcher r1)) = mset sent_tasks + mset (queue (dispatcher r)) +
       sum_mset (image_mset (tasks_of (successor_stub (support r))) R) \<and>
     mset (client_acks r1) = mset (client_acks r) + sum_mset (image_mset client_calls_of R) \<and>
     mset (pred_ack_queue (support r1)) = mset sent_acks + mset (pred_ack_queue (support r)) +
       sum_mset (image_mset pred_acks_of R)"

lemma in_step_refl: "in_step log [] [] r {#} r"
  by (simp add: in_step_def ahead_refl)

lemma in_step_moves:
  assumes "in_step log ts as r (add_mset s R) r1" "issued_step log s" "needs s \<subseteq> Collect (holds r)"
  shows "in_step log ts as (run_locked s r) R r1"
  using assms(1) ahead_step [OF _ assms(2,3), of R] unfolding in_step_def
  by (simp add: run_locked_sends del: versions_of_simps)

lemma in_step_more:
  assumes "in_step log ts as r R r1" "issued_step log s" "needs s \<subseteq> Collect (holds r1)"
  shows "in_step log ts as r (add_mset s R) (run_locked s r1)"
  using assms(1) ahead_one_more [OF _ assms(2,3), of R] unfolding in_step_def
  by (simp add: run_locked_sends del: versions_of_simps)

lemma in_step_thread:
  assumes "in_step log ts as r R r1" "\<forall>s \<in> set ss. issued_step log s" "ready (Collect (holds r1)) ss"
  shows "in_step log ts as r (mset ss + R) (run_thread ss r1)"
  using assms
proof (induction ss arbitrary: r1 R)
  case (Cons s ss)
  have "in_step log ts as r (add_mset s R) (run_locked s r1)"
    using Cons.prems by (intro in_step_more) auto
  from Cons.IH [OF this _ ready_moves] Cons.prems show ?case by simp
qed simp

end
