(* ===== verification/Handler_Interleaving.thy ===== *)
theory Handler_Interleaving
  imports Handler_Steps
begin

section \<open>The handlers of one server at the same time\<close>

text \<open>
  Any number of handlers of one server, taken apart in Handler\_Steps, run interleaved with each other
  and with its propagate and ack workers (\<open>busy_run\<close>). Shown: what comes out is what comes out when
  the requests are served one at a time, and nothing is announced to a client or to a neighbour
  before it is done here. At the end a run at a CRAQ tail in which one propagate overtakes another.
\<close>

subsection \<open>Threads, workers and requests interleaved\<close>

record Busy =
  busy_replica :: Replica
  threads :: "locked_step list list"
  begun :: "(Rpc \<times> node_request) list"
  answers :: "(cxx_exn + WriteResponse) option list"
  sent_tasks :: "PropagateTask list"
  sent_acks :: "AckRequest list"

text \<open>
  One server from the state \<open>r0\<close> on: a request begins (if \<open>ok\<close> admits it then), a handler thread
  makes its next step, a propagate worker moves, or the ack worker takes a turn.
\<close>

inductive busy_run ::
    "(Replica \<Rightarrow> Rpc \<times> node_request \<Rightarrow> bool) \<Rightarrow> ReplicationMode \<Rightarrow> Node \<Rightarrow> Replica \<Rightarrow> Busy \<Rightarrow> bool"
  for ok :: "Replica \<Rightarrow> Rpc \<times> node_request \<Rightarrow> bool" and m :: ReplicationMode and node :: Node and r0 :: Replica where
  all_idle: "busy_run ok m node r0
    \<lparr>busy_replica = r0, threads = [], begun = [], answers = [], sent_tasks = [], sent_acks = []\<rparr>"
| request_begins: "busy_run ok m node r0 b \<Longrightarrow> ok (busy_replica b) q \<Longrightarrow>
    begin_request m node q (busy_replica b) = (steps, r') \<Longrightarrow>
    busy_run ok m node r0 (b\<lparr>busy_replica := r', threads := threads b @ [steps], begun := begun b @ [q],
      answers := answers b @ [begin_answer m node q (busy_replica b)]\<rparr>)"
| thread_moves: "busy_run ok m node r0 b \<Longrightarrow> threads b = us @ (s # rest) # vs \<Longrightarrow>
    busy_run ok m node r0 (b\<lparr>busy_replica := run_locked s (busy_replica b), threads := us @ rest # vs\<rparr>)"
| worker_moves: "busy_run ok m node r0 b \<Longrightarrow> disp_step (dispatcher (busy_replica b)) l d' \<Longrightarrow> enqueued1 l = [] \<Longrightarrow>
    busy_run ok m node r0 (b\<lparr>busy_replica := (busy_replica b)\<lparr>dispatcher := d'\<rparr>,
      sent_tasks := sent_tasks b @ taken1 l\<rparr>)"
| ack_worker_moves: "busy_run ok m node r0 b \<Longrightarrow> ack_worker_turn (support (busy_replica b)) = (turn, s') \<Longrightarrow>
    busy_run ok m node r0 (b\<lparr>busy_replica := (busy_replica b)\<lparr>support := s'\<rparr>,
      sent_acks := sent_acks b @ turn_taken turn\<rparr>)"

text \<open>
  The requests a node of a deployed chain gets. \<open>W\<close> are the keys it is the head of: it alone gives
  them versions, so they are not propagated to it. A version stands for one value (\<open>log\<close>). In CRAQ
  an ack comes back for a version that has been recorded here and passed on.
\<close>

definition request_ok ::
    "(string \<Rightarrow> u64 \<rightharpoonup> string) \<Rightarrow> string set \<Rightarrow> ReplicationMode \<Rightarrow> Node \<Rightarrow> Replica \<Rightarrow> Rpc \<times> node_request \<Rightarrow> bool" where
  "request_ok log W m node r q =
     (case snd q of
        Write_req w \<Rightarrow> accepts_writes m node \<longrightarrow> wreq_key w \<in> W \<and> next_version (kstate r (wreq_key w)) \<noteq> -1 \<and>
          log (wreq_key w) (next_version (kstate r (wreq_key w)) + 1) = Some (wreq_value w)
      | Propagate_req p \<Rightarrow> prop_key p \<notin> W \<and> log (prop_key p) (prop_version p) = Some (prop_value p)
      | Ack_req a \<Rightarrow> m = CRAQ \<longrightarrow> held (ack_version a) (kstate r (ack_key a)))"

definition wf_keys :: "string set \<Rightarrow> Replica \<Rightarrow> bool" where
  "wf_keys W r \<longleftrightarrow> (\<forall>k \<in> W. wf_key (kstate r k))"

lemma wf_keysD: "wf_keys W r \<Longrightarrow> k \<in> W \<Longrightarrow> wf_key (kstate r k)"
  by (simp add: wf_keys_def)

definition below_next :: "string set \<Rightarrow> Replica \<Rightarrow> locked_step \<Rightarrow> bool" where
  "below_next W r s \<longleftrightarrow> (\<forall>k \<in> W. \<forall>v. raises s = Some (k, v) \<longrightarrow> v \<le> next_version (kstate r k))"

lemma client_ack_steps_ready:
  "Committed (ack_key ack) (ack_version ack) \<in> K \<Longrightarrow> ready K (client_ack_steps rpc ack)"
  "s \<in> set (client_ack_steps rpc ack) \<Longrightarrow> issued_step log s \<and> raises s = None"
  by (auto simp: client_ack_steps_def split: if_splits)

lemma make_ack_fields [simp]:
  "ack_key (make_ack k v a i) = k" "ack_version (make_ack k v a i) = v"
  by (simp_all add: make_ack_def)

lemma make_propagate_fields [simp]:
  "prop_key (make_propagate w v i) = wreq_key w" "prop_version (make_propagate w v i) = v"
  by (simp_all add: make_propagate_def)

lemma write_steps_ok:
  "ready K (write_steps m rpc w node v)"
  "s \<in> set (write_steps m rpc w node v) \<Longrightarrow> log (wreq_key w) v = Some (wreq_value w) \<Longrightarrow> issued_step log s"
  "s \<in> set (write_steps m rpc w node v) \<Longrightarrow> raises s \<in> {None, Some (wreq_key w, v)}"
  by (cases m; auto simp: request_step_defs client_ack_steps_ready split: if_splits)+

lemma propagate_steps_ok:
  "ready K (propagate_steps m rpc p node)"
  "s \<in> set (propagate_steps m rpc p node) \<Longrightarrow> log (prop_key p) (prop_version p) = Some (prop_value p) \<Longrightarrow>
    issued_step log s"
  "s \<in> set (propagate_steps m rpc p node) \<Longrightarrow> raises s \<in> {None, Some (prop_key p, prop_version p)}"
  by (cases m; auto simp: request_step_defs Let_def client_ack_steps_ready ready_append split: if_splits sum.splits)+

lemma wf_held_below: "wf_key ks \<Longrightarrow> held v ks \<Longrightarrow> v \<le> next_version ks"
  by (auto simp: wf_key_def held_def intro: order.trans)

lemma begin_ok:
  assumes "begin_request m node q r = (ss, r')" "request_ok log W m node r q" "wf_keys W r"
  shows "ready (Collect (holds r')) ss" and "\<forall>s \<in> set ss. issued_step log s \<and> below_next W r' s"
proof -
  obtain rpc req where q: "q = (rpc, req)" by fastforce
  have "ready (Collect (holds r')) ss \<and> (\<forall>s \<in> set ss. issued_step log s \<and> below_next W r' s)"
  proof (cases req)
    case (Write_req w)
    show ?thesis
    proof (cases "accepts_writes m node")
      case True
      let ?v = "next_version (kstate r (wreq_key w)) + 1"
      have ss: "ss = write_steps m rpc w node ?v" "next_version (kstate r' (wreq_key w)) = ?v"
        and logged: "log (wreq_key w) ?v = Some (wreq_value w)"
        using assms(1,2) True by (auto simp: q Write_req request_ok_def split_beta Let_def)
      have "issued_step log s \<and> below_next W r' s" if "s \<in> set ss" for s
        using write_steps_ok(2,3) [OF that [unfolded ss(1)]] logged ss(2) by (auto simp: below_next_def)
      then show ?thesis using ss(1) write_steps_ok(1) by blast
    qed (use assms(1) in \<open>simp add: q Write_req\<close>)
  next
    case (Propagate_req p)
    have ss: "ss = propagate_steps m rpc p node"
      and ok: "prop_key p \<notin> W" "log (prop_key p) (prop_version p) = Some (prop_value p)"
      using assms(1,2) by (auto simp: q Propagate_req request_ok_def)
    have "issued_step log s \<and> below_next W r' s" if "s \<in> set ss" for s
      using propagate_steps_ok(2,3) [OF that [unfolded ss]] ok by (auto simp: below_next_def)
    then show ?thesis using ss propagate_steps_ok(1) by blast
  next
    case (Ack_req a)
    then show ?thesis
      using assms(1,2) wf_held_below [OF wf_keysD [OF assms(3)]]
      by (auto simp: q request_ok_def craq_ack_steps_def below_next_def split: if_splits)
  qed
  then show "ready (Collect (holds r')) ss" "\<forall>s \<in> set ss. issued_step log s \<and> below_next W r' s" by auto
qed

lemma take_version_kstate:
  "kstate (snd (take_version key r)) k
    = (if k = key then (kstate r k)\<lparr>next_version := next_version (kstate r k) + 1\<rparr> else kstate r k)"
  by (simp add: key_state_other_key)

lemma take_version_fields:
  "next_version (kstate (snd (take_version key r)) k)
    = (if k = key then next_version (kstate r k) + 1 else next_version (kstate r k))"
  "latest_seen_version (kstate (snd (take_version key r)) k) = latest_seen_version (kstate r k)"
  "latest_seen_value (kstate (snd (take_version key r)) k) = latest_seen_value (kstate r k)"
  "committed_version (kstate (snd (take_version key r)) k) = committed_version (kstate r k)"
  "committed_value (kstate (snd (take_version key r)) k) = committed_value (kstate r k)"
  "pending_versions (kstate (snd (take_version key r)) k) = pending_versions (kstate r k)"
  unfolding take_version_kstate by simp_all

lemma take_version_holds: "holds r f \<Longrightarrow> holds (snd (take_version key r)) f"
  by (cases f) (auto simp: take_version_fields held_def simp del: take_version_simps)

text \<open>A request that begins here begins with the same version in the server that serves at once.\<close>

lemma begin_in_step:
  assumes "begin_request m node q r = (ss, r')" "request_ok log W m node r q"
    and "in_step log ts as r R r1" "\<forall>s \<in># R. below_next W r s"
  shows "\<exists>r1'. begin_request m node q r1 = (ss, r1') \<and> in_step log ts as r' R r1' \<and>
    begin_answer m node q r1 = begin_answer m node q r"
proof -
  obtain rpc req where q: "q = (rpc, req)" by fastforce
  show ?thesis
  proof (cases "\<exists>w. req = Write_req w \<and> accepts_writes m node")
    case True
    then obtain w where w: "req = Write_req w" "accepts_writes m node" by blast
    let ?k = "wreq_key w" and ?R = "versions_of raises (wreq_key w) R"
    have ok: "?k \<in> W" "next_version (kstate r ?k) \<noteq> -1"
      using assms(2) w by (simp_all add: request_ok_def q)
    have below: "\<forall>v \<in> ?R. v \<le> next_version (kstate r ?k)"
      using assms(4) ok(1) by (auto simp: versions_of_def below_next_def)
    then have above: "\<forall>v \<in> ?R. v \<le> next_version (kstate r ?k) + 1"
      using inc_u64_less [OF ok(2)] by (meson order.trans less_imp_le)
    have same: "next_version (kstate r1 ?k) = next_version (kstate r ?k)"
      using assms(3) versions_of_le [OF below] by (simp add: in_step_def ahead_def)
    have "ahead log R k (kstate (snd (take_version ?k r)) k) (kstate (snd (take_version ?k r1)) k)" for k
      using assms(3) same versions_of_le [OF above] unfolding take_version_kstate in_step_def
      by (auto simp: ahead_def)
    then have "in_step log ts as (snd (take_version ?k r)) R (snd (take_version ?k r1))"
      using assms(3) by (simp add: in_step_def)
    moreover have "begin_answer m node q r1 = begin_answer m node q r"
      by (rule begin_answer_cong) (use same w in \<open>auto simp: q\<close>)
    ultimately show ?thesis using assms(1) same w by (auto simp: q split_beta Let_def)
  next
    case False
    then have "begin_request m node q r1 = (ss, r1) \<and> r' = r"
      using assms(1) by (cases req) (auto simp: q)
    moreover have "begin_answer m node q r1 = begin_answer m node q r"
      by (rule begin_answer_cong) (use False in \<open>simp add: q\<close>)
    ultimately show ?thesis using assms(3) by blast
  qed
qed

text \<open>The client caches agree and every value is the one its version was issued with.\<close>

definition sound_replica :: "(string \<Rightarrow> u64 \<rightharpoonup> string) \<Rightarrow> Replica \<Rightarrow> bool" where
  "sound_replica log r \<longleftrightarrow> wf_client_cache (support r) \<and> (\<forall>k. agrees (log k) (kstate r k))"

lemma begin_replica:
  assumes "begin_request m node q r = (ss, r')"
  shows "r' = r \<or> (\<exists>key. r' = snd (take_version key r))"
proof -
  obtain rpc req where "q = (rpc, req)" by fastforce
  then show ?thesis using assms by (cases req) (auto simp: split_beta Let_def split: if_splits)
qed

lemma begin_sound:
  assumes "begin_request m node q r = (ss, r')" "sound_replica log r"
  shows "sound_replica log r'"
proof -
  from begin_replica [OF assms(1)] show ?thesis
  proof
    assume "\<exists>key. r' = snd (take_version key r)"
    then obtain key where r': "r' = snd (take_version key r)" by blast
    have "wf_client_cache (support r')" using assms(2) by (simp add: r' sound_replica_def)
    then show ?thesis
      using assms(2) unfolding r' by (simp add: sound_replica_def agrees_def take_version_fields del: take_version_simps)
  qed (use assms(2) in simp)
qed

lemma begin_keeps:
  assumes "begin_request m node q r = (ss, r')" "request_ok log W m node r q"
  shows "holds r f \<Longrightarrow> holds r' f" and "wf_keys W r \<Longrightarrow> wf_keys W r'"
    and "below_next W r s \<Longrightarrow> below_next W r' s"
proof -
  obtain rpc req where q: "q = (rpc, req)" by fastforce
  have r': "r' = r \<or> (\<exists>w. accepts_writes m node \<and> req = Write_req w \<and> r' = snd (take_version (wreq_key w) r)
      \<and> next_version (kstate r (wreq_key w)) \<noteq> -1)"
    using assms by (cases req) (auto simp: q request_ok_def split_beta Let_def split: if_splits)
  show "holds r f \<Longrightarrow> holds r' f"
    using r' take_version_holds by blast
  show "wf_keys W r \<Longrightarrow> wf_keys W r'" using r' by (auto simp: wf_keys_def wf_key_ops(1))
  show "below_next W r s \<Longrightarrow> below_next W r' s"
    using r' order.trans [OF _ less_imp_le [OF inc_u64_less]]
    by (auto simp: take_version_fields below_next_def simp del: take_version_simps)
qed

subsection \<open>The invariant\<close>

definition open_steps :: "Busy \<Rightarrow> locked_step multiset" where
  "open_steps b = mset (concat (threads b))"

text \<open>The server that serves one request after the other: its answers and its state.\<close>

fun serve_in_turn ::
    "ReplicationMode \<Rightarrow> Node \<Rightarrow> (Rpc \<times> node_request) list \<Rightarrow> Replica \<Rightarrow>
     (cxx_exn + WriteResponse) option list \<times> Replica" where
  "serve_in_turn m node [] r = ([], r)"
| "serve_in_turn m node (q # qs) r =
     (let (as, r') = serve_in_turn m node qs (serve_whole m node q r) in (whole_answer m node q r # as, r'))"

lemma serve_in_turn_snoc:
  "serve_in_turn m node (qs @ [q]) r
    = (let (as, r1) = serve_in_turn m node qs r in (as @ [whole_answer m node q r1], serve_whole m node q r1))"
  by (induction qs arbitrary: r) (simp_all add: split_beta)

abbreviation serial :: "ReplicationMode \<Rightarrow> Node \<Rightarrow> Replica \<Rightarrow> Busy \<Rightarrow> Replica" where
  "serial m node r0 b \<equiv> snd (serve_in_turn m node (begun b) r0)"

definition busy_inv ::
    "(string \<Rightarrow> u64 \<rightharpoonup> string) \<Rightarrow> string set \<Rightarrow> Replica \<Rightarrow> Busy \<Rightarrow> bool" where
  "busy_inv log W r1 b \<longleftrightarrow>
     wf_keys W (busy_replica b) \<and> sound_replica log (busy_replica b) \<and> sound_replica log r1 \<and>
     (\<forall>ss \<in> set (threads b). ready (Collect (holds (busy_replica b))) ss) \<and>
     (\<forall>s \<in># open_steps b. issued_step log s \<and> below_next W (busy_replica b) s) \<and>
     in_step log (sent_tasks b) (sent_acks b) (busy_replica b) (open_steps b) r1"

lemma sound_moves: "sound_replica log r \<Longrightarrow> issued_step log s \<Longrightarrow> sound_replica log (run_locked s r)"
  by (simp add: sound_replica_def run_locked_cache run_locked_agrees)

lemma sound_thread:
  "sound_replica log r \<Longrightarrow> \<forall>s \<in> set ss. issued_step log s \<Longrightarrow> sound_replica log (run_thread ss r)"
  by (induction ss arbitrary: r) (simp_all add: sound_moves)

lemma below_next_moves: "below_next W r s \<Longrightarrow> below_next W (run_locked s' r) s"
  using order.trans [OF _ bump_ge] by (simp add: below_next_def run_locked_versions(1))

lemma holds_serial:
  assumes "in_step log ts as r R r1" "\<forall>s \<in># R. issued_step log s" "holds r f"
  shows "holds r1 f"
proof (rule ahead_holds [OF _ assms(3)])
  show "ahead log R k (kstate r k) (kstate r1 k)" for k using assms(1) by (simp add: in_step_def)
  show "log k v \<noteq> None" if v: "v \<in> versions_of keeps k R" for k v
  proof -
    obtain s where s: "s \<in># R" "keeps s = Some (k, v)" using v by (auto simp: versions_of_def)
    then have "issued_step log s" using assms(2) by blast
    with s(2) show ?thesis by (cases s) auto
  qed
qed

lemma busy_inv_moves:
  assumes "busy_inv log W r1 b" "threads b = us @ (s # rest) # vs"
  shows "busy_inv log W r1 (b\<lparr>busy_replica := run_locked s (busy_replica b), threads := us @ rest # vs\<rparr>)"
proof -
  let ?r = "busy_replica b" and ?R = "mset (concat (us @ rest # vs))"
  have R: "open_steps b = add_mset s ?R" using assms(2) by (simp add: open_steps_def)
  have ready: "ready (Collect (holds ?r)) (s # rest)" using assms by (simp add: busy_inv_def)
  then have s: "issued_step log s" "needs s \<subseteq> Collect (holds ?r)"
    using assms(1) by (auto simp: busy_inv_def R)
  have "ready (Collect (holds (run_locked s ?r))) ss" if "ss \<in> set (us @ rest # vs)" for ss
    using that ready_moves [OF ready] ready_stays assms by (auto simp: busy_inv_def)
  moreover have "in_step log (sent_tasks b) (sent_acks b) (run_locked s ?r) ?R r1"
    using assms(1) s by (intro in_step_moves) (simp_all add: busy_inv_def R)
  moreover have "issued_step log s' \<and> below_next W (run_locked s ?r) s'" if "s' \<in># ?R" for s'
    using that assms(1) by (auto simp: busy_inv_def R intro: below_next_moves)
  ultimately show ?thesis
    using assms(1) sound_moves [OF _ s(1)] run_locked_wf unfolding busy_inv_def
    by (simp add: open_steps_def wf_keys_def)
qed

lemma busy_inv_begins:
  assumes "busy_inv log W r1 b" "request_ok log W m node (busy_replica b) q"
    and "begin_request m node q (busy_replica b) = (ss, r')"
  shows "busy_inv log W (serve_whole m node q r1)
    (b\<lparr>busy_replica := r', threads := threads b @ [ss], begun := begun b @ [q], answers := as\<rparr>)"
proof -
  let ?r = "busy_replica b"
  note keeps = begin_keeps [OF assms(3,2)]
  have wf: "wf_keys W ?r" using assms(1) by (simp add: busy_inv_def)
  note new = begin_ok [OF assms(3,2) wf]
  obtain r1' where r1': "begin_request m node q r1 = (ss, r1')"
    "in_step log (sent_tasks b) (sent_acks b) r' (open_steps b) r1'"
    using begin_in_step [OF assms(3,2), of "sent_tasks b" "sent_acks b" "open_steps b" r1] assms(1)
    by (auto simp: busy_inv_def)
  have sound: "sound_replica log r'" "wf_keys W r'"
    using assms(1) keeps(2) begin_sound [OF assms(3)] by (simp_all add: busy_inv_def)
  have whole: "serve_whole m node q r1 = run_thread ss r1'"
    using steps_are_the_handler [OF _ r1'(1)] assms(1) by (simp add: busy_inv_def sound_replica_def)
  have "\<forall>s \<in># open_steps b. issued_step log s" using assms(1) by (simp add: busy_inv_def)
  from holds_serial [OF r1'(2) this] have holds1: "Collect (holds r') \<subseteq> Collect (holds r1')" by blast
  have "in_step log (sent_tasks b) (sent_acks b) r' (mset ss + open_steps b) (run_thread ss r1')"
    by (rule in_step_thread [OF r1'(2) _ ready_mono [OF new(1) holds1]]) (use new(2) in blast)
  moreover have "sound_replica log (run_thread ss r1')"
  proof (rule sound_thread)
    show "sound_replica log r1'"
      using assms(1) begin_sound [OF r1'(1)] by (simp add: busy_inv_def)
  qed (use new(2) in blast)
  moreover have "ready (Collect (holds r')) ss'" if "ss' \<in> set (threads b)" for ss'
    using that assms(1) keeps(1) by (auto simp: busy_inv_def intro: ready_mono)
  ultimately show ?thesis
    using sound new keeps(3) assms(1) unfolding busy_inv_def
    by (auto simp: open_steps_def whole add.commute)
qed

lemma busy_run_inv:
  assumes "busy_run (request_ok log W m node) m node r0 b" "wf_keys W r0" "sound_replica log r0"
  shows "busy_inv log W (serial m node r0 b) b"
  using assms(1)
proof (induction rule: busy_run.induct)
  case all_idle
  show ?case using assms(2,3) by (simp add: busy_inv_def open_steps_def in_step_refl)
next
  case (request_begins b q steps r')
  from busy_inv_begins [OF request_begins.IH request_begins.hyps(2,3)] show ?case by (simp add: serve_in_turn_snoc split_beta)
next
  case (thread_moves b us s rest vs)
  from busy_inv_moves [OF thread_moves.IH thread_moves.hyps(2)] show ?case by simp
next
  case (worker_moves b l d')
  let ?r' = "(busy_replica b)\<lparr>dispatcher := d'\<rparr>"
  have "queue (dispatcher (busy_replica b)) = taken1 l @ queue d'"
    using worker_moves.hyps(2,3) by (auto elim!: disp_step.cases)
  moreover have "holds ?r' = holds (busy_replica b)"
    by (rule ext) (auto elim: holds.elims)
  ultimately show ?case
    using worker_moves.IH
    by (simp add: busy_inv_def open_steps_def in_step_def sound_replica_def wf_keys_def below_next_def add.assoc)
next
  case (ack_worker_moves b turn s')
  let ?r' = "(busy_replica b)\<lparr>support := s'\<rparr>"
  note frame = ack_worker_turn_same [OF ack_worker_moves.hyps(2)]
  have "pred_ack_queue (support (busy_replica b)) = turn_taken turn @ pred_ack_queue s'"
    using ack_worker_turn_queue [of "support (busy_replica b)"] ack_worker_moves.hyps(2) by simp
  moreover have "holds ?r' = holds (busy_replica b)"
    by (rule ext) (auto simp: frame elim: holds.elims)
  ultimately show ?case
    using ack_worker_moves.IH frame
    by (simp add: busy_inv_def open_steps_def in_step_def sound_replica_def wf_keys_def below_next_def add.assoc)
qed

lemma busy_run_answers:
  assumes "busy_run (request_ok log W m node) m node r0 b" "wf_keys W r0" "sound_replica log r0"
  shows "answers b = fst (serve_in_turn m node (begun b) r0)"
  using assms(1)
proof (induction rule: busy_run.induct)
  case (request_begins b q steps r')
  have "busy_inv log W (serial m node r0 b) b" by (rule busy_run_inv [OF request_begins.hyps(1) assms(2,3)])
  then have "begin_answer m node q (serial m node r0 b) = begin_answer m node q (busy_replica b)"
    using begin_in_step [OF request_begins.hyps(3,2), of "sent_tasks b" "sent_acks b" "open_steps b"]
    by (auto simp: busy_inv_def)
  then show ?case
    using request_begins.IH by (simp add: serve_in_turn_snoc split_beta begin_answer_whole)
qed simp_all

subsection \<open>Interleaved or one by one\<close>

text \<open>What a node tells about a key: the newest version and value, the clean one, any version since.\<close>

definition same_answers :: "Replica \<Rightarrow> Replica \<Rightarrow> string \<Rightarrow> bool" where
  "same_answers r r1 k \<longleftrightarrow>
     next_version (kstate r k) = next_version (kstate r1 k) \<and>
     read_clean k (store_of r) = read_clean k (store_of r1) \<and>
     read_latest_seen k (store_of r) = read_latest_seen k (store_of r1) \<and>
     (\<forall>v \<ge> committed_version (kstate r k).
        read_value_at_version k v (store_of r) = read_value_at_version k v (store_of r1))"

lemma ahead_same_answers:
  assumes "ahead log {#} k (kstate r k) (kstate r1 k)" "agrees (log k) (kstate r k)" "agrees (log k) (kstate r1 k)"
  shows "same_answers r r1 k"
proof -
  have vs: "next_version (kstate r1 k) = next_version (kstate r k)"
    "latest_seen_version (kstate r1 k) = latest_seen_version (kstate r k)"
    "committed_version (kstate r1 k) = committed_version (kstate r k)"
    "committed_version (kstate r k) < v \<Longrightarrow> pending_versions (kstate r1 k) v = pending_versions (kstate r k) v" for v
    using assms(1) by (simp_all add: ahead_def)
  have "committed_version (kstate r k) \<noteq> 0 \<Longrightarrow> committed_value (kstate r1 k) = committed_value (kstate r k)"
    "latest_seen_version (kstate r k) \<noteq> 0 \<Longrightarrow> latest_seen_value (kstate r1 k) = latest_seen_value (kstate r k)"
    using assms(2,3) by (simp_all add: agrees_def vs)
  then show ?thesis using vs by (auto simp: same_answers_def store_reads)
qed

lemma busy_run_serial:
  assumes "busy_run (request_ok log W m node) m node r0 b" "wf_keys W r0" "sound_replica log r0"
    and "concat (threads b) = []"
  shows "let r = busy_replica b; (as, r1) = serve_in_turn m node (begun b) r0
    in answers b = as \<and> (\<forall>k. same_answers r r1 k) \<and>
       mset (sent_tasks b @ queue (dispatcher r)) = mset (queue (dispatcher r1)) \<and>
       mset (sent_acks b @ pred_ack_queue (support r)) = mset (pred_ack_queue (support r1)) \<and>
       mset (client_acks r) = mset (client_acks r1)"
proof -
  have inv: "busy_inv log W (serial m node r0 b) b" by (rule busy_run_inv [OF assms(1-3)])
  then have "in_step log (sent_tasks b) (sent_acks b) (busy_replica b) {#} (serial m node r0 b)"
    by (simp add: busy_inv_def open_steps_def assms(4))
  moreover have "same_answers (busy_replica b) (serial m node r0 b) k" for k
  proof (rule ahead_same_answers [where log = log])
    show "ahead log {#} k (kstate (busy_replica b) k) (kstate (serial m node r0 b) k)"
      using calculation by (simp add: in_step_def)
  qed (use inv in \<open>simp_all add: busy_inv_def sound_replica_def\<close>)
  ultimately show ?thesis
    using busy_run_answers [OF assms(1-3)] by (auto simp: in_step_def split_beta Let_def)
qed

text \<open>
  C6. However the locked steps of the handlers of a server are interleaved, with each other and with
  its workers: every write is answered as by a server that served the same requests one at a time,
  in the order in which they began, and when all threads have returned the two hold the same
  versions and values and have queued, sent and acknowledged the same, in some order.
\<close>

theorem interleaved_handlers_serializable:
  assumes "busy_run (request_ok log W m node) m node r0 b" "wf_keys W r0" "sound_replica log r0"
    and "concat (threads b) = []"
  shows "let r = busy_replica b; (as, r1) = serve_in_turn m node (begun b) r0
    in answers b = as \<and> (\<forall>k. same_answers r r1 k) \<and>
       mset (sent_tasks b @ queue (dispatcher r)) = mset (queue (dispatcher r1)) \<and>
       mset (sent_acks b @ pred_ack_queue (support r)) = mset (pred_ack_queue (support r1)) \<and>
       mset (client_acks r) = mset (client_acks r1)"
  by (rule busy_run_serial [OF assms])

subsection \<open>Nothing is announced before it is done\<close>

definition announced_done :: "Replica \<Rightarrow> PropagateTask list \<Rightarrow> AckRequest list \<Rightarrow> bool" where
  "announced_done r tasks acks \<longleftrightarrow>
     (\<forall>(stub, a) \<in> set (client_acks r). ack_version a \<le> committed_version (kstate r (ack_key a))) \<and>
     (\<forall>t \<in> set (tasks @ queue (dispatcher r)).
        prop_version (task_req t) \<le> latest_seen_version (kstate r (prop_key (task_req t)))) \<and>
     (\<forall>a \<in> set (acks @ pred_ack_queue (support r)). ack_version a \<le> committed_version (kstate r (ack_key a)))"

lemma announced_mono:
  assumes "announced_done r tasks acks" "\<And>f. holds r f \<Longrightarrow> holds r' f"
    and "client_acks r' = client_acks r" "tasks' @ queue (dispatcher r') = tasks @ queue (dispatcher r)"
    and "acks' @ pred_ack_queue (support r') = acks @ pred_ack_queue (support r)"
  shows "announced_done r' tasks' acks'"
  using assms(1) assms(2) [of "Committed _ _"] assms(2) [of "Seen _ _"]
  unfolding announced_done_def assms(3-5) by fastforce

lemma announced_moves:
  assumes "announced_done r tasks acks" "needs s \<subseteq> Collect (holds r)"
  shows "announced_done (run_locked s r) tasks acks"
proof -
  let ?r' = "run_locked s r"
  let ?r0 = "?r'\<lparr>client_acks := client_acks r, dispatcher := dispatcher r,
      support := (support ?r')\<lparr>pred_ack_queue := pred_ack_queue (support r)\<rparr>\<rparr>"
  have "holds ?r0 f = holds ?r' f" for f by (cases f) simp_all
  then have old: "announced_done ?r0 tasks acks"
    by (intro announced_mono [OF assms(1)]) (simp_all add: run_locked_holds)
  have "set_mset (mset (queue (dispatcher ?r'))) = set (queue (dispatcher r)) \<union> set_mset (tasks_of (successor_stub (support r)) s)"
    "set_mset (mset (client_acks ?r')) = set (client_acks r) \<union> set_mset (client_calls_of s)"
    "set_mset (mset (pred_ack_queue (support ?r'))) = set (pred_ack_queue (support r)) \<union> set_mset (pred_acks_of s)"
    unfolding run_locked_sends by simp_all
  then have sets: "set (queue (dispatcher ?r')) = set (queue (dispatcher r)) \<union> set_mset (tasks_of (successor_stub (support r)) s)"
    "set (client_acks ?r') = set (client_acks r) \<union> set_mset (client_calls_of s)"
    "set (pred_ack_queue (support ?r')) = set (pred_ack_queue (support r)) \<union> set_mset (pred_acks_of s)"
    by simp_all
  have "needs s \<subseteq> Collect (holds ?r')" using assms(2) run_locked_holds by blast
  with old show ?thesis
    unfolding announced_done_def set_append sets
    by (cases s; cases "successor_stub (support r)") auto
qed

text \<open>
  C7. At every moment of such a run: a client has been sent an ack only for a version that is
  committed here, a Propagate is queued or sent only for a version that is recorded, and an ack for
  the predecessor only for a version that is committed. No interleaving lets another thread's
  work be announced early.
\<close>

theorem nothing_announced_early:
  assumes "busy_run (request_ok log W m node) m node r0 b" "wf_keys W r0" "sound_replica log r0"
    and "announced_done r0 [] []"
  shows "announced_done (busy_replica b) (sent_tasks b) (sent_acks b)"
  using assms(1)
proof (induction rule: busy_run.induct)
  case (request_begins b q steps r')
  note begins = request_begins.hyps(3,2)
  from begin_replica [OF begins(1)] show ?case
    using announced_mono [OF request_begins.IH begin_keeps(1) [OF begins]] by auto
next
  case (thread_moves b us s rest vs)
  have "ready (Collect (holds (busy_replica b))) (s # rest)"
    using busy_run_inv [OF thread_moves.hyps(1) assms(2,3)] thread_moves.hyps(2) by (simp add: busy_inv_def)
  then show ?case using announced_moves [OF thread_moves.IH] by simp
next
  case (worker_moves b l d')
  let ?r' = "(busy_replica b)\<lparr>dispatcher := d'\<rparr>"
  have "queue (dispatcher (busy_replica b)) = taken1 l @ queue d'"
    using worker_moves.hyps(2,3) by (auto elim!: disp_step.cases)
  moreover have "holds ?r' f = holds (busy_replica b) f" for f by (cases f) auto
  ultimately show ?case by (auto intro: announced_mono [OF worker_moves.IH])
next
  case (ack_worker_moves b turn s')
  let ?r' = "(busy_replica b)\<lparr>support := s'\<rparr>"
  note same = ack_worker_turn_same [OF ack_worker_moves.hyps(2)]
  have "pred_ack_queue (support (busy_replica b)) = turn_taken turn @ pred_ack_queue s'"
    using ack_worker_turn_queue [of "support (busy_replica b)"] ack_worker_moves.hyps(2) by simp
  moreover have "holds ?r' f = holds (busy_replica b) f" for f by (cases f) (auto simp: same)
  ultimately show ?case by (auto intro: announced_mono [OF ack_worker_moves.IH])
qed (use assms(4) in simp)

subsection \<open>Two propagates that overtake each other at a CRAQ tail\<close>

definition begin_here :: "ReplicationMode \<Rightarrow> Node \<Rightarrow> Rpc \<times> node_request \<Rightarrow> Busy \<Rightarrow> Busy" where
  "begin_here m node q b =
     (let (ss, r') = begin_request m node q (busy_replica b)
      in b\<lparr>busy_replica := r', threads := threads b @ [ss], begun := begun b @ [q],
        answers := answers b @ [begin_answer m node q (busy_replica b)]\<rparr>)"

definition move_thread :: "nat \<Rightarrow> Busy \<Rightarrow> Busy" where
  "move_thread i b =
     (if i < length (threads b)
      then case threads b ! i of
             [] \<Rightarrow> b
           | s # rest \<Rightarrow> b\<lparr>busy_replica := run_locked s (busy_replica b), threads := (threads b)[i := rest]\<rparr>
      else b)"

lemma busy_run_begin_here:
  "busy_run ok m node r0 b \<Longrightarrow> ok (busy_replica b) q \<Longrightarrow> busy_run ok m node r0 (begin_here m node q b)"
  by (cases "begin_request m node q (busy_replica b)") (simp add: begin_here_def busy_run.request_begins)

lemma busy_run_move_thread: "busy_run ok m node r0 b \<Longrightarrow> busy_run ok m node r0 (move_thread i b)"
proof (cases "i < length (threads b)")
  case True
  assume run: "busy_run ok m node r0 b"
  show ?thesis
  proof (cases "threads b ! i")
    case (Cons s rest)
    have split: "threads b = take i (threads b) @ (s # rest) # drop (Suc i) (threads b)"
      using id_take_nth_drop [OF True] Cons by simp
    have "(threads b)[i := rest] = take i (threads b) @ rest # drop (Suc i) (threads b)"
      by (rule upd_conv_take_nth_drop [OF True])
    then show ?thesis using busy_run.thread_moves [OF run split] True Cons by (simp add: move_thread_def)
  qed (use run in \<open>simp add: move_thread_def True\<close>)
qed (simp add: move_thread_def)

lemma begun_moves [simp]: "begun (fold move_thread is b) = begun b"
  by (induction "is" arbitrary: b) (auto simp: move_thread_def split: list.split)

lemma busy_run_schedule: "busy_run ok m node r0 b \<Longrightarrow> busy_run ok m node r0 (fold move_thread is b)"
  by (induction "is" arbitrary: b) (auto intro: busy_run_move_thread)

definition busy_tail :: Node where
  "busy_tail = \<lparr>config = NodeConfig_default\<lparr>mode := CRAQ, is_tail := True\<rparr>\<rparr>"

definition busy_propagate :: "u64 \<Rightarrow> string \<Rightarrow> Rpc \<times> node_request" where
  "busy_propagate v x =
     (\<lparr>ack_call = \<lambda>_ _. Status_OK, version_query_call = \<lambda>_ _. (Status_OK, \<lparr>vqr_key = [], vqr_latest_version = 0\<rparr>)\<rparr>,
      Propagate_req \<lparr>prop_key = ''k'', prop_value = x, prop_version = v, prop_origin_id = ''0'',
        prop_client_addr = ''c'', prop_request_id = v\<rparr>)"

definition idle_replica :: Replica where
  "idle_replica = \<lparr>support = Support_init, dispatcher = dispatcher_init 2, client_acks = []\<rparr>"

text \<open>The second thread records and cleans version 2 between the first two steps of the other.\<close>

definition busy_sample :: Busy where
  "busy_sample = fold move_thread [0, 1, 1, 1, 1, 0, 0, 1, 0, 0]
     (begin_here CRAQ busy_tail (busy_propagate 2 ''b'')
        (begin_here CRAQ busy_tail (busy_propagate 1 ''a'')
          \<lparr>busy_replica = idle_replica, threads = [], begun = [], answers = [], sent_tasks = [], sent_acks = []\<rparr>))"

definition busy_log :: "string \<Rightarrow> u64 \<rightharpoonup> string" where
  "busy_log k = [1 \<mapsto> ''a'', 2 \<mapsto> ''b'']"

lemma busy_sample_run: "busy_run (request_ok busy_log {} CRAQ busy_tail) CRAQ busy_tail idle_replica busy_sample"
  unfolding busy_sample_def
  by (intro busy_run_schedule busy_run_begin_here busy_run.all_idle)
    (simp_all add: request_ok_def busy_propagate_def busy_log_def)

lemma idle_sound:
  "wf_keys W idle_replica" "sound_replica log idle_replica" "announced_done idle_replica [] []"
  by (simp_all add: idle_replica_def Support_init_def dispatcher_init_def sound_replica_def wf_keys_def
      announced_done_def wf_client_cache_def)

lemma busy_sample_threads: "concat (threads busy_sample) = []"
  by code_simp

theorem interleaved_handlers_serializable_witness:
  "let r = busy_replica busy_sample; (as, r1) = serve_in_turn CRAQ busy_tail (begun busy_sample) idle_replica
    in answers busy_sample = as \<and> (\<forall>k. same_answers r r1 k) \<and>
       mset (sent_tasks busy_sample @ queue (dispatcher r)) = mset (queue (dispatcher r1)) \<and>
       mset (sent_acks busy_sample @ pred_ack_queue (support r)) = mset (pred_ack_queue (support r1)) \<and>
       mset (client_acks r) = mset (client_acks r1)"
  by (rule interleaved_handlers_serializable [OF busy_sample_run idle_sound(1,2) busy_sample_threads])

theorem nothing_announced_early_witness:
  "map (ack_version \<circ> snd) (client_acks (busy_replica busy_sample)) = [2, 1] \<and>
    announced_done (busy_replica busy_sample) (sent_tasks busy_sample) (sent_acks busy_sample)"
proof
  show "map (ack_version \<circ> snd) (client_acks (busy_replica busy_sample)) = [2, 1]" by code_simp
qed (rule nothing_announced_early [OF busy_sample_run idle_sound])

end
