(* ===== verification/Handler_Deployment.thy ===== *)
theory Handler_Deployment
  imports Handler_Interleaving Cluster_Run
begin

section \<open>Interleaved handlers in a deployed cluster\<close>

text \<open>
  Handler\_Interleaving assumes of the requests what this theory shows for a server of a deployment:
  a key is not propagated to its head, a version stands for one value, a CRAQ ack comes back for a
  version the node holds. So whatever a server does with the calls under way to it and with writes
  of the clients, its handlers interleaved in any way, it ends up as the server of a cluster that
  took the requests one by one, and the theorems about reachable clusters hold of that one.
\<close>

text \<open>The requests that can reach the server at \<open>a\<close> from the cluster \<open>c\<close>. Versions do not run out.\<close>

definition arriving ::
    "ReplicationMode \<Rightarrow> pb_NodeAddress list \<Rightarrow> Cluster \<Rightarrow> stub \<Rightarrow> Replica \<Rightarrow> Rpc \<times> node_request \<Rightarrow> bool" where
  "arriving m as c a r q =
     (case snd q of
        Write_req w \<Rightarrow> client_routes m as (Client_write a w) \<and> next_version (kstate r (wreq_key w)) \<noteq> -1
      | Propagate_req p \<Rightarrow> (a, p) \<in> set (prop_calls c)
      | Ack_req ack \<Rightarrow> (a, ack) \<in> set (ack_calls c))"

definition accepted_value :: "Cluster \<Rightarrow> string \<Rightarrow> u64 \<rightharpoonup> string" where
  "accepted_value c k v = map_of (map (\<lambda>(k, v, x). ((k, v), x)) (accepted c)) (k, v)"

lemma accepted_value_Some: "accepted_value c k v = Some x \<Longrightarrow> (k, v, x) \<in> set (accepted c)"
  by (auto simp: accepted_value_def dest: map_of_SomeD)

lemma accepted_value_None: "accepted_value c k v = None \<longleftrightarrow> (\<forall>x. (k, v, x) \<notin> set (accepted c))"
  by (force simp: accepted_value_def map_of_eq_None_iff)

lemma accepted_value_issued:
  assumes "cluster_sim n m at k origin p c"
  shows "accepted_value c k = (\<lambda>v. Chain_Spec.issued p (unat v))"
proof
  fix v
  have iff: "(k, v, x) \<in> set (accepted c) \<longleftrightarrow> Chain_Spec.issued p (unat v) = Some x" for x
    using assms by (auto simp: cluster_sim_def)
  show "accepted_value c k v = Chain_Spec.issued p (unat v)"
    using iff accepted_value_Some [of c k v] accepted_value_None [of c k v]
    by (cases "accepted_value c k v"; cases "Chain_Spec.issued p (unat v)") auto
qed

subsection \<open>What the refinement says about the requests\<close>

definition heads :: "ReplicationMode \<Rightarrow> pb_NodeAddress list \<Rightarrow> stub \<Rightarrow> string set" where
  "heads m as a = {k. head_of m as k = a}"

lemma server_at_position:
  assumes as: "valid_addrs as" and reach: "cluster_reach (client_routes m as) (deployed hw m direct as) c"
    and len: "length (accepted c) + 1 < 2 ^ 64" and sv: "servers c a = Some sv" "the_strategy sv = Some (m', s)"
  obtains p j where "m' = m" "j < length as" "a = position m as k j" "pl_inv (length as) p"
    "cluster_sim (length as) m (position m as k) k (origin_text m as k) p c"
    "node_ok (length as) m k p j (key_state (by_key s) k)" "fixed (start_topo hw m direct as a) sv"
proof -
  obtain p where p: "pl_inv (length as) p"
    "cluster_sim (length as) m (position m as k) k (origin_text m as k) p c"
    "cluster_fixed (start_topo hw m direct as) c" by (rule deployed_refines [OF as reach len])
  obtain j where j: "j < length as" "a = position m as k j"
    "server_ok (length as) m (position m as k) k (origin_text m as k) p j sv"
    by (rule cluster_sim_position [OF p(2) sv(1) position_inj [OF as]])
  have "m' = m" "node_ok (length as) m k p j (key_state (by_key s) k)"
    using j(3) sv(2) by (auto simp: server_ok_def)
  then show thesis using that j(1,2) p sv(1) by (simp add: cluster_fixed_def)
qed

lemma head_is_position_0:
  assumes "valid_addrs as" "j < length as" "a = position m as k j"
  shows "k \<in> heads m as a \<longleftrightarrow> j = 0"
proof -
  have "0 < length as" using assms(2) by linarith
  then show ?thesis
    using inj_on_eq_iff [OF position_inj [OF assms(1), of m k], of 0 j] assms(2,3)
    by (auto simp: heads_def head_of_def)
qed

lemma accepting_node_is_head:
  assumes as: "valid_addrs as" and fx: "fixed (start_topo hw m direct as a) sv"
    and j: "j < length as" "a = position m as k j"
    and acc: "accepts_writes m (the_node sv)" and routed: "client_routes m as (Client_write a w)" "wreq_key w = k"
  shows "k \<in> heads m as a"
proof (cases "m = CROWN")
  case True
  then show ?thesis using routed by (simp add: client_routes_def routed_to_def heads_def)
next
  case False
  have "topo_of sv = start_topo hw m direct as a" using fx by (simp add: fixed_def)
  then have "config (the_node sv) = node_config m direct as j"
    using deployed_topo [OF as j(1), of hw m direct] j(2) position_line [OF False j(1)]
    by (simp add: topo_of_def)
  then have "j = 0"
    using acc False node_config_line(1) [OF False, of direct as j]
    by (cases m) (simp_all add: accepts_writes_def Node_accessors)
  then show ?thesis using head_is_position_0 [OF as j] by simp
qed

text \<open>The state of the server when the first of the requests begins.\<close>

lemma deployed_replica_sound:
  assumes as: "valid_addrs as" and reach: "cluster_reach (client_routes m as) (deployed hw m direct as) c"
    and len: "length (accepted c) + 1 < 2 ^ 64" and sv: "servers c a = Some sv" "the_strategy sv = Some (m', s)"
  shows "sound_replica (accepted_value c) (replica_of sv (m', s))"
    and "wf_keys (heads m as a) (replica_of sv (m', s))"
    and "k \<in> heads m as a \<Longrightarrow> accepted_value c k v \<noteq> None \<Longrightarrow> v \<le> next_version (key_state (by_key s) k)"
proof -
  note at = server_at_position [OF as reach len sv]
  have "wf_client_cache s" using at [of "[]"] sv(2) by (auto simp: fixed_def cache_ok_def)
  moreover have "agrees (accepted_value c k) (key_state (by_key s) k)" for k
    using at [of k] accepted_value_issued by (metis node_ok_def)
  ultimately show "sound_replica (accepted_value c) (replica_of sv (m', s))" by (simp add: sound_replica_def)
  have head: "wf_key (key_state (by_key s) k) \<and>
      (\<forall>v. accepted_value c k v \<noteq> None \<longrightarrow> v \<le> next_version (key_state (by_key s) k))"
    if k: "k \<in> heads m as a" for k
  proof -
    obtain p j where p: "j < length as" "a = position m as k j" "pl_inv (length as) p"
      "cluster_sim (length as) m (position m as k) k (origin_text m as k) p c"
      "node_ok (length as) m k p j (key_state (by_key s) k)" by (rule at [of k])
    then have "node_ok (length as) m k p 0 (key_state (by_key s) k)" using head_is_position_0 [OF as p(1,2)] k by simp
    note top = node_ok_head [OF this p(3)]
    have n: "1 \<le> length as" and last: "length as - 1 < length as" using p(1) by linarith+
    have j0: "j = 0" using head_is_position_0 [OF as p(1,2)] k by simp
    have committed: "unat (committed_version (key_state (by_key s) k)) \<le> assigned p"
      using p(5) order.trans [OF pl_clean_le_tail [OF p(3) n, of 0] pl_newest_mono [OF p(3) le0 last]] top(2)
      by (auto simp: node_ok_def j0 split: if_splits)
    have issued_le: "Chain_Spec.issued p (unat v) \<noteq> None \<Longrightarrow> unat v \<le> assigned p" for v :: u64
      using pl_invD(2) [OF p(3)] by (metis atLeastAtMost_iff domIff)
    have "agrees (\<lambda>v. Chain_Spec.issued p (unat v)) (key_state (by_key s) k)"
      using p(5) by (simp add: node_ok_def)
    then have "pending_versions (key_state (by_key s) k) v = Some x \<Longrightarrow> unat v \<le> assigned p" for v x
      using issued_le by (auto simp: agrees_def)
    then show ?thesis
      using committed top issued_le accepted_value_issued [OF p(4)] by (auto simp: wf_key_def word_le_nat_alt)
  qed
  show "wf_keys (heads m as a) (replica_of sv (m', s))" using head by (simp add: wf_keys_def)
  show "k \<in> heads m as a \<Longrightarrow> accepted_value c k v \<noteq> None \<Longrightarrow> v \<le> next_version (key_state (by_key s) k)"
    using head by blast
qed

lemma arriving_propagate:
  assumes as: "valid_addrs as" and reach: "cluster_reach (client_routes m as) (deployed hw m direct as) c"
    and len: "length (accepted c) + 1 < 2 ^ 64" and sv: "servers c a = Some sv" "the_strategy sv = Some (m', s)"
    and call: "(a, req) \<in> set (prop_calls c)"
  shows "prop_key req \<notin> heads m as a \<and>
    accepted_value c (prop_key req) (prop_version req) = Some (prop_value req)"
proof -
  let ?k = "prop_key req"
  obtain p j where p: "j < length as" "a = position m as ?k j" "pl_inv (length as) p"
    "cluster_sim (length as) m (position m as ?k) ?k (origin_text m as ?k) p c"
    by (rule server_at_position [OF as reach len sv, of ?k])
  have "prop_ok (position m as ?k) ?k (origin_text m as ?k) p (a, req)" using p(4) call by (simp add: cluster_sim_def)
  then obtain i where i: "(i, unat (prop_version req)) \<in> sent p" "a = position m as ?k i"
    "Chain_Spec.issued p (unat (prop_version req)) = Some (prop_value req)" by (auto simp: prop_ok_def)
  have "0 < i" "i < length as" using pl_invD(4) [OF p(3) i(1)] by simp_all
  then show ?thesis using head_is_position_0 [OF as _ i(2)] i(3) accepted_value_issued [OF p(4)] by simp
qed

lemma arriving_ack:
  assumes as: "valid_addrs as" and reach: "cluster_reach (client_routes CRAQ as) (deployed hw CRAQ direct as) c"
    and len: "length (accepted c) + 1 < 2 ^ 64" and sv: "servers c a = Some sv" "the_strategy sv = Some (m', s)"
    and call: "(a, ack) \<in> set (ack_calls c)"
  shows "held (ack_version ack) (key_state (by_key s) (ack_key ack))"
proof -
  let ?k = "ack_key ack" and ?at = "position CRAQ as (ack_key ack)"
  obtain p j where p: "j < length as" "a = ?at j" "pl_inv (length as) p"
    "cluster_sim (length as) CRAQ ?at ?k (origin_text CRAQ as ?k) p c"
    "node_ok (length as) CRAQ ?k p j (key_state (by_key s) ?k)"
    by (rule server_at_position [OF as reach len sv, of ?k])
  have "ack_ok ?at ?k p (a, ack)" using p(4) call by (simp add: cluster_sim_def)
  then have "unat (ack_version ack) \<in> hist p (length as - 1)" using pl_invD(5) [OF p(3)] by (auto simp: ack_ok_def)
  then have "unat (ack_version ack) \<in> hist p j" using pl_tail_subset [OF p(3,1)] by blast
  from node_ok_pending [OF p(5) this] show ?thesis by (auto simp: held_def word_le_nat_alt)
qed


subsection \<open>A run on arriving requests is one on admissible requests\<close>

lemma request_ok_mono:
  "request_ok log W m node r q \<Longrightarrow> (\<And>k v x. log k v = Some x \<Longrightarrow> log' k v = Some x) \<Longrightarrow>
    request_ok log' W m node r q"
  by (auto simp: request_ok_def split: node_request.splits)

lemma busy_run_mono:
  "busy_run ok m node r0 b \<Longrightarrow> (\<And>r q. ok r q \<Longrightarrow> ok' r q) \<Longrightarrow> busy_run ok' m node r0 b"
  by (induction rule: busy_run.induct) (auto intro: busy_run.intros)

lemma busy_run_holds: "busy_run ok m node r0 b \<Longrightarrow> holds r0 f \<Longrightarrow> holds (busy_replica b) f"
proof (induction rule: busy_run.induct)
  case (request_begins b q steps r')
  from begin_replica [OF request_begins.hyps(3)] show ?case
    using request_begins take_version_holds by auto
next
  case (ack_worker_moves b turn s')
  then show ?case using ack_worker_turn_same(1) [OF ack_worker_moves.hyps(2)] by (cases f) auto
qed (auto intro: run_locked_holds elim!: holds.elims)

text \<open>A write that begins adds its version and value to what is known, and nothing had that version.\<close>

definition logged :: "(string \<Rightarrow> u64 \<rightharpoonup> string) \<Rightarrow> string set \<Rightarrow> (string \<Rightarrow> u64 \<rightharpoonup> string) \<Rightarrow> Replica \<Rightarrow> bool" where
  "logged log0 W log r \<longleftrightarrow>
     (\<forall>k v x. log0 k v = Some x \<longrightarrow> log k v = Some x) \<and>
     (\<forall>k \<in> W. \<forall>v. log k v \<noteq> None \<longrightarrow> v \<le> next_version (kstate r k))"

lemma logged_later:
  "logged log0 W log r \<Longrightarrow> (\<And>k. next_version (kstate r k) \<le> next_version (kstate r' k)) \<Longrightarrow>
    logged log0 W log r'"
  unfolding logged_def by (meson order.trans)

lemma logged_write:
  assumes "logged log0 W log r" "next_version (kstate r k) \<noteq> -1" "k \<in> W"
  defines "v \<equiv> next_version (kstate r k) + 1"
  shows "\<forall>k' w y. log k' w = Some y \<longrightarrow> (log(k := (log k)(v \<mapsto> x))) k' w = Some y"
    and "logged log0 W (log(k := (log k)(v \<mapsto> x))) (snd (take_version k r))"
proof -
  let ?log = "log(k := (log k)(v \<mapsto> x))"
  have less: "next_version (kstate r k) < v" unfolding v_def by (rule inc_u64_less [OF assms(2)])
  then have "\<not> v \<le> next_version (kstate r k)" by simp
  then have "log k v = None" using assms(1,3) unfolding logged_def by blast
  then show grows: "\<forall>k' w y. log k' w = Some y \<longrightarrow> ?log k' w = Some y" by auto
  have "w \<le> (if k' = k then v else next_version (kstate r k'))" if "k' \<in> W" "?log k' w \<noteq> None" for k' w
  proof (cases "k' = k \<and> w = v")
    case False
    then have "log k' w \<noteq> None" using that(2) by (auto split: if_splits)
    then have "w \<le> next_version (kstate r k')" using assms(1) that(1) by (auto simp: logged_def)
    then show ?thesis using less by auto
  qed simp
  moreover have "next_version (kstate (snd (take_version k r)) k') = (if k' = k then v else next_version (kstate r k'))"
    for k' using take_version_fields(1) [of k r k'] by (auto simp: v_def)
  ultimately have "w \<le> next_version (kstate (snd (take_version k r)) k')"
    if "k' \<in> W" "?log k' w \<noteq> None" for k' w using that by presburger
  moreover have "?log k' w = Some y" if "log0 k' w = Some y" for k' w y
    using assms(1) grows that unfolding logged_def by blast
  ultimately show "logged log0 W ?log (snd (take_version k r))" by (simp only: logged_def) blast
qed

lemma arriving_run_logged:
  assumes as: "valid_addrs as" and reach: "cluster_reach (client_routes m as) (deployed hw m direct as) c"
    and len: "length (accepted c) + 1 < 2 ^ 64" and sv: "servers c a = Some sv" "the_strategy sv = Some (m', s)"
    and run: "busy_run (arriving m as c a) m (the_node sv) (replica_of sv (m', s)) b"
  shows "\<exists>log. logged (accepted_value c) (heads m as a) log (busy_replica b) \<and>
    busy_run (request_ok log (heads m as a) m (the_node sv)) m (the_node sv) (replica_of sv (m', s)) b"
    (is "\<exists>log. logged ?log0 ?W log _ \<and> busy_run (?ok log) _ _ ?start _")
  using run
proof (induction rule: busy_run.induct)
  case all_idle
  have "logged ?log0 ?W ?log0 ?start"
    using deployed_replica_sound(3) [OF as reach len sv] by (simp add: logged_def)
  then show ?case using busy_run.all_idle by (intro exI [of _ ?log0]) auto
next
  case (request_begins b q steps r')
  then obtain log where log: "logged ?log0 ?W log (busy_replica b)" "busy_run (?ok log) m (the_node sv) ?start b"
    by blast
  let ?r = "busy_replica b"
  obtain rpc req where q: "q = (rpc, req)" by fastforce
  have "\<exists>log'. logged ?log0 ?W log' r' \<and> (\<forall>k v x. log k v = Some x \<longrightarrow> log' k v = Some x) \<and> ?ok log' ?r q"
  proof (cases "\<exists>w. req = Write_req w \<and> accepts_writes m (the_node sv)")
    case True
    then obtain w where w: "req = Write_req w" "accepts_writes m (the_node sv)" by blast
    let ?k = "wreq_key w" and ?v = "next_version (kstate ?r (wreq_key w)) + 1"
    let ?log = "log(?k := (log ?k)(?v \<mapsto> wreq_value w))"
    have routed: "client_routes m as (Client_write a w)" "next_version (kstate ?r ?k) \<noteq> -1"
      using request_begins.hyps(2) by (simp_all add: q w(1) arriving_def)
    obtain j where "j < length as" "a = position m as ?k j" "fixed (start_topo hw m direct as a) sv"
      by (rule server_at_position [OF as reach len sv, of ?k])
    then have head: "?k \<in> ?W" using accepting_node_is_head [OF as _ _ _ w(2) routed(1) refl] by blast
    have r': "r' = snd (take_version ?k ?r)"
      using request_begins.hyps(3) w by (simp add: q split_beta Let_def)
    have "?ok ?log ?r q" using head routed(2) by (simp add: request_ok_def q w(1))
    with logged_write [OF log(1) routed(2) head, of "wreq_value w"] show ?thesis
      unfolding r' by (intro exI [of _ ?log] conjI)
  next
    case False
    have r': "r' = ?r" using request_begins.hyps(3) False by (cases req) (auto simp: q)
    have "?ok log ?r q"
    proof (cases req)
      case (Propagate_req p)
      have "(a, p) \<in> set (prop_calls c)" using request_begins.hyps(2) by (simp add: q Propagate_req arriving_def)
      from arriving_propagate [OF as reach len sv this] log(1) show ?thesis
        by (simp add: request_ok_def q Propagate_req logged_def)
    next
      case (Ack_req ack)
      have call: "(a, ack) \<in> set (ack_calls c)" using request_begins.hyps(2) by (simp add: q Ack_req arriving_def)
      have "held (ack_version ack) (kstate ?r (ack_key ack))" if craq: "m = CRAQ"
        using busy_run_holds [OF request_begins.hyps(1), of "Held (ack_key ack) (ack_version ack)"]
          arriving_ack [OF as reach [unfolded craq] len sv call] by simp
      then show ?thesis by (simp add: request_ok_def q Ack_req)
    qed (use False in \<open>simp add: request_ok_def q\<close>)
    then show ?thesis using log(1) r' by blast
  qed
  then obtain log' where log': "logged ?log0 ?W log' r'" "\<And>k v x. log k v = Some x \<Longrightarrow> log' k v = Some x"
    "?ok log' ?r q" by blast
  have "busy_run (?ok log') m (the_node sv) ?start b"
    by (rule busy_run_mono [OF log(2) request_ok_mono [OF _ log'(2)]])
  from busy_run.request_begins [OF this log'(3) request_begins.hyps(3)] log'(1) show ?case by auto
next
  case (thread_moves b us st rest vs)
  then obtain log where log: "logged ?log0 ?W log (busy_replica b)" "busy_run (?ok log) m (the_node sv) ?start b"
    by blast
  have "logged ?log0 ?W log (run_locked st (busy_replica b))"
    by (rule logged_later [OF log(1)]) (simp add: run_locked_versions bump_ge)
  with busy_run.thread_moves [OF log(2) thread_moves.hyps(2)] show ?case by auto
next
  case (worker_moves b l d')
  then obtain log where log: "logged ?log0 ?W log (busy_replica b)" "busy_run (?ok log) m (the_node sv) ?start b"
    by blast
  with busy_run.worker_moves [OF log(2) worker_moves.hyps(2,3)] show ?case by (auto simp: logged_def)
next
  case (ack_worker_moves b turn s')
  then obtain log where log: "logged ?log0 ?W log (busy_replica b)" "busy_run (?ok log) m (the_node sv) ?start b"
    by blast
  with busy_run.ack_worker_moves [OF log(2) ack_worker_moves.hyps(2)] ack_worker_turn_same(1) [OF ack_worker_moves.hyps(2)]
  show ?case by (auto simp: logged_def)
qed


subsection \<open>One request after the other is a run of the cluster\<close>

definition propagates :: "(Rpc \<times> node_request) list \<Rightarrow> PropagateRequest list" where
  "propagates qs = concat (map (\<lambda>q. case snd q of Propagate_req p \<Rightarrow> [p] | _ \<Rightarrow> []) qs)"

definition acks :: "(Rpc \<times> node_request) list \<Rightarrow> AckRequest list" where
  "acks qs = concat (map (\<lambda>q. case snd q of Ack_req a \<Rightarrow> [a] | _ \<Rightarrow> []) qs)"

text \<open>Every call is delivered at most once; writes are routed as the clients route them.\<close>

definition deliverable ::
    "ReplicationMode \<Rightarrow> pb_NodeAddress list \<Rightarrow> stub \<Rightarrow> Cluster \<Rightarrow> (Rpc \<times> node_request) list \<Rightarrow> bool" where
  "deliverable m as a c qs \<longleftrightarrow>
     mset (map (Pair a) (propagates qs)) \<subseteq># mset (prop_calls c) \<and>
     mset (map (Pair a) (acks qs)) \<subseteq># mset (ack_calls c) \<and>
     (\<forall>q \<in> set qs. \<forall>w. snd q = Write_req w \<longrightarrow> client_routes m as (Client_write a w))"

lemma replica_of_put [simp]: "replica_of (put_replica m r sv) (m, support r) = r"
  by (simp add: replica_of_def put_replica_def)

lemma reach_one: "cluster_step c e c' \<Longrightarrow> allowed e \<Longrightarrow> cluster_reach allowed c c'"
  by (rule reach_step [OF reach_start])

lemma deliver_one:
  assumes sv: "servers c a = Some sv" "the_strategy sv = Some (m, s)" and "deliverable m as a c (q # qs)"
  shows "\<exists>c'. cluster_reach (client_routes m as) c c' \<and> deliverable m as a c' qs \<and>
    servers c' a = Some (put_replica m (serve_whole m (the_node sv) q (replica_of sv (m, s))) sv)"
proof -
  obtain rpc req where q: "q = (rpc, req)" by fastforce
  let ?sv' = "put_replica m (serve_whole m (the_node sv) q (replica_of sv (m, s))) sv"
  show ?thesis
  proof (cases req)
    case (Write_req w)
    obtain st resp where rpc: "rpc_Write rpc w sv = ((st, resp), ?sv')"
      using sv(2) by (fastforce simp: rpc_Write_def serve_whole_def q Write_req split_beta)
    have routed: "client_routes m as (Client_write a w)"
      using assms(3) by (simp add: deliverable_def q Write_req)
    from reach_one [where allowed = "client_routes m as", OF cluster_step.client_write [OF sv(1) rpc] routed] assms(3)
    show ?thesis by (fastforce simp: deliverable_def propagates_def acks_def q Write_req)
  next
    case (Propagate_req p)
    have in_transit: "(a, p) \<in> set (prop_calls c)"
      using assms(3) by (auto simp: deliverable_def propagates_def q Propagate_req dest: mset_subset_eqD)
    obtain res where rpc: "rpc_Propagate rpc p sv = (res, ?sv')"
      using sv(2) by (fastforce simp: rpc_Propagate_def serve_whole_def q Propagate_req split_beta)
    have routed: "client_routes m as (Deliver_propagate a p)" by (simp add: client_routes_def routed_to_def)
    from reach_one [where allowed = "client_routes m as", OF cluster_step.deliver_propagate [OF in_transit sv(1) rpc] routed] assms(3)
    show ?thesis
      by (fastforce simp: deliverable_def propagates_def acks_def q Propagate_req insert_subset_eq_iff)
  next
    case (Ack_req x)
    have in_transit: "(a, x) \<in> set (ack_calls c)"
      using assms(3) by (auto simp: deliverable_def acks_def q Ack_req dest: mset_subset_eqD)
    obtain res where rpc: "rpc_Ack x sv = (res, ?sv')"
      using sv(2) by (fastforce simp: rpc_Ack_def serve_whole_def q Ack_req split_beta)
    have routed: "client_routes m as (Deliver_ack a x)" by (simp add: client_routes_def routed_to_def)
    from reach_one [where allowed = "client_routes m as", OF cluster_step.deliver_ack [OF in_transit sv(1) rpc] routed] assms(3)
    show ?thesis
      by (fastforce simp: deliverable_def propagates_def acks_def q Ack_req insert_subset_eq_iff)
  qed
qed

lemma deliver_in_turn:
  assumes "servers c a = Some sv" "the_strategy sv = Some (m, s)" "deliverable m as a c qs"
  shows "\<exists>c' sv' s'. cluster_reach (client_routes m as) c c' \<and> servers c' a = Some sv' \<and>
    the_strategy sv' = Some (m, s') \<and>
    replica_of sv' (m, s') = snd (serve_in_turn m (the_node sv) qs (replica_of sv (m, s)))"
  using assms
proof (induction qs arbitrary: c sv s)
  case (Cons q qs)
  let ?r = "serve_whole m (the_node sv) q (replica_of sv (m, s))"
  obtain c1 where c1: "cluster_reach (client_routes m as) c c1" "deliverable m as a c1 qs"
    "servers c1 a = Some (put_replica m ?r sv)"
    using deliver_one [OF Cons.prems] by blast
  from Cons.IH [OF c1(3) _ c1(2), of "support ?r"] obtain c' sv' s' where
    "cluster_reach (client_routes m as) c1 c'" "servers c' a = Some sv'" "the_strategy sv' = Some (m, s')"
    "replica_of sv' (m, s') = snd (serve_in_turn m (the_node sv) qs ?r)" by auto
  then show ?case using cluster_reach_trans [OF _ c1(1)] by (fastforce simp: split_beta)
qed (use reach_start in force)

text \<open>
  C5. A server of a running deployment that handles requests concurrently (any of the calls under
  way to it, each once, and writes routed to it), its handlers and workers interleaved in any way:
  when they have all returned, there is a cluster the deployment can reach with one request handled
  at a time in which this server has the same versions and values and has queued, sent and
  acknowledged the same. So the theorems on reachable clusters speak about servers that
  interleave their handlers.
\<close>

theorem concurrent_server_reachable:
  assumes "valid_addrs as" "cluster_reach (client_routes m as) (deployed hw m direct as) c"
    and "length (accepted c) + 1 < 2 ^ 64" "servers c a = Some sv" "the_strategy sv = Some (m, s)"
    and "busy_run (arriving m as c a) m (the_node sv) (replica_of sv (m, s)) b" "concat (threads b) = []"
    and "deliverable m as a c (begun b)"
  shows "\<exists>c' sv' s'. cluster_reach (client_routes m as) (deployed hw m direct as) c' \<and>
    servers c' a = Some sv' \<and> the_strategy sv' = Some (m, s') \<and>
    (let r = busy_replica b; r1 = replica_of sv' (m, s')
     in (\<forall>k. same_answers r r1 k) \<and>
        mset (sent_tasks b @ queue (dispatcher r)) = mset (queue (dispatcher r1)) \<and>
        mset (sent_acks b @ pred_ack_queue (support r)) = mset (pred_ack_queue (support r1)) \<and>
        mset (client_acks r) = mset (client_acks r1))"
proof -
  note facts = deployed_replica_sound [OF assms(1-5)]
  obtain log where log: "logged (accepted_value c) (heads m as a) log (busy_replica b)"
    "busy_run (request_ok log (heads m as a) m (the_node sv)) m (the_node sv) (replica_of sv (m, s)) b"
    using arriving_run_logged [OF assms(1-6)] by blast
  have "agrees (log k) ks" if "agrees (accepted_value c k) ks" for k ks
    by (rule agrees_mono [OF that]) (use log(1) in \<open>simp add: logged_def\<close>)
  then have "sound_replica log (replica_of sv (m, s))" using facts(1) by (simp add: sound_replica_def)
  note serial = busy_run_serial [OF log(2) facts(2) this assms(7)]
  obtain c' sv' s' where c': "cluster_reach (client_routes m as) c c'" "servers c' a = Some sv'"
    "the_strategy sv' = Some (m, s')"
    "replica_of sv' (m, s') = snd (serve_in_turn m (the_node sv) (begun b) (replica_of sv (m, s)))"
    using deliver_in_turn [OF assms(4,5,8)] by blast
  have "same_answers (busy_replica b) (replica_of sv' (m, s')) k" for k
    using serial by (simp add: split_beta Let_def c'(4))
  moreover have "mset (sent_tasks b @ queue (dispatcher (busy_replica b)))
      = mset (queue (dispatcher (replica_of sv' (m, s'))))"
    "mset (sent_acks b @ pred_ack_queue (support (busy_replica b)))
      = mset (pred_ack_queue (support (replica_of sv' (m, s'))))"
    "mset (client_acks (busy_replica b)) = mset (client_acks (replica_of sv' (m, s')))"
    using serial unfolding c'(4) by (simp_all add: split_beta Let_def)
  ultimately show ?thesis
    using cluster_reach_trans [OF c'(1) assms(2)] c'(2,3) unfolding Let_def
    by (intro exI [of _ c'] exI [of _ sv'] exI [of _ s'] conjI allI)
qed

text \<open>Two clients write the same key to a CRAQ head at once; the later write is propagated first.\<close>

definition busy_write :: "string \<Rightarrow> Rpc \<times> node_request" where
  "busy_write x = (rpc_up, Write_req (sample_write x))"

definition fresh_head :: Server where
  "fresh_head = configured 2 (node_proto CRAQ False sample_addrs 0)"

definition fresh_support :: Support where
  "fresh_support = snd (the (the_strategy fresh_head))"

definition head_idle :: Busy where
  "head_idle =
     \<lparr>busy_replica = replica_of fresh_head (CRAQ, fresh_support), threads = [], begun = [], answers = [],
      sent_tasks = [], sent_acks = []\<rparr>"

definition head_one :: Busy where
  "head_one = begin_here CRAQ (the_node fresh_head) (busy_write ''a'') head_idle"

definition busy_head :: Busy where
  "busy_head = fold move_thread [1, 1, 0, 0]
     (begin_here CRAQ (the_node fresh_head) (busy_write ''b'') head_one)"

lemma busy_head_facts:
  "next_version (kstate (busy_replica head_idle) ''k'') = 0"
  "next_version (kstate (busy_replica head_one) ''k'') = 1"
  "concat (threads busy_head) = []"
  "map (prop_version \<circ> task_req) (queue (dispatcher (busy_replica busy_head))) = [2, 1]"
  "map_option fst (the_strategy fresh_head) = Some CRAQ"
  by code_simp+

lemma busy_head_begun: "begun busy_head = [busy_write ''a'', busy_write ''b'']"
  unfolding busy_head_def begun_moves by (simp add: head_one_def begin_here_def head_idle_def split_beta)

lemma fresh_head_strategy: "the_strategy fresh_head = Some (CRAQ, fresh_support)"
  using busy_head_facts(5) by (cases "the_strategy fresh_head") (auto simp: fresh_support_def)

lemma busy_head_run:
  "busy_run (arriving CRAQ sample_addrs c a) CRAQ (the_node fresh_head)
     (replica_of fresh_head (CRAQ, fresh_support)) busy_head"
proof -
  have "busy_run (arriving CRAQ sample_addrs c a) CRAQ (the_node fresh_head)
     (replica_of fresh_head (CRAQ, fresh_support)) head_idle"
    unfolding head_idle_def by (rule busy_run.all_idle)
  then show ?thesis
    unfolding busy_head_def head_one_def
    by (intro busy_run_schedule busy_run_begin_here)
      (simp_all add: arriving_def busy_write_def sample_write_def client_routes_def busy_head_facts
        head_one_def [symmetric, unfolded busy_write_def sample_write_def])
qed

theorem concurrent_server_reachable_witness:
  "map (prop_version \<circ> task_req) (queue (dispatcher (busy_replica busy_head))) = [2, 1] \<and>
    (\<exists>c' sv' s'. cluster_reach (client_routes CRAQ sample_addrs) (deployed 2 CRAQ False sample_addrs) c' \<and>
      servers c' (pb_endpoint (sample_addrs ! 0)) = Some sv' \<and> the_strategy sv' = Some (CRAQ, s') \<and>
      (let r = busy_replica busy_head; r1 = replica_of sv' (CRAQ, s')
       in (\<forall>k. same_answers r r1 k) \<and>
          mset (sent_tasks busy_head @ queue (dispatcher r)) = mset (queue (dispatcher r1)) \<and>
          mset (sent_acks busy_head @ pred_ack_queue (support r)) = mset (pred_ack_queue (support r1)) \<and>
          mset (client_acks r) = mset (client_acks r1)))"
proof (rule conjI [OF busy_head_facts(4)], rule concurrent_server_reachable [OF sample_valid reach_start])
  show "servers (deployed 2 CRAQ False sample_addrs) (pb_endpoint (sample_addrs ! 0)) = Some fresh_head"
    using deployed_server [OF sample_valid, of 0] by (simp add: fresh_head_def sample_addrs_def)
  show "deliverable CRAQ sample_addrs (pb_endpoint (sample_addrs ! 0)) (deployed 2 CRAQ False sample_addrs)
      (begun busy_head)"
    by (simp add: deliverable_def busy_head_begun busy_write_def propagates_def acks_def client_routes_def)
  show "length (accepted (deployed 2 CRAQ False sample_addrs)) + 1 < 2 ^ 64" by (simp add: deployed_def)
qed (rule fresh_head_strategy busy_head_run busy_head_facts(3))+

end
