(* ===== verification/Spec2Isabelle.thy ===== *)
theory Spec2Isabelle
  imports Component_Properties Client_Properties Progress End_To_End Craq_Reads Second_Client Client_Main Handler_Deployment
begin

text \<open>
  A verification development of crown, a replicated key-value store in C++ (src/src) with three
  protocols: CHAIN (chain replication), CRAQ (reads at any node) and CROWN (a ring on which every
  key has its own head and tail). A server process (server/server.cpp) holds a \<open>Node\<close> with its
  configuration and a replication strategy; it serves the RPCs of proto/chain.proto. A write goes
  to the head of its key, which numbers it and passes it on by Propagate calls that worker threads
  make in the background; the tail commits it and acks the client, in CRAQ also its predecessor.
  The client (client/client.cpp) reads the topology file, validates it, sends every node its
  configuration and routes; kv\_client.cpp is a one-shot client on the same file.

  \<^bold>\<open>Theories.\<close>
  \<^item> Prelude, Numeric\_Text: generic lemmas; the standard library's number texts (to\_string, stoi,
    stoll, stoull, their exceptions and the count of characters read).
  \<^item> Token\_Hash, Node, Messages: node/token\_hash.h, node/node.cpp, proto/chain.proto.
  \<^item> Replica\_Store, Version\_Store, Support: ChainStyleReplicationSupport
    (replication/common), the store of versions per key, and its stubs and ack queue. The locale
    \<open>replica_store\<close> is the contract of the two storage disciplines.
  \<^item> Dispatcher: the class PropagateDispatcher, which the three strategy files declare word for
    word; modelled once, its threads as the relation \<open>disp_step\<close>.
  \<^item> Strategy, Chain\_/Craq\_/Crown\_Replication: the interface as a locale and the three strategies,
    one definition per handler. Server: ChainNodeServiceImpl, one definition per RPC, and the
    arguments of its main.
  \<^item> Chain\_Spec: the abstract specification, a pipeline of positions for one key. Cluster: servers
    connected by calls in flight, one step per event. Replication\_Chain: the locale with the laws
    a strategy owes on its topology and the simulation of the pipeline. Chain\_Links, Topologies,
    Deployment: the laws for each strategy on each topology, and for the servers as configured.
    Guarantees: what follows for reads, acks and replicas. Cluster\_Run: an executable cluster and
    the shipped sample addresses. Forwarding, Progress: what is handed on, and that it arrives.
    Provenance: acks and Propagates stem from the write they name. Craq\_Reads: a CRAQ read as the
    four locked steps it is, with cluster events between them. Second\_Client: another client sends
    the servers their configuration again.
  \<^item> Handler\_Steps, Handler\_Interleaving: the handlers as sequences of critical sections, and those of
    one server run interleaved with each other and with its workers (\<open>busy_run\<close>).
    Handler\_Deployment: such a server in a deployed cluster.
  \<^item> Client\_Json (what the client uses of the JSON library, as data), Client\_Config,
    Client\_Validation, Client\_Topology, Client\_Deployment: the client up to the run mode.
    Client\_Args: its command line. Client\_Requests: pending writes, metrics and acks.
    Client\_Batches, Client\_Benchmark: benchmark runs. Client\_Commands: the command loop.
    Client\_Main: the process, from its arguments to its exit. Kv\_Client, Kv\_Deployment: kv\_client.cpp.
  \<^item> End\_To\_End: a client and the cluster it set up, as one relation \<open>system_run\<close>.
  \<^item> Component\_Properties and Client\_Properties: the properties of single components; here those
    of the whole system.

  \<^bold>\<open>State.\<close> \<open>Server\<close> is the service object: node, strategy (its \<open>Support\<close>), one dispatcher per
  strategy file and the log of the client acks that went out. \<open>KeyState\<close> is the struct of that name
  in chain\_style\_replication\_support.h. A mutex-protected body is one atomic step. So is a
  handler in the cluster theories; Handler\_Steps and Craq\_Reads take them apart. What a call over
  the network returns is an argument (\<open>Rpc\<close>, \<open>Environment\<close>, \<open>Kv_rpc\<close>). Exceptions are values: \<open>cxx_exn\<close> in
  the server, \<open>fault\<close> in the client, where \<open>Undefined\<close> is undefined behaviour of C++. Integers keep
  their width (\<open>u64\<close>, \<open>int\<close> within int\_min .. int\_max where the code reads one).

  \<^bold>\<open>What is shown.\<close> Every cluster reached from freshly configured servers, with calls delayed,
  reordered or lost in any way, implements the abstract chain of every key; from that the safety of
  reads, acks and replicas, and that CRAQ reads anywhere are reads at the tail, also when the cluster
  moves on between the steps of the read; when such a read fails, and with which error, a failed
  version query included. A second client that sets up a running cluster changes no
  store, queue or log. Without losses a cluster can be run to rest, and at rest every node has the newest
  version of every key; without new writes it comes to rest whatever happens. Each handler on every branch, the invariants of
  server and dispatcher, what Configure keeps. The handlers of one server are serializable: however
  their critical sections interleave, writes are answered and the server ends up as if it had served
  the requests in the order they began, and nothing is announced before it is done. In a deployment it
  ends up as a server of a reachable cluster. For the client: it brings up exactly the servers these
  theorems are about and routes to the ends of their chains; what its validation accepts; that its
  topology has no dangling pointer; the ranges and round trips of its command line; that the benchmark
  clients share out the operations; that every write it issues is accounted for by its id and its
  counters are exact; what its process does from its arguments to its exit code; that kv\_client
  writes and reads at the ends of a CHAIN or CROWN key. For both together: an ack that finds its
  request pending is for the write the client issued, accepted and seen by every node of the chain,
  and no request of the client is given two versions.

  \<^bold>\<open>Bounds.\<close> The cluster theorems assume fewer than \<open>2 ^ 64 - 1\<close> accepted writes (the 64-bit versions
  do not wrap), at most int\_max nodes with distinct endpoints, and in CROWN that clients send each
  write to the head of its key (Component\_Properties has a run where they do not). The 32-bit sums of ring
  positions in the code are unbounded here, which is the same on rings of up to \<open>2 ^ 30\<close> nodes. The
  loop that prepares a batch is assumed to satisfy \<open>total_ops + num_clients \<le> 2 ^ 64\<close> (Client\_Properties has a run outside), the client's
  counters fewer than \<open>2 ^ 64\<close> events. The loops that may not end are \<open>partial_function (option)\<close>; no
  fuel is used.

  \<^bold>\<open>Not modelled.\<close> The gRPC transport and its stubs (a call has an outcome, and a stub is the address
  it was made for), the JSON parser (its results are data), log output and the rates of the summaries,
  which are doubles, the memory the programs may run out of, the setup scripts. What the machine says
  of itself (interfaces, ports it can bind) is a parameter. Configure with the configuration a server
  already has is a step of the clusters, an atomic one, although the code takes no lock around \<open>node_\<close> and
  \<open>strategy_\<close>; a changed one while writes are under way is open. Clusters interleave whole requests;
  Handler\_Deployment lets one server at a time take them apart, until its threads have returned.
\<close>

section \<open>Properties of the deployed clusters\<close>

text \<open>
  C1. Refinement. Whatever the mode (CHAIN, CRAQ or CROWN), the addresses and the order of
  events, a cluster reached from freshly configured servers implements, for every key, a
  reachable state of the abstract chain: each server's versions, values, queues and acks are
  those of its position. Calls may be reordered, delayed, lost; in CROWN the clients send each
  write to the head of its key.
\<close>

theorem deployed_cluster_implements_chain:
  assumes "valid_addrs as" "cluster_reach (client_routes m as) (deployed hw m direct as) c"
    and "length (accepted c) + 1 < 2 ^ 64"
  shows "\<exists>p. pl_reach (length as) p \<and>
    cluster_sim (length as) m (position m as k) k (origin_text m as k) p c"
  by (rule deployed_refines [OF assms]) blast

theorem deployed_cluster_implements_chain_witness:
  "\<exists>p. pl_reach (length sample_addrs) p \<and>
    cluster_sim (length sample_addrs) CROWN (position CROWN sample_addrs ''k'') ''k''
      (origin_text CROWN sample_addrs ''k'') p (sample_cluster CROWN)"
  by (rule deployed_cluster_implements_chain [OF sample_valid sample_cluster_reach sample_length])

text \<open>
  C9. A read answered by the tail of a key returns a write that a head accepted, under the
  version the head gave it.
\<close>

theorem tail_read_returns_accepted_write:
  assumes "valid_addrs as" "cluster_reach (client_routes m as) (deployed hw m direct as) c"
    and "length (accepted c) + 1 < 2 ^ 64"
    and "servers c (tail_of m as k) = Some sv"
    and "rpc_Read rpc \<lparr>rreq_key = k\<rparr> sv = (st, Some r)"
  shows "rresp_version r \<noteq> 0 \<and> (k, rresp_version r, rresp_value r) \<in> set (accepted c)"
proof -
  obtain p where p: "cluster_sim (length as) m (position m as k) k (origin_text m as k) p c"
    "cluster_fixed (start_topo hw m direct as) c" by (rule deployed_refines [OF assms(1-3)])
  note read = tail_read [OF assms(1) p assms(4), of rpc]
  have nz: "committed_version (key_at c (tail_of m as k) k) \<noteq> 0" using read(2) assms(5) by auto
  have "length as - 1 < length as" using valid_addrs_pos [OF assms(1)] by linarith
  from replication_chain.sim_values(1) [OF replication_chain_deployed [OF assms(1)] p(1) this]
  show ?thesis using read(1) [OF nz] nz assms(5) by (auto simp: tail_of_def)
qed

theorem tail_read_returns_accepted_write_witness:
  "rresp_version sample_read \<noteq> 0 \<and>
    (''k'', rresp_version sample_read, rresp_value sample_read) \<in> set (accepted (sample_cluster CRAQ))"
  by (rule tail_read_returns_accepted_write [OF sample_valid sample_cluster_reach sample_length
      sample_facts(2,5)])

text \<open>
  C8. Once a client has been sent the ack of a write, every read at the tail of the key
  succeeds and returns that version or a newer one.
\<close>

theorem acknowledged_write_is_read:
  assumes "valid_addrs as" "cluster_reach (client_routes m as) (deployed hw m direct as) c"
    and "length (accepted c) + 1 < 2 ^ 64"
    and "i < length as" "servers c (position m as (ack_key a) i) = Some sva" "(b, a) \<in> set (ack_log sva)"
    and "servers c (tail_of m as (ack_key a)) = Some sv"
  shows "\<exists>r. rpc_Read rpc \<lparr>rreq_key = ack_key a\<rparr> sv = (Status_OK, Some r) \<and>
    ack_version a \<le> rresp_version r"
proof -
  let ?k = "ack_key a"
  obtain p where p: "pl_inv (length as) p"
    "cluster_sim (length as) m (position m as ?k) ?k (origin_text m as ?k) p c"
    "cluster_fixed (start_topo hw m direct as) c" by (rule deployed_refines [OF assms(1-3)])
  note ch = replication_chain_deployed [OF assms(1), of m ?k hw direct]
  have le: "ack_version a \<le> committed_version (key_at c (tail_of m as ?k) ?k)"
    using replication_chain.sim_acknowledged(1) [OF ch p(2,1) assms(4-6) refl] by (simp add: tail_of_def)
  have "ack_version a \<noteq> 0"
    by (rule replication_chain.sim_acknowledged_nonzero [OF ch p(2,1) assms(4-6) refl])
  then have "committed_version (key_at c (tail_of m as ?k) ?k) \<noteq> 0" using le by auto
  from tail_read(1) [OF assms(1) p(2,3) assms(7) this, of rpc] le show ?thesis by simp
qed

theorem acknowledged_write_is_read_witness:
  "\<exists>r. rpc_Read rpc_up \<lparr>rreq_key = ack_key sample_ack\<rparr> (sample_tail CHAIN) = (Status_OK, Some r) \<and>
    ack_version sample_ack \<le> rresp_version r"
proof (rule acknowledged_write_is_read [OF sample_valid sample_cluster_reach sample_length])
  show "2 < length sample_addrs" by (simp add: sample_addrs_def)
  show "servers (sample_cluster CHAIN) (position CHAIN sample_addrs (ack_key sample_ack) 2)
    = Some (sample_tail CHAIN)"
    using sample_facts(2) [of CHAIN] by (simp add: sample_ack_def tail_of_def sample_addrs_def eval_nat_numeral)
qed (use sample_facts(2) [of CHAIN] sample_facts(4) [of CHAIN] in \<open>auto simp: sample_ack_def\<close>)

text \<open>C11. An acknowledged version is on every replica of the chain: each has seen it or a newer one.\<close>

theorem acknowledged_write_on_every_replica:
  assumes "valid_addrs as" "cluster_reach (client_routes m as) (deployed hw m direct as) c"
    and "length (accepted c) + 1 < 2 ^ 64"
    and "i < length as" "servers c (position m as (ack_key a) i) = Some sva" "(b, a) \<in> set (ack_log sva)"
    and "j < length as"
  shows "ack_version a \<le> latest_seen_version (key_at c (position m as (ack_key a) j) (ack_key a))"
proof -
  let ?k = "ack_key a"
  obtain p where p: "pl_inv (length as) p"
    "cluster_sim (length as) m (position m as ?k) ?k (origin_text m as ?k) p c"
    by (rule deployed_refines [OF assms(1-3)])
  show ?thesis
    by (rule replication_chain.sim_acknowledged(2) [OF replication_chain_deployed [OF assms(1)]
        p(2,1) assms(4-6) refl assms(7)])
qed

theorem acknowledged_write_on_every_replica_witness:
  "ack_version sample_ack
    \<le> latest_seen_version (key_at (sample_cluster CRAQ) (position CRAQ sample_addrs (ack_key sample_ack) 0)
        (ack_key sample_ack))"
proof (rule acknowledged_write_on_every_replica [OF sample_valid sample_cluster_reach sample_length])
  show "2 < length sample_addrs" "0 < length sample_addrs" by (simp_all add: sample_addrs_def)
  show "servers (sample_cluster CRAQ) (position CRAQ sample_addrs (ack_key sample_ack) 2)
    = Some (sample_tail CRAQ)"
    using sample_facts(2) [of CRAQ] by (simp add: sample_ack_def tail_of_def sample_addrs_def eval_nat_numeral)
qed (use sample_facts(4) [of CRAQ] in auto)

text \<open>
  C14. Along the chain of a key no node has seen a newer version than one before it; the tail
  has committed exactly what it has seen; and no node has committed beyond the tail.
\<close>

theorem replicas_in_chain_order:
  assumes "valid_addrs as" "cluster_reach (client_routes m as) (deployed hw m direct as) c"
    and "length (accepted c) + 1 < 2 ^ 64" "i \<le> j" "j < length as"
  shows "latest_seen_version (key_at c (position m as k j) k)
      \<le> latest_seen_version (key_at c (position m as k i) k) \<and>
    committed_version (key_at c (tail_of m as k) k) = latest_seen_version (key_at c (tail_of m as k) k) \<and>
    committed_version (key_at c (position m as k j) k) \<le> committed_version (key_at c (tail_of m as k) k)"
proof -
  obtain p where p: "pl_inv (length as) p"
    "cluster_sim (length as) m (position m as k) k (origin_text m as k) p c"
    by (rule deployed_refines [OF assms(1-3)])
  note vs = replication_chain.sim_versions [OF replication_chain_deployed [OF assms(1)] p(2,1)]
  show ?thesis using vs(1) [OF assms(4,5)] vs(2) vs(3) [OF assms(5)] by (simp add: tail_of_def)
qed

theorem replicas_in_chain_order_witness:
  "latest_seen_version (key_at (sample_cluster CROWN) (position CROWN sample_addrs ''k'' 2) ''k'')
      \<le> latest_seen_version (key_at (sample_cluster CROWN) (position CROWN sample_addrs ''k'' 1) ''k'') \<and>
    committed_version (key_at (sample_cluster CROWN) (tail_of CROWN sample_addrs ''k'') ''k'')
      = latest_seen_version (key_at (sample_cluster CROWN) (tail_of CROWN sample_addrs ''k'') ''k'') \<and>
    committed_version (key_at (sample_cluster CROWN) (position CROWN sample_addrs ''k'' 2) ''k'')
      \<le> committed_version (key_at (sample_cluster CROWN) (tail_of CROWN sample_addrs ''k'') ''k'')"
  by (rule replicas_in_chain_order [OF sample_valid sample_cluster_reach sample_length])
    (simp_all add: sample_addrs_def)

text \<open>
  C2. CRAQ serves reads anywhere: in any reachable state, a read at any node whose version
  query is answered by the cluster itself (hop by hop or by the tail stub) gives exactly the
  response the tail would give, an error only where the tail gives one. In particular the
  node can always materialize the version the tail reports.
\<close>

theorem craq_read_anywhere_equals_tail:
  assumes "valid_addrs as" "cluster_reach (client_routes CRAQ as) (deployed hw CRAQ direct as) c"
    and "length (accepted c) + 1 < 2 ^ 64"
    and "j < length as" "servers c (position CRAQ as k j) = Some sv"
    and "servers c (tail_of CRAQ as k) = Some svt" "length as \<le> hops"
  shows "snd (rpc_Read (cluster_rpc hops c) \<lparr>rreq_key = k\<rparr> sv) = snd (rpc_Read rpc \<lparr>rreq_key = k\<rparr> svt)"
proof -
  obtain p where p: "pl_inv (length as) p"
    "cluster_sim (length as) CRAQ (position CRAQ as k) k (origin_text CRAQ as k) p c"
    "cluster_fixed (start_topo hw CRAQ direct as) c" by (rule deployed_refines [OF assms(1-3)])
  show ?thesis by (rule craq_read_any_node [OF assms(1) p(2,1,3) assms(4-7)])
qed

theorem craq_read_anywhere_equals_tail_witness:
  "snd (rpc_Read (cluster_rpc 3 (sample_cluster CRAQ)) \<lparr>rreq_key = ''k''\<rparr>
      (the (servers (sample_cluster CRAQ) (position CRAQ sample_addrs ''k'' 0))))
    = snd (rpc_Read rpc_up \<lparr>rreq_key = ''k''\<rparr> (sample_tail CRAQ))"
proof (rule craq_read_anywhere_equals_tail [OF sample_valid sample_cluster_reach sample_length _ _
      sample_facts(2)])
  show "0 < length sample_addrs" "length sample_addrs \<le> 3" by (simp_all add: sample_addrs_def)
  obtain sv where "servers (sample_cluster CRAQ) (position CRAQ sample_addrs ''k'' 0) = Some sv"
    by (rule sample_position [of 0 CRAQ]) (simp add: sample_addrs_def)
  then show "servers (sample_cluster CRAQ) (position CRAQ sample_addrs ''k'' 0)
    = Some (the (servers (sample_cluster CRAQ) (position CRAQ sample_addrs ''k'' 0)))" by simp
qed

text \<open>C16. No version of a key is ever given to two values.\<close>

theorem version_accepted_once:
  assumes "valid_addrs as" "cluster_reach (client_routes m as) (deployed hw m direct as) c"
    and "length (accepted c) + 1 < 2 ^ 64"
    and "(k, v, x) \<in> set (accepted c)" "(k, v, y) \<in> set (accepted c)"
  shows "x = y"
proof -
  obtain p where p: "cluster_sim (length as) m (position m as k) k (origin_text m as k) p c"
    by (rule deployed_refines [OF assms(1-3)])
  show ?thesis
    by (rule replication_chain.sim_accepted_unique [OF replication_chain_deployed [OF assms(1)] p assms(4,5)])
qed

theorem version_accepted_once_witness:
  "{x. (''k'', 1, x) \<in> set (accepted (sample_cluster CHAIN))} = {''v''}"
proof -
  have "(''k'', 1, ''v'') \<in> set (accepted (sample_cluster CHAIN))" by (simp add: sample_facts)
  with version_accepted_once [OF sample_valid sample_cluster_reach sample_length this]
  show ?thesis by blast
qed

text \<open>
  C15. Reads at the tail are monotone: a later read of the same key, after any further events,
  never returns an older version, and it does not start to fail.
\<close>

theorem tail_reads_monotone:
  assumes "valid_addrs as" "cluster_reach (client_routes m as) (deployed hw m direct as) c"
    and "cluster_reach (client_routes m as) c c'" "length (accepted c') + 1 < 2 ^ 64"
    and "servers c (tail_of m as k) = Some sv" "rpc_Read rpc \<lparr>rreq_key = k\<rparr> sv = (st, Some r)"
    and "servers c' (tail_of m as k) = Some sv'"
  shows "\<exists>r'. rpc_Read rpc' \<lparr>rreq_key = k\<rparr> sv' = (Status_OK, Some r') \<and> rresp_version r \<le> rresp_version r'"
proof -
  have reach': "cluster_reach (client_routes m as) (deployed hw m direct as) c'"
    by (rule cluster_reach_trans [OF assms(3,2)])
  have len: "length (accepted c) + 1 < 2 ^ 64"
    using cluster_reach_accepted [OF assms(3)] assms(4) by linarith
  obtain p where p: "cluster_sim (length as) m (position m as k) k (origin_text m as k) p c"
    "cluster_fixed (start_topo hw m direct as) c" by (rule deployed_refines [OF assms(1,2) len])
  obtain p' where p': "cluster_sim (length as) m (position m as k) k (origin_text m as k) p' c'"
    "cluster_fixed (start_topo hw m direct as) c'" by (rule deployed_refines [OF assms(1) reach' assms(4)])
  note read = tail_read [OF assms(1) p assms(5), of rpc]
  note read' = tail_read [OF assms(1) p' assms(7), of rpc']
  have le: "committed_version (key_at c (tail_of m as k) k) \<le> committed_version (key_at c' (tail_of m as k) k)"
    by (rule cluster_reach_committed [OF assms(3)])
  have nz: "committed_version (key_at c (tail_of m as k) k) \<noteq> 0" using read(2) assms(6) by auto
  then have nz': "committed_version (key_at c' (tail_of m as k) k) \<noteq> 0" using le by auto
  show ?thesis using read(1) [OF nz] read'(1) [OF nz'] le assms(6) by auto
qed

theorem tail_reads_monotone_witness:
  "\<exists>r'. rpc_Read rpc_up \<lparr>rreq_key = ''k''\<rparr> (sample_tail CROWN) = (Status_OK, Some r') \<and>
    rresp_version sample_read \<le> rresp_version r'"
  by (rule tail_reads_monotone [OF sample_valid sample_cluster_reach reach_start sample_length
      sample_facts(2,5,2)])

text \<open>Whatever a replica stores under a version was accepted under that version.\<close>

lemma replicas_hold_accepted_values:
  assumes "valid_addrs as" "cluster_reach (client_routes m as) (deployed hw m direct as) c"
    and "length (accepted c) + 1 < 2 ^ 64" "j < length as"
    and "ks = key_at c (position m as k j) k"
  shows "(latest_seen_version ks \<noteq> 0 \<longrightarrow>
        (k, latest_seen_version ks, latest_seen_value ks) \<in> set (accepted c)) \<and>
      (committed_version ks \<noteq> 0 \<longrightarrow> (k, committed_version ks, committed_value ks) \<in> set (accepted c)) \<and>
      (\<forall>v x. pending_versions ks v = Some x \<longrightarrow> (k, v, x) \<in> set (accepted c))"
proof -
  obtain p where p: "cluster_sim (length as) m (position m as k) k (origin_text m as k) p c"
    by (rule deployed_refines [OF assms(1-3)])
  note vs = replication_chain.sim_values [OF replication_chain_deployed [OF assms(1)] p assms(4)]
  show ?thesis using vs by (simp add: assms(5))
qed

section \<open>Progress\<close>

text \<open>
  C10. As long as no Propagate call has been lost, a cluster can be run to rest by its own workers
  and deliveries, without a new write; and whenever it is at rest, every node of every key's
  chain has the newest version that was accepted for the key, the tail has committed it and
  holds the value accepted under it.
\<close>

theorem every_write_reaches_the_tail:
  assumes "valid_addrs as" "length (accepted c) + 1 < 2 ^ 64"
    and "cluster_reach (\<lambda>e. client_routes m as e \<and> \<not> loses_propagate e) (deployed hw m direct as) c"
  shows "\<exists>c'. cluster_reach delivers c c' \<and> accepted c' = accepted c \<and> quiet c' \<and>
    (\<forall>key. let newest = committed_version (key_at c' (tail_of m as key) key) in
      (\<forall>j < length as. seen_by c' (position m as key j) key = newest) \<and>
      (\<forall>v x. (key, v, x) \<in> set (accepted c) \<longrightarrow> v \<le> newest) \<and>
      (newest \<noteq> 0 \<longrightarrow> (key, newest, committed_value (key_at c' (tail_of m as key) key)) \<in> set (accepted c)))"
proof -
  have routes: "cluster_reach (client_routes m as) (deployed hw m direct as) c"
    by (rule cluster_reach_mono [OF assms(3)]) simp
  obtain c' where c': "cluster_reach delivers c c'" "quiet c'" "accepted c' = accepted c"
    using runs_to_rest [OF assms(1) routes assms(2)] by blast
  have "cluster_reach (\<lambda>e. client_routes m as e \<and> \<not> loses_propagate e) c c'"
    by (rule cluster_reach_mono [OF c'(1)]) (use delivers_cases not_write_routed in blast)
  then have reach: "cluster_reach (\<lambda>e. client_routes m as e \<and> \<not> loses_propagate e) (deployed hw m direct as) c'"
    by (rule cluster_reach_trans [OF _ assms(3)])
  have len: "length (accepted c') + 1 < 2 ^ 64" using assms(2) c'(3) by simp
  note rest = rest_converged [OF assms(1) reach len c'(2)]
  show ?thesis
    unfolding Let_def
  proof (intro exI [of _ c'] conjI allI impI)
    fix key
    show "seen_by c' (position m as key j) key = committed_version (key_at c' (tail_of m as key) key)"
      if "j < length as" for j by (rule rest(1) [OF that])
    show "v \<le> committed_version (key_at c' (tail_of m as key) key)" if "(key, v, x) \<in> set (accepted c)" for v x
      using rest(2) [of key v x] that c'(3) by simp
    show "(key, committed_version (key_at c' (tail_of m as key) key),
        committed_value (key_at c' (tail_of m as key) key)) \<in> set (accepted c)"
      if "committed_version (key_at c' (tail_of m as key) key) \<noteq> 0"
      using rest(3) [of key] that c'(3) by simp
  qed (use c' in simp_all)
qed

theorem every_write_reaches_the_tail_witness:
  "\<exists>c'. cluster_reach delivers (sample_cluster CRAQ) c' \<and> quiet c' \<and>
    1 \<le> committed_version (key_at c' (tail_of CRAQ sample_addrs ''k'') ''k'')"
proof -
  from every_write_reaches_the_tail [OF sample_valid sample_length sample_lossless, of CRAQ]
  obtain c' where "cluster_reach delivers (sample_cluster CRAQ) c'" "quiet c'"
    "\<And>v x. (''k'', v, x) \<in> set (accepted (sample_cluster CRAQ)) \<Longrightarrow>
      v \<le> committed_version (key_at c' (tail_of CRAQ sample_addrs ''k'') ''k'')"
    by (auto simp: Let_def)
  then show ?thesis using sample_facts(3) [of CRAQ] by auto
qed

text \<open>
  C17. Nor can the propagation go on for ever: from a reachable cluster at most \<open>work\<close> events of
  the propagation (tasks taken, calls delivered, lost or completed) happen without a new write,
  whatever else happens in between.
\<close>

theorem propagation_comes_to_rest:
  assumes "valid_addrs as" "cluster_reach (client_routes m as) (deployed hw m direct as) c"
    and "length (accepted c) + 1 < 2 ^ 64"
    and "cluster_path c es c'" "list_all (\<lambda>e. \<not> is_write e) es"
  shows "length (filter propagation es) + work m as c' \<le> work m as c"
  by (rule path_work [OF assms(4,1,5,2,3)])

definition sample_pass :: bool where
  "sample_pass =
     (case sample_run CHAIN 0 of
        None \<Rightarrow> False
      | Some c \<Rightarrow> (let es = pass_on CHAIN (pb_endpoint (sample_addrs ! 0)) c
                  in length (accepted c) = 1 \<and> length (filter propagation es) = 2 \<and>
                     list_all (\<lambda>e. \<not> is_write e) es \<and> exec_events es c \<noteq> None))"

theorem propagation_comes_to_rest_witness:
  "\<exists>c es c'. cluster_path c es c' \<and> length (filter propagation es) = 2 \<and> 2 \<le> work CHAIN sample_addrs c"
proof -
  have "sample_pass" by code_simp
  then obtain c es c' where c: "sample_run CHAIN 0 = Some c" "length (accepted c) = 1"
    "length (filter propagation es) = 2" "list_all (\<lambda>e. \<not> is_write e) es" "exec_events es c = Some c'"
    by (auto simp: sample_pass_def Let_def split: option.splits)
  have reach: "cluster_reach (client_routes CHAIN sample_addrs) (deployed 2 CHAIN False sample_addrs) c"
    by (rule sample_reach [OF c(1)]) (simp_all add: client_routes_def)
  have path: "cluster_path c es c'" by (rule exec_events_path [OF c(5)])
  have "length (accepted c) + 1 < 2 ^ 64" using c(2) by simp
  from propagation_comes_to_rest [OF sample_valid reach this path c(4)] show ?thesis
    using path c(3) by (intro exI [of _ c] exI [of _ es] exI [of _ c']) simp
qed

end
